(* ===== verification/Prelude.thy ===== *)
theory Prelude
  imports Main "HOL-Library.Word"
begin

text \<open>
  Shared vocabulary of the development: the C integer types of an LP64 platform as words, the
  return codes of \<^verbatim>\<open>src/nginx-1.4.4/src/core/ngx_core.h\<close>, byte constants, the bitmap test that
  several byte-class tables use, and the generic facts on bytes and lists that the component
  theories share.
\<close>

unbundle bit_operations_syntax

section \<open>Machine types\<close>

type_synonym u_char = "8 word"
type_synonym uint32 = "32 word"
type_synonym uint64 = "64 word"

text \<open>\<open>ngx_int_t\<close> and \<open>ngx_uint_t\<close> are \<open>intptr_t\<close> and \<open>uintptr_t\<close>; \<open>size_t\<close>, \<open>ssize_t\<close>,
  \<open>off_t\<close> and \<open>time_t\<close> have 64 bits. A signed value is a word read with \<open>sint\<close>.\<close>

type_synonym ngx_int_t = "64 word"
type_synonym ngx_uint_t = "64 word"

text \<open>An \<open>ngx_str_t\<close> (\<open>len\<close> bytes at \<open>data\<close>) is the list of its bytes.\<close>

type_synonym ngx_str = "u_char list"

text \<open>A character constant of the source, as the byte it denotes.\<close>

abbreviation (input) chr :: "char \<Rightarrow> u_char" where
  "chr c \<equiv> of_char c"

abbreviation (input) str :: "string \<Rightarrow> ngx_str" where
  "str s \<equiv> map of_char s"

abbreviation (input) LF :: u_char where "LF \<equiv> 0x0A"
abbreviation (input) CR :: u_char where "CR \<equiv> 0x0D"

abbreviation (input) NGX_OK :: ngx_int_t where "NGX_OK \<equiv> 0"
abbreviation (input) NGX_ERROR :: ngx_int_t where "NGX_ERROR \<equiv> - 1"
abbreviation (input) NGX_AGAIN :: ngx_int_t where "NGX_AGAIN \<equiv> - 2"
abbreviation (input) NGX_DONE :: ngx_int_t where "NGX_DONE \<equiv> - 4"
abbreviation (input) NGX_DECLINED :: ngx_int_t where "NGX_DECLINED \<equiv> - 5"

section \<open>Bytes\<close>

lemma unat_byte_less [simp]: "unat (c :: u_char) < 256"
proof -
  have "unat c < 2 ^ LENGTH(8)" by (rule unsigned_less)
  then show ?thesis by simp
qed

text \<open>A byte property holds of every byte when it holds of the 256 numerals: the form in which
  the table lemmas of the components are evaluated.\<close>

lemma byte_list: "map word_of_nat [2..<256] =
    ([
     2, 3, 4, 5, 6, 7, 8, 9, 10, 11, 12, 13, 14, 15,
     16, 17, 18, 19, 20, 21, 22, 23, 24, 25, 26, 27, 28, 29, 30, 31,
     32, 33, 34, 35, 36, 37, 38, 39, 40, 41, 42, 43, 44, 45, 46, 47,
     48, 49, 50, 51, 52, 53, 54, 55, 56, 57, 58, 59, 60, 61, 62, 63,
     64, 65, 66, 67, 68, 69, 70, 71, 72, 73, 74, 75, 76, 77, 78, 79,
     80, 81, 82, 83, 84, 85, 86, 87, 88, 89, 90, 91, 92, 93, 94, 95,
     96, 97, 98, 99, 100, 101, 102, 103, 104, 105, 106, 107, 108, 109, 110, 111,
     112, 113, 114, 115, 116, 117, 118, 119, 120, 121, 122, 123, 124, 125, 126, 127,
     128, 129, 130, 131, 132, 133, 134, 135, 136, 137, 138, 139, 140, 141, 142, 143,
     144, 145, 146, 147, 148, 149, 150, 151, 152, 153, 154, 155, 156, 157, 158, 159,
     160, 161, 162, 163, 164, 165, 166, 167, 168, 169, 170, 171, 172, 173, 174, 175,
     176, 177, 178, 179, 180, 181, 182, 183, 184, 185, 186, 187, 188, 189, 190, 191,
     192, 193, 194, 195, 196, 197, 198, 199, 200, 201, 202, 203, 204, 205, 206, 207,
     208, 209, 210, 211, 212, 213, 214, 215, 216, 217, 218, 219, 220, 221, 222, 223,
     224, 225, 226, 227, 228, 229, 230, 231, 232, 233, 234, 235, 236, 237, 238, 239,
     240, 241, 242, 243, 244, 245, 246, 247, 248, 249, 250, 251, 252, 253, 254, 255] :: u_char list)"
  by simp

lemma byte_ballI:
  assumes "list_all P [
     0, 1, 2, 3, 4, 5, 6, 7, 8, 9, 10, 11, 12, 13, 14, 15,
     16, 17, 18, 19, 20, 21, 22, 23, 24, 25, 26, 27, 28, 29, 30, 31,
     32, 33, 34, 35, 36, 37, 38, 39, 40, 41, 42, 43, 44, 45, 46, 47,
     48, 49, 50, 51, 52, 53, 54, 55, 56, 57, 58, 59, 60, 61, 62, 63,
     64, 65, 66, 67, 68, 69, 70, 71, 72, 73, 74, 75, 76, 77, 78, 79,
     80, 81, 82, 83, 84, 85, 86, 87, 88, 89, 90, 91, 92, 93, 94, 95,
     96, 97, 98, 99, 100, 101, 102, 103, 104, 105, 106, 107, 108, 109, 110, 111,
     112, 113, 114, 115, 116, 117, 118, 119, 120, 121, 122, 123, 124, 125, 126, 127,
     128, 129, 130, 131, 132, 133, 134, 135, 136, 137, 138, 139, 140, 141, 142, 143,
     144, 145, 146, 147, 148, 149, 150, 151, 152, 153, 154, 155, 156, 157, 158, 159,
     160, 161, 162, 163, 164, 165, 166, 167, 168, 169, 170, 171, 172, 173, 174, 175,
     176, 177, 178, 179, 180, 181, 182, 183, 184, 185, 186, 187, 188, 189, 190, 191,
     192, 193, 194, 195, 196, 197, 198, 199, 200, 201, 202, 203, 204, 205, 206, 207,
     208, 209, 210, 211, 212, 213, 214, 215, 216, 217, 218, 219, 220, 221, 222, 223,
     224, 225, 226, 227, 228, 229, 230, 231, 232, 233, 234, 235, 236, 237, 238, 239,
     240, 241, 242, 243, 244, 245, 246, 247, 248, 249, 250, 251, 252, 253, 254, 255]"
  shows "P (c :: u_char)"
proof -
  from assms have P: "P 0" "P 1" "list_all P (map word_of_nat [2..<256])"
    unfolding byte_list by (simp_all only: list.pred_inject)
  have P2: "P (word_of_nat n)" if "n \<in> set [2..<256]" for n
    using P(3) that unfolding list_all_iff set_map by blast
  show ?thesis
  proof (cases "2 \<le> unat c")
    case True
    then have "unat c \<in> set [2..<256]"
      using unat_byte_less [of c] unfolding set_upt atLeastLessThan_iff by blast
    then have "P (word_of_nat (unat c))" by (rule P2)
    then show ?thesis by simp
  next
    case False
    then have "unat c = 0 \<or> unat c = 1" by linarith
    then have "c = 0 \<or> c = 1" by (simp add: unat_eq_0 word_unat_eq_iff [of c 1])
    with P(1,2) show ?thesis by blast
  qed
qed

lemma word_numeral_le_1 [simp]:
  "((numeral n :: 'a::len word) \<le> 1) \<longleftrightarrow> uint (numeral n :: 'a word) \<le> 1"
  by (simp add: word_le_def)

lemma word_numeral_less_1 [simp]:
  "((numeral n :: 'a::len word) < 1) \<longleftrightarrow> uint (numeral n :: 'a word) < 1"
  by (simp add: word_less_def)

definition is_digit :: "u_char \<Rightarrow> bool" where
  "is_digit c \<longleftrightarrow> chr CHR ''0'' \<le> c \<and> c \<le> chr CHR ''9''"

text \<open>The test \<open>tbl[c >> 5] & (1 << (c & 0x1f))\<close> of a 256-bit byte class kept in eight
  32-bit words.\<close>

definition tbl_bit :: "uint32 list \<Rightarrow> u_char \<Rightarrow> bool" where
  "tbl_bit tbl c \<longleftrightarrow> tbl ! unat (drop_bit 5 c) AND push_bit (unat (c AND 0x1f)) 1 \<noteq> 0"

section \<open>Words and numbers\<close>

lemma unat_of_nat_byte: "n < 256 \<Longrightarrow> unat (word_of_nat n :: u_char) = n"
  by (simp add: unat_of_nat)

lemma unat_ucast_32: "unat (w :: 64 word) < 2 ^ 32 \<Longrightarrow> unat (ucast w :: uint32) = unat w"
  by (simp add: unsigned_ucast_eq take_bit_nat_eq_self)

lemma sless_zero_64: "((w :: 64 word) <s 0) \<longleftrightarrow> 2 ^ 63 \<le> unat w"
proof -
  have "(w <s 0) \<longleftrightarrow> bit w 63"
    by (simp add: word_sless_alt sint_uint signed_take_bit_negative_iff bit_uint_iff)
  also have "\<dots> \<longleftrightarrow> bit (unat w) 63"
    by (simp add: bit_unsigned_iff)
  also have "\<dots> \<longleftrightarrow> 2 ^ 63 \<le> unat w"
  proof -
    have "unat w < 2 ^ LENGTH(64)" by (rule unsigned_less)
    then have "unat w div 2 ^ 63 = (if 2 ^ 63 \<le> unat w then 1 else 0)"
      by (auto intro: div_nat_eqI)
    then show ?thesis by (simp add: bit_iff_odd)
  qed
  finally show ?thesis .
qed

lemma unat_word_of_nat_64: "n < 2 ^ 63 \<Longrightarrow> unat (word_of_nat n :: 64 word) = n"
  by (simp add: unat_of_nat)

end
