(* ===== verification/Ngx_String.thy ===== *)
theory Ngx_String
  imports Prelude "HOL-Library.Multiset"
begin

text \<open>
  The string library of \<^verbatim>\<open>src/nginx-1.4.4/src/core/ngx_string.c\<close>, first part: case folding,
  comparison, searching, and conversion between numbers and text. A pair of a pointer and a
  length is the list of the bytes it delimits; a NUL-terminated string is a list that holds its
  terminator, and reading past the end of a list is the failure \<open>None\<close>.
\<close>

section \<open>Case folding and bounded copy\<close>

definition ngx_tolower :: "u_char \<Rightarrow> u_char" where
  "ngx_tolower c = (if chr CHR ''A'' \<le> c \<and> c \<le> chr CHR ''Z'' then c OR 0x20 else c)"

definition ngx_toupper :: "u_char \<Rightarrow> u_char" where
  "ngx_toupper c = (if chr CHR ''a'' \<le> c \<and> c \<le> chr CHR ''z'' then c AND NOT 0x20 else c)"

fun ngx_strlow :: "ngx_str \<Rightarrow> ngx_str" where
  "ngx_strlow [] = []"
| "ngx_strlow (c # src) = ngx_tolower c # ngx_strlow src"

text \<open>The loop of \<open>ngx_cpystrn\<close> copies at most \<open>n\<close> bytes and stops after a NUL; the result is
  what is written to \<open>dst\<close>, and \<open>None\<close> is a read past the source.\<close>

fun cpystrn_loop :: "ngx_str \<Rightarrow> nat \<Rightarrow> ngx_str option" where
  "cpystrn_loop src 0 = Some [0]"
| "cpystrn_loop [] (Suc n) = None"
| "cpystrn_loop (c # src) (Suc n) =
     (if c = 0 then Some [0] else map_option (Cons c) (cpystrn_loop src n))"

definition ngx_cpystrn :: "ngx_str \<Rightarrow> nat \<Rightarrow> ngx_str option" where
  "ngx_cpystrn src n = (if n = 0 then Some [] else cpystrn_loop src (n - 1))"

section \<open>Comparison\<close>

text \<open>The byte difference \<open>c1 - c2\<close> that the comparison routines return, as an integer.\<close>

definition byte_diff :: "u_char \<Rightarrow> u_char \<Rightarrow> int" where
  "byte_diff c1 c2 = uint c1 - uint c2"

fun ngx_strcasecmp :: "ngx_str \<Rightarrow> ngx_str \<Rightarrow> int option" where
  "ngx_strcasecmp (a # s1) (b # s2) =
     (let c1 = ngx_tolower a; c2 = ngx_tolower b in
      if c1 = c2 then (if c1 \<noteq> 0 then ngx_strcasecmp s1 s2 else Some 0)
      else Some (byte_diff c1 c2))"
| "ngx_strcasecmp _ _ = None"

fun ngx_strncasecmp :: "ngx_str \<Rightarrow> ngx_str \<Rightarrow> nat \<Rightarrow> int option" where
  "ngx_strncasecmp s1 s2 0 = Some 0"
| "ngx_strncasecmp (a # s1) (b # s2) (Suc n) =
     (let c1 = ngx_tolower a; c2 = ngx_tolower b in
      if c1 = c2 then (if c1 \<noteq> 0 then ngx_strncasecmp s1 s2 n else Some 0)
      else Some (byte_diff c1 c2))"
| "ngx_strncasecmp _ _ (Suc n) = None"

text \<open>The C library's \<open>strncmp\<close> and \<open>memcmp\<close>, by the sign the standard prescribes.\<close>

fun ngx_strncmp :: "ngx_str \<Rightarrow> ngx_str \<Rightarrow> nat \<Rightarrow> int option" where
  "ngx_strncmp s1 s2 0 = Some 0"
| "ngx_strncmp (a # s1) (b # s2) (Suc n) =
     (if a \<noteq> b then Some (sgn (byte_diff a b))
      else if a = 0 then Some 0 else ngx_strncmp s1 s2 n)"
| "ngx_strncmp _ _ (Suc n) = None"

fun ngx_memcmp :: "ngx_str \<Rightarrow> ngx_str \<Rightarrow> nat \<Rightarrow> int option" where
  "ngx_memcmp s1 s2 0 = Some 0"
| "ngx_memcmp (a # s1) (b # s2) (Suc n) =
     (if a \<noteq> b then Some (sgn (byte_diff a b)) else ngx_memcmp s1 s2 n)"
| "ngx_memcmp _ _ (Suc n) = None"

text \<open>The reversed comparisons run from index \<open>n - 1\<close> down to \<open>0\<close>.\<close>

fun ngx_rstrncmp :: "ngx_str \<Rightarrow> ngx_str \<Rightarrow> nat \<Rightarrow> int option" where
  "ngx_rstrncmp s1 s2 0 = Some 0"
| "ngx_rstrncmp s1 s2 (Suc n) =
     (if n < length s1 \<and> n < length s2 then
        if s1 ! n \<noteq> s2 ! n then Some (byte_diff (s1 ! n) (s2 ! n)) else ngx_rstrncmp s1 s2 n
      else None)"

definition toupper_sub :: "u_char \<Rightarrow> u_char" where
  "toupper_sub c =
     (if chr CHR ''a'' \<le> c \<and> c \<le> chr CHR ''z'' then c - (chr CHR ''a'' - chr CHR ''A'') else c)"

fun ngx_rstrncasecmp :: "ngx_str \<Rightarrow> ngx_str \<Rightarrow> nat \<Rightarrow> int option" where
  "ngx_rstrncasecmp s1 s2 0 = Some 0"
| "ngx_rstrncasecmp s1 s2 (Suc n) =
     (if n < length s1 \<and> n < length s2 then
        let c1 = toupper_sub (s1 ! n); c2 = toupper_sub (s2 ! n) in
        if c1 \<noteq> c2 then Some (byte_diff c1 c2) else ngx_rstrncasecmp s1 s2 n
      else None)"

definition ngx_memn2cmp :: "ngx_str \<Rightarrow> ngx_str \<Rightarrow> int option" where
  "ngx_memn2cmp s1 s2 =
     (let n1 = length s1; n2 = length s2;
          (n, z) = (if n1 \<le> n2 then (n1, - 1) else (n2, 1)) in
      case ngx_memcmp s1 s2 n of
        None \<Rightarrow> None
      | Some m \<Rightarrow> if m \<noteq> 0 \<or> n1 = n2 then Some m else Some z)"

fun ngx_dns_strcmp :: "ngx_str \<Rightarrow> ngx_str \<Rightarrow> int option" where
  "ngx_dns_strcmp (a # s1) (b # s2) =
     (let c1 = ngx_tolower a; c2 = ngx_tolower b in
      if c1 = c2 then (if c1 \<noteq> 0 then ngx_dns_strcmp s1 s2 else Some 0)
      else let c1' = (if c1 = chr CHR ''.'' then chr CHR '' '' else c1);
               c2' = (if c2 = chr CHR ''.'' then chr CHR '' '' else c2) in
           Some (byte_diff c1' c2'))"
| "ngx_dns_strcmp _ _ = None"

section \<open>Searching\<close>

text \<open>A search returns the offset of the match from \<open>s1\<close>: \<open>Some None\<close> is the C \<open>NULL\<close>, and
  the outer \<open>None\<close> a read past the end.\<close>

fun ngx_strlchr :: "ngx_str \<Rightarrow> u_char \<Rightarrow> nat option" where
  "ngx_strlchr [] c = None"
| "ngx_strlchr (x # p) c = (if x = c then Some 0 else map_option Suc (ngx_strlchr p c))"

text \<open>\<open>s1\<close> holds the bytes of the haystack that may be read and \<open>len\<close> bounds the search; \<open>c2\<close>
  is the first byte of the needle and \<open>s2\<close> the rest without its terminator.\<close>

fun strnstr_loop :: "ngx_str \<Rightarrow> nat \<Rightarrow> u_char \<Rightarrow> ngx_str \<Rightarrow> nat \<Rightarrow> nat option option" where
  "strnstr_loop s1 0 c2 s2 i = Some None"
| "strnstr_loop [] (Suc len) c2 s2 i = None"
| "strnstr_loop (c1 # s1) (Suc len) c2 s2 i =
     (if c1 = 0 then Some None
      else if c1 \<noteq> c2 then strnstr_loop s1 len c2 s2 (Suc i)
      else if length s2 > len then Some None
      else case ngx_strncmp s1 s2 (length s2) of
             None \<Rightarrow> None
           | Some r \<Rightarrow> if r \<noteq> 0 then strnstr_loop s1 len c2 s2 (Suc i) else Some (Some i))"

definition ngx_strnstr :: "ngx_str \<Rightarrow> u_char \<Rightarrow> ngx_str \<Rightarrow> nat \<Rightarrow> nat option option" where
  "ngx_strnstr s1 c2 s2 len = strnstr_loop s1 len c2 s2 0"

fun strstrn_loop :: "ngx_str \<Rightarrow> u_char \<Rightarrow> ngx_str \<Rightarrow> nat \<Rightarrow> nat \<Rightarrow> nat option option" where
  "strstrn_loop [] c2 s2 n i = None"
| "strstrn_loop (c1 # s1) c2 s2 n i =
     (if c1 = 0 then Some None
      else if c1 \<noteq> c2 then strstrn_loop s1 c2 s2 n (Suc i)
      else case ngx_strncmp s1 s2 n of
             None \<Rightarrow> None
           | Some r \<Rightarrow> if r \<noteq> 0 then strstrn_loop s1 c2 s2 n (Suc i) else Some (Some i))"

definition ngx_strstrn :: "ngx_str \<Rightarrow> u_char \<Rightarrow> ngx_str \<Rightarrow> nat \<Rightarrow> nat option option" where
  "ngx_strstrn s1 c2 s2 n = strstrn_loop s1 c2 s2 n 0"

fun strcasestrn_loop :: "ngx_str \<Rightarrow> u_char \<Rightarrow> ngx_str \<Rightarrow> nat \<Rightarrow> nat \<Rightarrow> nat option option" where
  "strcasestrn_loop [] c2 s2 n i = None"
| "strcasestrn_loop (c1 # s1) c2 s2 n i =
     (if c1 = 0 then Some None
      else if ngx_tolower c1 \<noteq> c2 then strcasestrn_loop s1 c2 s2 n (Suc i)
      else case ngx_strncasecmp s1 s2 n of
             None \<Rightarrow> None
           | Some r \<Rightarrow> if r \<noteq> 0 then strcasestrn_loop s1 c2 s2 n (Suc i) else Some (Some i))"

definition ngx_strcasestrn :: "ngx_str \<Rightarrow> u_char \<Rightarrow> ngx_str \<Rightarrow> nat \<Rightarrow> nat option option" where
  "ngx_strcasestrn s1 c2 s2 n = strcasestrn_loop s1 (ngx_tolower c2) s2 n 0"

text \<open>In \<open>ngx_strlcasestrn\<close> the bytes up to \<open>last\<close> are the list \<open>s1\<close>, and the search stops
  \<open>n\<close> bytes before it.\<close>

fun strlcasestrn_loop :: "ngx_str \<Rightarrow> u_char \<Rightarrow> ngx_str \<Rightarrow> nat \<Rightarrow> nat \<Rightarrow> nat option option" where
  "strlcasestrn_loop [] c2 s2 n i = Some None"
| "strlcasestrn_loop (c1 # s1) c2 s2 n i =
     (if Suc (length s1) \<le> n then Some None
      else if ngx_tolower c1 \<noteq> c2 then strlcasestrn_loop s1 c2 s2 n (Suc i)
      else case ngx_strncasecmp s1 s2 n of
             None \<Rightarrow> None
           | Some r \<Rightarrow> if r \<noteq> 0 then strlcasestrn_loop s1 c2 s2 n (Suc i) else Some (Some i))"

definition ngx_strlcasestrn :: "ngx_str \<Rightarrow> u_char \<Rightarrow> ngx_str \<Rightarrow> nat \<Rightarrow> nat option option" where
  "ngx_strlcasestrn s1 c2 s2 n = strlcasestrn_loop s1 (ngx_tolower c2) s2 n 0"

section \<open>Numbers from text\<close>

text \<open>The loop shared by \<open>ngx_atoi\<close>, \<open>ngx_atosz\<close>, \<open>ngx_atoof\<close> and \<open>ngx_atotm\<close>: the value
  is a signed 64-bit integer kept as its two's complement word.\<close>

fun atoi_loop :: "ngx_int_t \<Rightarrow> ngx_str \<Rightarrow> ngx_int_t option" where
  "atoi_loop value [] = Some value"
| "atoi_loop value (c # line) =
     (if c < chr CHR ''0'' \<or> c > chr CHR ''9'' then None
      else atoi_loop (value * 10 + ucast (c - chr CHR ''0'')) line)"

definition nonneg_or_error :: "ngx_int_t option \<Rightarrow> ngx_int_t" where
  "nonneg_or_error v =
     (case v of None \<Rightarrow> NGX_ERROR | Some value \<Rightarrow> if value <s 0 then NGX_ERROR else value)"

definition ngx_atoi :: "ngx_str \<Rightarrow> ngx_int_t" where
  "ngx_atoi line = (if length line = 0 then NGX_ERROR else nonneg_or_error (atoi_loop 0 line))"




text \<open>\<open>ngx_atofp\<close>: the loop returns the value and the number of fraction digits still owed.\<close>

fun atofp_loop :: "ngx_int_t \<Rightarrow> nat \<Rightarrow> bool \<Rightarrow> ngx_str \<Rightarrow> (ngx_int_t \<times> nat) option" where
  "atofp_loop value point dot [] = Some (value, point)"
| "atofp_loop value point dot (c # line) =
     (if point = 0 then None
      else if c = chr CHR ''.'' then
        (if dot then None else atofp_loop value point True line)
      else if c < chr CHR ''0'' \<or> c > chr CHR ''9'' then None
      else atofp_loop (value * 10 + ucast (c - chr CHR ''0''))
             (if dot then point - 1 else point) dot line)"

fun times10 :: "nat \<Rightarrow> ngx_int_t \<Rightarrow> ngx_int_t" where
  "times10 0 value = value"
| "times10 (Suc point) value = times10 point (value * 10)"

definition ngx_atofp :: "ngx_str \<Rightarrow> nat \<Rightarrow> ngx_int_t" where
  "ngx_atofp line point =
     (if length line = 0 then NGX_ERROR
      else nonneg_or_error
             (map_option (\<lambda>(value, point'). times10 point' value)
               (atofp_loop 0 point False line)))"

text \<open>The value of a hexadecimal digit, as \<open>ngx_hextoi\<close>, the URI decoders and the chunked
  parser compute it.\<close>

definition hex_digit :: "u_char \<Rightarrow> u_char option" where
  "hex_digit c =
     (if chr CHR ''0'' \<le> c \<and> c \<le> chr CHR ''9'' then Some (c - chr CHR ''0'')
      else let c' = c OR 0x20 in
        if chr CHR ''a'' \<le> c' \<and> c' \<le> chr CHR ''f'' then Some (c' - chr CHR ''a'' + 10)
        else None)"

fun hextoi_loop :: "ngx_int_t \<Rightarrow> ngx_str \<Rightarrow> ngx_int_t option" where
  "hextoi_loop value [] = Some value"
| "hextoi_loop value (c # line) =
     (case hex_digit c of
        None \<Rightarrow> None
      | Some d \<Rightarrow> hextoi_loop (value * 16 + ucast d) line)"

definition ngx_hextoi :: "ngx_str \<Rightarrow> ngx_int_t" where
  "ngx_hextoi line = (if length line = 0 then NGX_ERROR else nonneg_or_error (hextoi_loop 0 line))"

section \<open>Text from numbers\<close>

definition hex :: ngx_str where "hex = str ''0123456789abcdef''"
definition HEX :: ngx_str where "HEX = str ''0123456789ABCDEF''"

text \<open>The digits are written right to left into \<open>temp\<close>; \<open>acc\<close> holds those already written.
  Unsigned division and remainder on 32 and on 64 bits are those of the value.\<close>

function sprintf_dec :: "nat \<Rightarrow> ngx_str \<Rightarrow> ngx_str" where
  "sprintf_dec ui acc =
     (let acc' = word_of_nat (ui mod 10 + 48) # acc in
      if ui div 10 \<noteq> 0 then sprintf_dec (ui div 10) acc' else acc')"
  by pat_completeness auto
termination
  by (relation "measure fst") auto

declare sprintf_dec.simps [simp del]

function sprintf_hex :: "ngx_str \<Rightarrow> uint64 \<Rightarrow> ngx_str \<Rightarrow> ngx_str" where
  "sprintf_hex tab ui64 acc =
     (let acc' = tab ! unat (ui64 AND 0xf) # acc in
      if drop_bit 4 ui64 \<noteq> 0 then sprintf_hex tab (drop_bit 4 ui64) acc' else acc')"
  by pat_completeness auto
termination
proof (relation "measure (\<lambda>(tab, ui64, acc). unat ui64)", goal_cases)
  case 1
  show ?case by simp
next
  case (2 tab ui64 acc x)
  then have "ui64 \<noteq> 0" by auto
  then have "0 < unat ui64" by (simp add: unat_gt_0)
  moreover have "unat (drop_bit 4 ui64) = unat ui64 div 16"
    by (simp only: unat_drop_bit_eq) (simp add: drop_bit_eq_div)
  ultimately show ?case by simp
qed

declare sprintf_hex.simps [simp del]

fun pad_loop :: "nat \<Rightarrow> nat \<Rightarrow> nat \<Rightarrow> u_char \<Rightarrow> ngx_str" where
  "pad_loop len width 0 zero = []"
| "pad_loop len width (Suc room) zero =
     (if len < width then zero # pad_loop (Suc len) width room zero else [])"

text \<open>\<open>room\<close> is \<open>last - buf\<close>; the result is what is written at \<open>buf\<close>.\<close>

definition ngx_sprintf_num :: "nat \<Rightarrow> uint64 \<Rightarrow> u_char \<Rightarrow> nat \<Rightarrow> nat \<Rightarrow> ngx_str" where
  "ngx_sprintf_num room ui64 zero hexadecimal width =
     (let digits =
        (if hexadecimal = 0 then
           (if ui64 \<le> 0xffffffff then sprintf_dec (unat (ucast ui64 :: uint32)) []
            else sprintf_dec (unat ui64) [])
         else if hexadecimal = 1 then sprintf_hex hex ui64 []
         else sprintf_hex HEX ui64 []);
        padding = pad_loop (length digits) width room zero;
        room' = room - length padding
      in padding @ take room' digits)"

fun ngx_hex_dump :: "ngx_str \<Rightarrow> ngx_str" where
  "ngx_hex_dump [] = []"
| "ngx_hex_dump (c # src) =
     hex ! unat (drop_bit 4 c) # hex ! unat (c AND 0xf) # ngx_hex_dump src"

section \<open>Sorting\<close>

text \<open>\<open>ngx_sort\<close> is an insertion sort in place. \<open>p\<close> is the saved element, \<open>p2\<close> the index of
  the hole; \<open>alloc_ok\<close> says whether the buffer for the saved element could be allocated.\<close>

function sort_shift :: "('a \<Rightarrow> 'a \<Rightarrow> int) \<Rightarrow> 'a list \<Rightarrow> 'a \<Rightarrow> nat \<Rightarrow> 'a list" where
  "sort_shift cmp base p p2 =
     (if 0 < p2 \<and> cmp (base ! (p2 - 1)) p > 0
      then sort_shift cmp (base[p2 := base ! (p2 - 1)]) p (p2 - 1)
      else base[p2 := p])"
  by pat_completeness auto
termination
  by (relation "measure (\<lambda>(cmp, base, p, p2). p2)") auto

declare sort_shift.simps [simp del]

function sort_loop :: "('a \<Rightarrow> 'a \<Rightarrow> int) \<Rightarrow> nat \<Rightarrow> 'a list \<Rightarrow> nat \<Rightarrow> 'a list" where
  "sort_loop cmp n base p1 =
     (if p1 < n then sort_loop cmp n (sort_shift cmp base (base ! p1) p1) (p1 + 1) else base)"
  by pat_completeness auto
termination
  by (relation "measure (\<lambda>(cmp, n, base, p1). n - p1)") auto

declare sort_loop.simps [simp del]

definition ngx_sort :: "bool \<Rightarrow> ('a \<Rightarrow> 'a \<Rightarrow> int) \<Rightarrow> 'a list \<Rightarrow> 'a list" where
  "ngx_sort alloc_ok cmp base = (if \<not> alloc_ok then base else sort_loop cmp (length base) base 1)"

section \<open>Reference definitions\<close>

text \<open>The value of a digit string.\<close>

definition dec_val :: "ngx_str \<Rightarrow> nat" where
  "dec_val s = foldl (\<lambda>v c. v * 10 + unat (c - chr CHR ''0'')) 0 s"

text \<open>The decimal digits of a number, most significant first: what the right-to-left loop
  produces.\<close>

fun dec_digits :: "nat \<Rightarrow> ngx_str" where
  "dec_digits n =
     (if n < 10 then [word_of_nat (n + 48)]
      else dec_digits (n div 10) @ [word_of_nat (n mod 10 + 48)])"

declare dec_digits.simps [simp del]

text \<open>An occurrence of the needle \<open>c2 # take n s2\<close> at offset \<open>i\<close>, up to case.\<close>

definition caseless_at :: "ngx_str \<Rightarrow> u_char \<Rightarrow> ngx_str \<Rightarrow> nat \<Rightarrow> nat \<Rightarrow> bool" where
  "caseless_at s1 c2 s2 n i \<longleftrightarrow> i + n < length s1 \<and> ngx_tolower (s1 ! i) = ngx_tolower c2 \<and>
     map ngx_tolower (take n (drop (Suc i) s1)) = map ngx_tolower (take n s2)"

section \<open>Comparison and search: lemmas\<close>

lemma ngx_tolower_eq_0 [simp]: "ngx_tolower c = 0 \<longleftrightarrow> c = 0"
  by (rule byte_ballI [where c = c]) (simp add: ngx_tolower_def)

lemma ngx_tolower_idem [simp]: "ngx_tolower (ngx_tolower c) = ngx_tolower c"
  by (rule byte_ballI [where c = c]) (simp add: ngx_tolower_def)

lemma byte_diff_eq_0 [simp]: "byte_diff a b = 0 \<longleftrightarrow> a = b"
  by (simp add: byte_diff_def word_uint_eq_iff)

lemma ngx_strlow_eq_map: "ngx_strlow s = map ngx_tolower s"
  by (induction s) simp_all

lemma strncasecmp_zero:
  assumes "n \<le> length s1" "n \<le> length s2" "0 \<notin> set (take n s2)"
  shows "\<exists>r. ngx_strncasecmp s1 s2 n = Some r \<and>
    (r = 0 \<longleftrightarrow> map ngx_tolower (take n s1) = map ngx_tolower (take n s2))"
  using assms
proof (induction s1 s2 n rule: ngx_strncasecmp.induct)
  case (2 a s1 b s2 n)
  then show ?case by (cases "ngx_tolower a = ngx_tolower b") (auto simp: Let_def)
qed simp_all

lemma strlcasestrn_loop_find:
  assumes "n \<le> length s2" "0 \<notin> set (take n s2)" "k \<le> length s"
  shows "strlcasestrn_loop (drop k s) (ngx_tolower c2) s2 n k =
    Some (find (caseless_at s c2 s2 n) [k..<length s])"
  using assms(3)
proof (induction "length s - k" arbitrary: k)
  case 0
  then show ?case by simp
next
  case (Suc d)
  then have k: "k < length s" by simp
  have IH: "strlcasestrn_loop (drop (Suc k) s) (ngx_tolower c2) s2 n (Suc k) =
      Some (find (caseless_at s c2 s2 n) [Suc k..<length s])"
    using Suc by simp
  have split: "drop k s = s ! k # drop (Suc k) s" "[k..<length s] = k # [Suc k..<length s]"
    using k by (simp_all add: Cons_nth_drop_Suc upt_conv_Cons)
  show ?case
  proof (cases "k + n < length s")
    case False
    then have "find (caseless_at s c2 s2 n) [k..<length s] = None"
      by (auto simp: find_None_iff caseless_at_def)
    moreover have "Suc (length s - Suc k) \<le> n"
      using False k by linarith
    ultimately show ?thesis using k by (simp add: split(1))
  next
    case True
    then have "n \<le> length (drop (Suc k) s)"
      by simp
    then obtain r where r: "ngx_strncasecmp (drop (Suc k) s) s2 n = Some r"
        "r = 0 \<longleftrightarrow> map ngx_tolower (take n (drop (Suc k) s)) = map ngx_tolower (take n s2)"
      using strncasecmp_zero [of n "drop (Suc k) s" s2] assms(1,2) by auto
    moreover from True k have "\<not> Suc (length s - Suc k) \<le> n"
      by linarith
    ultimately show ?thesis
      using IH r True by (simp add: split caseless_at_def)
  qed
qed

text \<open>C34: \<open>ngx_strlcasestrn\<close> never reads past either string and returns the offset of the first
  occurrence of the needle up to case, or \<open>NULL\<close> when there is none.\<close>

theorem ngx_strlcasestrn_correct:
  assumes "n \<le> length s2" "0 \<notin> set (take n s2)"
  shows "ngx_strlcasestrn s1 c2 s2 n = Some (find (caseless_at s1 c2 s2 n) [0..<length s1])"
  using strlcasestrn_loop_find [OF assms, of 0 s1 c2] by (simp add: ngx_strlcasestrn_def)

theorem ngx_strlcasestrn_correct_witness:
  "ngx_strlcasestrn (str ''Transfer: Chunked'') (chr CHR ''c'') (str ''hunked'') 6 =
     Some (find (caseless_at (str ''Transfer: Chunked'') (chr CHR ''c'') (str ''hunked'') 6)
       [0..<length (str ''Transfer: Chunked'')])"
  by (rule ngx_strlcasestrn_correct) simp_all

lemma memcmp_total: "n \<le> length s1 \<Longrightarrow> n \<le> length s2 \<Longrightarrow> \<exists>r. ngx_memcmp s1 s2 n = Some r"
  by (induction s1 s2 n rule: ngx_memcmp.induct) auto

text \<open>C35: \<open>ngx_memn2cmp\<close> never reads past its strings; its sign is the lexicographic order on
  unsigned bytes and it is zero exactly on equal strings.\<close>

theorem ngx_memn2cmp_lex:
  "\<exists>r. ngx_memn2cmp s1 s2 = Some r \<and>
     (r < 0 \<longleftrightarrow> (s1, s2) \<in> lexord {(a, b). a < b}) \<and> (r = 0 \<longleftrightarrow> s1 = s2)"
proof (induction s1 arbitrary: s2)
  case Nil
  then show ?case by (cases s2) (simp_all add: ngx_memn2cmp_def Let_def)
next
  case (Cons a s1)
  show ?case
  proof (cases s2)
    case (Cons b t)
    have sgn: "(sgn (byte_diff a b) < 0) \<longleftrightarrow> a < b"
      by (simp add: byte_diff_def word_less_def sgn_if)
    show ?thesis
    proof (cases "a = b")
      case True
      then have "ngx_memn2cmp (a # s1) s2 = ngx_memn2cmp s1 t"
        using Cons by (simp add: ngx_memn2cmp_def Let_def split: option.split)
      with True Cons Cons.IH [of t] show ?thesis by simp
    next
      case False
      then have "ngx_memn2cmp (a # s1) s2 = Some (sgn (byte_diff a b))"
        using Cons by (simp add: ngx_memn2cmp_def Let_def sgn_0_0)
      with False Cons sgn show ?thesis by (simp add: sgn_0_0)
    qed
  qed (simp add: ngx_memn2cmp_def Let_def)
qed

section \<open>Numbers: lemmas\<close>

lemma atoi_loop_digits:
  "list_all is_digit s \<Longrightarrow> atoi_loop (word_of_nat n) s =
     Some (word_of_nat (foldl (\<lambda>v c. v * 10 + unat (c - chr CHR ''0'')) n s))"
proof (induction s arbitrary: n)
  case (Cons c s)
  let ?n = "n * 10 + unat (c - chr CHR ''0'')"
  have "atoi_loop (word_of_nat n) (c # s) =
      atoi_loop (word_of_nat n * 10 + ucast (c - chr CHR ''0'')) s"
    using Cons.prems by (auto simp: is_digit_def)
  also have "word_of_nat n * 10 + ucast (c - chr CHR ''0'') = (word_of_nat ?n :: 64 word)"
    by (simp add: unsigned_of_nat)
  also have "atoi_loop \<dots> s = Some (word_of_nat
      (foldl (\<lambda>v c. v * 10 + unat (c - chr CHR ''0'')) ?n s))"
    using Cons.prems by (intro Cons.IH) simp
  finally show ?case by simp
qed simp

lemma atoi_loop_not_digits: "\<not> list_all is_digit s \<Longrightarrow> atoi_loop v s = None"
  by (induction s arbitrary: v) (auto simp: is_digit_def not_le)

lemma nonneg_or_error_small:
  "n < 2 ^ 63 \<Longrightarrow> nonneg_or_error (Some (word_of_nat n)) = word_of_nat n"
  using unat_word_of_nat_64 [of n] by (simp add: nonneg_or_error_def sless_zero_64)

lemma nonneg_or_error_None [simp]: "nonneg_or_error None = NGX_ERROR"
  by (simp add: nonneg_or_error_def)

lemma nonneg_or_error_atoi_loop:
  assumes "dec_val line < 2 ^ 63"
  shows "nonneg_or_error (atoi_loop 0 line) =
    (if list_all is_digit line then word_of_nat (dec_val line) else NGX_ERROR)"
  using assms atoi_loop_digits [of line 0] atoi_loop_not_digits [of line 0]
  by (auto simp: dec_val_def nonneg_or_error_small)



text \<open>The sign test after the loop does not catch every overflow: a 20-digit number beyond
  the range is accepted with a wrapped value.\<close>

lemma ngx_atoi_overflow_accepted: "ngx_atoi (str ''18446744073709551617'') = 1"
  by (simp add: ngx_atoi_def nonneg_or_error_def word_sless_alt)

subsection \<open>Printing and reading back\<close>

lemma sprintf_dec_eq: "sprintf_dec n acc = dec_digits n @ acc"
proof (induction n acc rule: sprintf_dec.induct)
  case (1 n acc)
  then show ?case
    by (cases "n < 10")
      (simp_all add: sprintf_dec.simps [of n] dec_digits.simps [of n] Let_def div_eq_0_iff)
qed

lemma digit_byte: "d < 10 \<Longrightarrow>
    is_digit (word_of_nat (d + 48)) \<and> unat (word_of_nat (d + 48) - chr CHR ''0'' :: u_char) = d"
proof -
  assume "d < 10"
  then have "unat (word_of_nat (d + 48) :: u_char) = d + 48"
    by (intro unat_of_nat_byte) simp
  then show ?thesis using \<open>d < 10\<close>
    by (simp add: is_digit_def word_le_nat_alt unat_sub_if' del: of_nat_add)
qed

lemma dec_val_snoc: "dec_val (s @ [c]) = dec_val s * 10 + unat (c - chr CHR ''0'')"
  by (simp add: dec_val_def)

lemma dec_digits_digits: "list_all is_digit (dec_digits n)"
proof (induction n rule: dec_digits.induct)
  case (1 n)
  then show ?case
    using digit_byte [of n] digit_byte [of "n mod 10"] by (simp add: dec_digits.simps [of n])
qed

lemma dec_val_dec_digits: "dec_val (dec_digits n) = n"
proof (induction n rule: dec_digits.induct)
  case (1 n)
  show ?case
  proof (cases "n < 10")
    case True
    then show ?thesis
      using digit_byte [of n] by (simp add: dec_digits.simps [of n] dec_val_def)
  next
    case False
    with 1 have "dec_val (dec_digits (n div 10)) = n div 10" by blast
    moreover have "unat (word_of_nat (n mod 10 + 48) - chr CHR ''0'' :: u_char) = n mod 10"
      using digit_byte [of "n mod 10"] by simp
    ultimately show ?thesis
      using False by (simp add: dec_digits.simps [of n] dec_val_snoc del: of_nat_add)
  qed
qed

lemma dec_digits_not_Nil [simp]: "dec_digits n \<noteq> []"
  by (subst dec_digits.simps) simp

lemma dec_digits_length: "0 < k \<Longrightarrow> n < 10 ^ k \<Longrightarrow> length (dec_digits n) \<le> k"
proof (induction k arbitrary: n)
  case (Suc k)
  show ?case
  proof (cases "n < 10")
    case False
    then have "n div 10 < 10 ^ k" "0 < k"
      using Suc.prems by (auto intro: gr0I)
    then show ?thesis
      using Suc.IH [of "n div 10"] False by (simp add: dec_digits.simps [of n])
  qed (simp add: dec_digits.simps [of n])
qed simp

lemma pad_loop_0 [simp]: "pad_loop len 0 room zero = []"
  by (cases room) simp_all

lemma pad_loop_eq: "pad_loop len width room zero = replicate (min (width - len) room) zero"
  by (induction len width room zero rule: pad_loop.induct) 
    (auto simp: min_def Suc_diff_Suc simp flip: replicate_Suc)

lemma sprintf_num_digits:
  "ngx_sprintf_num room v zero 0 width =
     (let pad = min (width - length (dec_digits (unat v))) room
      in replicate pad zero @ take (room - pad) (dec_digits (unat v)))"
proof -
  have "unat (ucast v :: uint32) = unat v" if "v \<le> 0xffffffff"
    using that by (intro unat_ucast_32) (simp add: word_le_nat_alt)
  then show ?thesis
    by (simp add: ngx_sprintf_num_def sprintf_dec_eq pad_loop_eq Let_def)
qed

text \<open>C32: a number printed in decimal by \<open>ngx_sprintf_num\<close> with room for 20 digits is read back
  by \<open>ngx_atoi\<close>.\<close>

theorem ngx_atoi_sprintf_num:
  assumes "unat v < 2 ^ 63" "20 \<le> room"
  shows "ngx_atoi (ngx_sprintf_num room v zero 0 0) = v"
proof -
  have "length (dec_digits (unat v)) \<le> 20"
    using assms(1) by (intro dec_digits_length) simp_all
  then have "ngx_sprintf_num room v zero 0 0 = dec_digits (unat v)"
    using assms(2) by (simp add: sprintf_num_digits)
  then show ?thesis
    using assms(1) nonneg_or_error_atoi_loop [of "dec_digits (unat v)"]
    by (simp add: ngx_atoi_def dec_val_dec_digits dec_digits_digits)
qed

theorem ngx_atoi_sprintf_num_witness: "ngx_atoi (ngx_sprintf_num 20 8080 0x20 0 0) = 8080"
  by (rule ngx_atoi_sprintf_num) simp_all

section \<open>Sorting: lemmas\<close>

text \<open>One insertion step on a prefix: the elements that compare greater move one place up.\<close>

lemma sort_shift_split:
  assumes "\<forall>y\<in>set ys. cmp y p > 0" "xs = [] \<or> \<not> cmp (last xs) p > 0"
  shows "sort_shift cmp (xs @ ys @ z # zs) p (length xs + length ys) = xs @ p # ys @ zs"
  using assms(1)
proof (induction ys arbitrary: z zs rule: rev_induct)
  case Nil
  then show ?case
    using assms(2) by (subst sort_shift.simps) (auto simp: nth_append last_conv_nth)
next
  case (snoc y ys)
  have "sort_shift cmp (xs @ (ys @ [y]) @ z # zs) p (length xs + length (ys @ [y])) =
      sort_shift cmp (xs @ ys @ y # y # zs) p (length xs + length ys)"
    using snoc.prems by (subst sort_shift.simps) (simp add: nth_append list_update_append)
  with snoc show ?case by simp
qed

lemma sorted_partition:
  fixes key :: "'a \<Rightarrow> 'b::linorder"
  assumes "sorted (map key ys)"
  obtains l r where "ys = l @ r" "\<forall>y\<in>set l. key y \<le> key x" "\<forall>y\<in>set r. key x < key y"
proof
  show "ys = takeWhile (\<lambda>y. key y \<le> key x) ys @ dropWhile (\<lambda>y. key y \<le> key x) ys"
    by simp
  show "\<forall>y\<in>set (takeWhile (\<lambda>y. key y \<le> key x) ys). key y \<le> key x"
    by (auto dest: set_takeWhileD)
  show "\<forall>y\<in>set (dropWhile (\<lambda>y. key y \<le> key x) ys). key x < key y"
    using assms
  proof (induction ys)
    case (Cons a ys)
    then show ?case by (cases "key a \<le> key x") (auto simp: not_le intro: order.strict_trans2)
  qed simp
qed

lemma sort_key_snoc:
  fixes key :: "'a \<Rightarrow> 'b::linorder"
  assumes "sort_key key xs = l @ r" "\<forall>y\<in>set l. key y \<le> key x" "\<forall>y\<in>set r. key x < key y"
  shows "sort_key key (xs @ [x]) = l @ x # r"
proof (rule properties_for_sort_key)
  have "mset (sort_key key xs) = mset (l @ r)"
    by (simp only: assms(1))
  then show "mset (l @ x # r) = mset (xs @ [x])"
    by simp
next
  fix k assume "k \<in> set (l @ x # r)"
  have "filter (\<lambda>y. key k = key y) xs = filter (\<lambda>y. key k = key y) (l @ r)"
    using sort_key_stable [of key "key k" xs] unfolding assms(1) by (simp add: eq_commute)
  moreover have "filter (\<lambda>y. key x = key y) r = []"
    using assms(3) by (auto simp: filter_empty_conv)
  ultimately show "filter (\<lambda>y. key k = key y) (l @ x # r) =
      filter (\<lambda>y. key k = key y) (xs @ [x])"
    by auto
next
  have "sorted (map key (l @ r))"
    unfolding assms(1) [symmetric] by (rule sorted_sort_key)
  then show "sorted (map key (l @ x # r))"
    using assms(2,3) by (auto simp: sorted_append less_imp_le)
qed

lemma sort_loop_sort_key:
  fixes key :: "'a \<Rightarrow> 'b::linorder"
  assumes cmp: "\<And>a b. cmp a b > 0 \<longleftrightarrow> key b < key a"
  shows "sort_loop cmp (length base) (sort_key key (take i base) @ drop i base) i =
    sort_key key base"
proof (induction "length base - i" arbitrary: i)
  case 0
  then show ?case by (subst sort_loop.simps) simp
next
  case (Suc d)
  then have i: "i < length base" by simp
  define x where "x = base ! i"
  obtain l r where lr: "sort_key key (take i base) = l @ r"
      "\<forall>y\<in>set l. key y \<le> key x" "\<forall>y\<in>set r. key x < key y"
    using sorted_partition [OF sorted_sort_key [of key "take i base"]] by blast
  have last: "l = [] \<or> key (last l) \<le> key x"
    using lr(2) last_in_set by blast
  have len: "length l + length r = i"
    using arg_cong [OF lr(1), of length] i by simp
  have x: "drop i base = x # drop (Suc i) base"
    using i by (simp add: x_def Cons_nth_drop_Suc)
  then have nth: "(l @ r @ drop i base) ! i = x"
    using nth_append_length [of "l @ r" x] len by simp
  have "sort_shift cmp (l @ r @ x # drop (Suc i) base) x (length l + length r) =
      l @ x # r @ drop (Suc i) base"
    using lr(2,3) last by (intro sort_shift_split) (auto simp: cmp not_less)
  then have "sort_shift cmp (sort_key key (take i base) @ drop i base) x i =
      sort_key key (take (Suc i) base) @ drop (Suc i) base"
    using sort_key_snoc [OF lr] i len x by (simp add: lr(1) take_Suc_conv_app_nth x_def)
  then show ?case
    using i nth Suc by (subst sort_loop.simps) (simp add: lr(1))
qed

text \<open>C33: when the comparison orders by a key, \<open>ngx_sort\<close> is the stable sort by that key.\<close>

theorem ngx_sort_stable:
  fixes key :: "'a \<Rightarrow> 'b::linorder"
  assumes "\<And>a b. cmp a b > 0 \<longleftrightarrow> key b < key a"
  shows "ngx_sort True cmp base = sort_key key base"
proof (cases base)
  case (Cons x xs)
  then show ?thesis
    using sort_loop_sort_key [where base = base and i = 1, OF assms] by (simp add: ngx_sort_def)
qed (simp add: ngx_sort_def sort_loop.simps)

theorem ngx_sort_stable_witness:
  "ngx_sort True (\<lambda>a b. int (fst a) - int (fst b)) [(2, ''a''), (1, ''b''), (2, ''c'')] =
     sort_key fst [(2 :: nat, ''a''), (1, ''b''), (2, ''c'')]"
  by (rule ngx_sort_stable) auto

end
