(* ===== verification/Ngx_Encode.thy ===== *)
theory Ngx_Encode
  imports Ngx_String
begin

text \<open>
  The encoders and decoders of \<^verbatim>\<open>src/nginx-1.4.4/src/core/ngx_string.c\<close>: base64, UTF-8, URI
  escaping and unescaping, HTML escaping. What a routine writes through \<open>dst\<close> is its result
  list; the tables are those of the source.
\<close>

section \<open>Base64\<close>

definition basis64 :: ngx_str where
  "basis64 = str ''ABCDEFGHIJKLMNOPQRSTUVWXYZabcdefghijklmnopqrstuvwxyz0123456789+/''"

fun ngx_encode_base64 :: "ngx_str \<Rightarrow> ngx_str" where
  "ngx_encode_base64 (s0 # s1 # s2 # s) =
     basis64 ! unat (drop_bit 2 s0 AND 0x3f)
     # basis64 ! unat (push_bit 4 (s0 AND 3) OR drop_bit 4 s1)
     # basis64 ! unat (push_bit 2 (s1 AND 0x0f) OR drop_bit 6 s2)
     # basis64 ! unat (s2 AND 0x3f)
     # ngx_encode_base64 s"
| "ngx_encode_base64 [s0, s1] =
     [basis64 ! unat (drop_bit 2 s0 AND 0x3f),
      basis64 ! unat (push_bit 4 (s0 AND 3) OR drop_bit 4 s1),
      basis64 ! unat (push_bit 2 (s1 AND 0x0f)),
      chr CHR ''='']"
| "ngx_encode_base64 [s0] =
     [basis64 ! unat (drop_bit 2 s0 AND 0x3f),
      basis64 ! unat (push_bit 4 (s0 AND 3)),
      chr CHR ''='',
      chr CHR ''='']"
| "ngx_encode_base64 [] = []"

definition decode_basis64 :: ngx_str where
  "decode_basis64 = [
     77, 77, 77, 77, 77, 77, 77, 77, 77, 77, 77, 77, 77, 77, 77, 77,
     77, 77, 77, 77, 77, 77, 77, 77, 77, 77, 77, 77, 77, 77, 77, 77,
     77, 77, 77, 77, 77, 77, 77, 77, 77, 77, 77, 62, 77, 77, 77, 63,
     52, 53, 54, 55, 56, 57, 58, 59, 60, 61, 77, 77, 77, 77, 77, 77,
     77, 0, 1, 2, 3, 4, 5, 6, 7, 8, 9, 10, 11, 12, 13, 14,
     15, 16, 17, 18, 19, 20, 21, 22, 23, 24, 25, 77, 77, 77, 77, 77,
     77, 26, 27, 28, 29, 30, 31, 32, 33, 34, 35, 36, 37, 38, 39, 40,
     41, 42, 43, 44, 45, 46, 47, 48, 49, 50, 51, 77, 77, 77, 77, 77,
     77, 77, 77, 77, 77, 77, 77, 77, 77, 77, 77, 77, 77, 77, 77, 77,
     77, 77, 77, 77, 77, 77, 77, 77, 77, 77, 77, 77, 77, 77, 77, 77,
     77, 77, 77, 77, 77, 77, 77, 77, 77, 77, 77, 77, 77, 77, 77, 77,
     77, 77, 77, 77, 77, 77, 77, 77, 77, 77, 77, 77, 77, 77, 77, 77,
     77, 77, 77, 77, 77, 77, 77, 77, 77, 77, 77, 77, 77, 77, 77, 77,
     77, 77, 77, 77, 77, 77, 77, 77, 77, 77, 77, 77, 77, 77, 77, 77,
     77, 77, 77, 77, 77, 77, 77, 77, 77, 77, 77, 77, 77, 77, 77, 77,
     77, 77, 77, 77, 77, 77, 77, 77, 77, 77, 77, 77, 77, 77, 77, 77]"

definition decode_basis64url :: ngx_str where
  "decode_basis64url = [
     77, 77, 77, 77, 77, 77, 77, 77, 77, 77, 77, 77, 77, 77, 77, 77,
     77, 77, 77, 77, 77, 77, 77, 77, 77, 77, 77, 77, 77, 77, 77, 77,
     77, 77, 77, 77, 77, 77, 77, 77, 77, 77, 77, 77, 77, 62, 77, 77,
     52, 53, 54, 55, 56, 57, 58, 59, 60, 61, 77, 77, 77, 77, 77, 77,
     77, 0, 1, 2, 3, 4, 5, 6, 7, 8, 9, 10, 11, 12, 13, 14,
     15, 16, 17, 18, 19, 20, 21, 22, 23, 24, 25, 77, 77, 77, 77, 63,
     77, 26, 27, 28, 29, 30, 31, 32, 33, 34, 35, 36, 37, 38, 39, 40,
     41, 42, 43, 44, 45, 46, 47, 48, 49, 50, 51, 77, 77, 77, 77, 77,
     77, 77, 77, 77, 77, 77, 77, 77, 77, 77, 77, 77, 77, 77, 77, 77,
     77, 77, 77, 77, 77, 77, 77, 77, 77, 77, 77, 77, 77, 77, 77, 77,
     77, 77, 77, 77, 77, 77, 77, 77, 77, 77, 77, 77, 77, 77, 77, 77,
     77, 77, 77, 77, 77, 77, 77, 77, 77, 77, 77, 77, 77, 77, 77, 77,
     77, 77, 77, 77, 77, 77, 77, 77, 77, 77, 77, 77, 77, 77, 77, 77,
     77, 77, 77, 77, 77, 77, 77, 77, 77, 77, 77, 77, 77, 77, 77, 77,
     77, 77, 77, 77, 77, 77, 77, 77, 77, 77, 77, 77, 77, 77, 77, 77,
     77, 77, 77, 77, 77, 77, 77, 77, 77, 77, 77, 77, 77, 77, 77, 77]"

text \<open>The first loop of \<open>ngx_decode_base64_internal\<close>: the length up to the first \<open>=\<close>, or an
  error at a byte outside the alphabet.\<close>

fun base64_scan :: "ngx_str \<Rightarrow> ngx_str \<Rightarrow> nat option" where
  "base64_scan basis [] = Some 0"
| "base64_scan basis (c # src) =
     (if c = chr CHR ''='' then Some 0
      else if basis ! unat c = 77 then None
      else map_option Suc (base64_scan basis src))"

fun base64_groups :: "ngx_str \<Rightarrow> ngx_str \<Rightarrow> ngx_str" where
  "base64_groups basis (s0 # s1 # s2 # s3 # s) =
     (push_bit 2 (basis ! unat s0) OR drop_bit 4 (basis ! unat s1))
     # (push_bit 4 (basis ! unat s1) OR drop_bit 2 (basis ! unat s2))
     # (push_bit 6 (basis ! unat s2) OR basis ! unat s3)
     # base64_groups basis s"
| "base64_groups basis [s0, s1, s2] =
     [push_bit 2 (basis ! unat s0) OR drop_bit 4 (basis ! unat s1),
      push_bit 4 (basis ! unat s1) OR drop_bit 2 (basis ! unat s2)]"
| "base64_groups basis [s0, s1] = [push_bit 2 (basis ! unat s0) OR drop_bit 4 (basis ! unat s1)]"
| "base64_groups basis [s0] = []"
| "base64_groups basis [] = []"

text \<open>\<open>None\<close> is \<open>NGX_ERROR\<close>; \<open>Some dst\<close> is \<open>NGX_OK\<close> with the decoded bytes.\<close>

definition ngx_decode_base64_internal :: "ngx_str \<Rightarrow> ngx_str \<Rightarrow> ngx_str option" where
  "ngx_decode_base64_internal src basis =
     (case base64_scan basis src of
        None \<Rightarrow> None
      | Some len \<Rightarrow> if len mod 4 = 1 then None else Some (base64_groups basis (take len src)))"

definition ngx_decode_base64 :: "ngx_str \<Rightarrow> ngx_str option" where
  "ngx_decode_base64 src = ngx_decode_base64_internal src decode_basis64"

definition ngx_decode_base64url :: "ngx_str \<Rightarrow> ngx_str option" where
  "ngx_decode_base64url src = ngx_decode_base64_internal src decode_basis64url"

definition ngx_base64_encoded_length :: "nat \<Rightarrow> nat" where
  "ngx_base64_encoded_length len = ((len + 2) div 3) * 4"

definition ngx_base64_decoded_length :: "nat \<Rightarrow> nat" where
  "ngx_base64_decoded_length len = ((len + 3) div 4) * 3"

section \<open>UTF-8\<close>

text \<open>The continuation loop: \<open>len\<close> bytes are read from \<open>p\<close>. The result is the decoded value and
  how far \<open>p\<close> moved; \<open>None\<close> is a read past the list.\<close>

fun utf8_cont :: "uint32 \<Rightarrow> uint32 \<Rightarrow> nat \<Rightarrow> ngx_str \<Rightarrow> nat \<Rightarrow> (uint32 \<times> nat) option" where
  "utf8_cont u valid 0 p k = Some (if u > valid then u else 0xffffffff, k)"
| "utf8_cont u valid (Suc len) [] k = None"
| "utf8_cont u valid (Suc len) (i # p) k =
     (if i < 0x80 then Some (0xffffffff, Suc k)
      else utf8_cont (push_bit 6 u OR (ucast i AND 0x3f)) valid len p (Suc k))"

text \<open>\<open>n\<close> is the claimed number of bytes at \<open>p\<close>; the test \<open>n - 1 < len\<close> is on \<open>size_t\<close>.\<close>

fun ngx_utf8_decode :: "ngx_str \<Rightarrow> uint64 \<Rightarrow> (uint32 \<times> nat) option" where
  "ngx_utf8_decode [] n = None"
| "ngx_utf8_decode (c # p) n =
     (let u = (ucast c :: uint32) in
      if u \<ge> 0xf0 then
        (if n - 1 < 3 then Some (0xfffffffe, 0) else utf8_cont (u AND 0x07) 0xffff 3 p 1)
      else if u \<ge> 0xe0 then
        (if n - 1 < 2 then Some (0xfffffffe, 0) else utf8_cont (u AND 0x0f) 0x7ff 2 p 1)
      else if u \<ge> 0xc2 then
        (if n - 1 < 1 then Some (0xfffffffe, 0) else utf8_cont (u AND 0x1f) 0x7f 1 p 1)
      else Some (0xffffffff, 1))"

text \<open>\<open>ngx_utf8_length\<close>: \<open>p\<close> is what is left of the string and \<open>n\<close> its whole length, which is
  also what the code passes to the decoder.\<close>

function utf8_length_loop :: "ngx_str \<Rightarrow> nat \<Rightarrow> nat \<Rightarrow> nat option" where
  "utf8_length_loop p n len =
     (case p of
        [] \<Rightarrow> Some len
      | c # p' \<Rightarrow>
          if c < 0x80 then utf8_length_loop p' n (Suc len)
          else case ngx_utf8_decode p (word_of_nat n) of
                 None \<Rightarrow> None
               | Some (u, k) \<Rightarrow>
                   if u > 0x10ffff then Some n
                   else if k = 0 then None
                   else utf8_length_loop (drop k p) n (Suc len))"
  by pat_completeness auto
termination
  by (relation "measure (\<lambda>(p, n, len). length p)") auto

declare utf8_length_loop.simps [simp del]

definition ngx_utf8_length :: "ngx_str \<Rightarrow> nat option" where
  "ngx_utf8_length p = utf8_length_loop p (length p) 0"

text \<open>\<open>ngx_utf8_cpystrn\<close> copies at most \<open>n - 1\<close> characters; \<open>len\<close> is the number of source bytes
  left.\<close>

fun utf8_cpystrn_loop :: "nat \<Rightarrow> ngx_str \<Rightarrow> uint64 \<Rightarrow> ngx_str option" where
  "utf8_cpystrn_loop 0 src len = Some [0]"
| "utf8_cpystrn_loop (Suc n) [] len = None"
| "utf8_cpystrn_loop (Suc n) (c # src) len =
     (if c < 0x80 then
        (if c \<noteq> 0 then map_option (Cons c) (utf8_cpystrn_loop n src (len - 1)) else Some [c])
      else case ngx_utf8_decode (c # src) len of
             None \<Rightarrow> None
           | Some (u, k) \<Rightarrow>
               if u > 0x10ffff then Some [0]
               else map_option (append (take k (c # src)))
                      (utf8_cpystrn_loop n (drop k (c # src)) (len - word_of_nat k)))"

definition ngx_utf8_cpystrn :: "ngx_str \<Rightarrow> nat \<Rightarrow> uint64 \<Rightarrow> ngx_str option" where
  "ngx_utf8_cpystrn src n len = (if n = 0 then Some [] else utf8_cpystrn_loop (n - 1) src len)"

section \<open>URI escaping\<close>

definition esc_uri :: "uint32 list" where
  "esc_uri =
     [0xffffffff, 0x80000029, 0x00000000, 0x80000000,
      0xffffffff, 0xffffffff, 0xffffffff, 0xffffffff]"

definition esc_args :: "uint32 list" where
  "esc_args =
     [0xffffffff, 0x88000869, 0x00000000, 0x80000000,
      0xffffffff, 0xffffffff, 0xffffffff, 0xffffffff]"

definition esc_uri_component :: "uint32 list" where
  "esc_uri_component =
     [0xffffffff, 0xfc009fff, 0x78000001, 0xb8000001,
      0xffffffff, 0xffffffff, 0xffffffff, 0xffffffff]"

definition esc_html :: "uint32 list" where
  "esc_html =
     [0xffffffff, 0x000000ad, 0x00000000, 0x80000000,
      0xffffffff, 0xffffffff, 0xffffffff, 0xffffffff]"

definition esc_refresh :: "uint32 list" where
  "esc_refresh =
     [0xffffffff, 0x00000085, 0x00000000, 0x80000000,
      0xffffffff, 0xffffffff, 0xffffffff, 0xffffffff]"

definition esc_memcached :: "uint32 list" where
  "esc_memcached =
     [0xffffffff, 0x00000021, 0x00000000, 0x00000000,
      0x00000000, 0x00000000, 0x00000000, 0x00000000]"

text \<open>The table \<open>map\<close>, indexed by the \<open>NGX_ESCAPE_*\<close> type.\<close>

datatype escape_type = ESCAPE_URI | ESCAPE_ARGS | ESCAPE_URI_COMPONENT | ESCAPE_HTML
  | ESCAPE_REFRESH | ESCAPE_MEMCACHED | ESCAPE_MAIL_AUTH

fun escape_map :: "escape_type \<Rightarrow> uint32 list" where
  "escape_map ESCAPE_URI = esc_uri"
| "escape_map ESCAPE_ARGS = esc_args"
| "escape_map ESCAPE_URI_COMPONENT = esc_uri_component"
| "escape_map ESCAPE_HTML = esc_html"
| "escape_map ESCAPE_REFRESH = esc_refresh"
| "escape_map ESCAPE_MEMCACHED = esc_memcached"
| "escape_map ESCAPE_MAIL_AUTH = esc_memcached"

text \<open>The call with \<open>dst == NULL\<close> counts the bytes to escape; the other writes.\<close>

fun ngx_escape_uri_count :: "uint32 list \<Rightarrow> ngx_str \<Rightarrow> nat" where
  "ngx_escape_uri_count escape [] = 0"
| "ngx_escape_uri_count escape (c # src) =
     (if tbl_bit escape c then Suc (ngx_escape_uri_count escape src)
      else ngx_escape_uri_count escape src)"

fun escape_uri_write :: "uint32 list \<Rightarrow> ngx_str \<Rightarrow> ngx_str" where
  "escape_uri_write escape [] = []"
| "escape_uri_write escape (c # src) =
     (if tbl_bit escape c then
        chr CHR ''%'' # hex ! unat (drop_bit 4 c) # hex ! unat (c AND 0xf)
        # escape_uri_write escape src
      else c # escape_uri_write escape src)"

definition ngx_escape_uri :: "ngx_str \<Rightarrow> escape_type \<Rightarrow> ngx_str" where
  "ngx_escape_uri src type = escape_uri_write (escape_map type) src"

section \<open>URI unescaping\<close>

abbreviation (input) NGX_UNESCAPE_URI :: ngx_uint_t where "NGX_UNESCAPE_URI \<equiv> 1"
abbreviation (input) NGX_UNESCAPE_REDIRECT :: ngx_uint_t where "NGX_UNESCAPE_REDIRECT \<equiv> 2"

text \<open>In \<open>sw_quoted_second\<close> the machine holds the decoded high digit and the byte it came from,
  which is what \<open>*(s - 2)\<close> reads back.\<close>

datatype unescape_state = sw_usual | sw_quoted | sw_quoted_second u_char u_char

text \<open>One byte: the bytes written, and the next state or \<open>None\<close> for \<open>goto done\<close>.\<close>

definition unescape_second ::
  "ngx_uint_t \<Rightarrow> u_char \<Rightarrow> u_char \<Rightarrow> u_char \<Rightarrow> ngx_str \<times> unescape_state option" where
  "unescape_second type decoded prev ch =
     (if chr CHR ''0'' \<le> ch \<and> ch \<le> chr CHR ''9'' then
        let c = push_bit 4 decoded + ch - chr CHR ''0'' in
        if type AND NGX_UNESCAPE_REDIRECT \<noteq> 0 then
          (if c > chr CHR ''%'' \<and> c < 0x7f then ([c], Some sw_usual)
           else ([chr CHR ''%'', prev, ch], Some sw_usual))
        else ([c], Some sw_usual)
      else let l = ch OR 0x20 in
        if chr CHR ''a'' \<le> l \<and> l \<le> chr CHR ''f'' then
          let c = push_bit 4 decoded + l - chr CHR ''a'' + 10 in
          if type AND NGX_UNESCAPE_URI \<noteq> 0 then
            (if c = chr CHR ''?'' then ([c], None) else ([c], Some sw_usual))
          else if type AND NGX_UNESCAPE_REDIRECT \<noteq> 0 then
            (if c = chr CHR ''?'' then ([c], None)
             else if c > chr CHR ''%'' \<and> c < 0x7f then ([c], Some sw_usual)
             else ([chr CHR ''%'', prev, ch], Some sw_usual))
          else ([c], Some sw_usual)
        else ([], Some sw_usual))"

fun unescape_step ::
  "ngx_uint_t \<Rightarrow> unescape_state \<Rightarrow> u_char \<Rightarrow> ngx_str \<times> unescape_state option" where
  "unescape_step type sw_usual ch =
     (if ch = chr CHR ''?'' \<and> type AND (NGX_UNESCAPE_URI OR NGX_UNESCAPE_REDIRECT) \<noteq> 0
      then ([ch], None)
      else if ch = chr CHR ''%'' then ([], Some sw_quoted)
      else ([ch], Some sw_usual))"
| "unescape_step type sw_quoted ch =
     (case hex_digit ch of
        Some d \<Rightarrow> ([], Some (sw_quoted_second d ch))
      | None \<Rightarrow> ([ch], Some sw_usual))"
| "unescape_step type (sw_quoted_second decoded prev) ch = unescape_second type decoded prev ch"

fun unescape_loop ::
  "ngx_uint_t \<Rightarrow> unescape_state \<Rightarrow> ngx_str \<Rightarrow> ngx_str \<times> ngx_str" where
  "unescape_loop type state [] = ([], [])"
| "unescape_loop type state (ch # s) =
     (case unescape_step type state ch of
        (w, None) \<Rightarrow> (w, s)
      | (w, Some state') \<Rightarrow> (case unescape_loop type state' s of (d, s') \<Rightarrow> (w @ d, s')))"

text \<open>The bytes written, and the source bytes not consumed.\<close>

definition ngx_unescape_uri :: "ngx_str \<Rightarrow> ngx_uint_t \<Rightarrow> ngx_str \<times> ngx_str" where
  "ngx_unescape_uri src type = unescape_loop type sw_usual src"

section \<open>HTML escaping\<close>



section \<open>Reference definitions\<close>

text \<open>The bytes a decoder accepts.\<close>

definition base64_char :: "ngx_str \<Rightarrow> u_char \<Rightarrow> bool" where
  "base64_char basis c \<longleftrightarrow> c \<noteq> chr CHR ''='' \<and> basis ! unat c \<noteq> 77"

text \<open>\<open>e\<close> is a body over the alphabet that decodes to \<open>s\<close>, and padding.\<close>

definition base64_encodes :: "ngx_str \<Rightarrow> ngx_str \<Rightarrow> bool" where
  "base64_encodes e s \<longleftrightarrow> (\<exists>body pad. e = body @ pad \<and>
     list_all (base64_char decode_basis64) body \<and> (pad = [] \<or> hd pad = chr CHR ''='') \<and>
     length body mod 4 \<noteq> 1 \<and> base64_groups decode_basis64 body = s)"

text \<open>The UTF-8 form of a code point from 0x80 up.\<close>

definition utf8_tail :: "nat \<Rightarrow> u_char" where
  "utf8_tail b = word_of_nat (0x80 + b)"

definition utf8_encode :: "nat \<Rightarrow> ngx_str" where
  "utf8_encode cp =
     (if cp < 0x800 then [word_of_nat (0xC0 + cp div 64), utf8_tail (cp mod 64)]
      else if cp < 0x10000 then
        [word_of_nat (0xE0 + cp div 4096), utf8_tail (cp div 64 mod 64),
         utf8_tail (cp mod 64)]
      else
        [word_of_nat (0xF0 + cp div 262144), utf8_tail (cp div 4096 mod 64),
         utf8_tail (cp div 64 mod 64), utf8_tail (cp mod 64)])"

definition utf8_char :: "nat \<Rightarrow> ngx_str" where
  "utf8_char cp = (if cp < 0x80 then [word_of_nat cp] else utf8_encode cp)"

section \<open>Base64: lemmas\<close>

lemma byte_bitsI:
  fixes a b :: u_char
  assumes "bit a 0 = bit b 0" "bit a 1 = bit b 1" "bit a 2 = bit b 2" "bit a 3 = bit b 3"
    "bit a 4 = bit b 4" "bit a 5 = bit b 5" "bit a 6 = bit b 6" "bit a 7 = bit b 7"
  shows "a = b"
proof (rule bit_word_eqI)
  fix n assume "n < LENGTH(8)"
  then have "n \<in> {0, 1, 2, 3, 4, 5, 6, 7}" by auto
  with assms show "bit a n \<longleftrightarrow> bit b n" by blast
qed

lemma byte_bit_ge [simp]: "8 \<le> n \<Longrightarrow> \<not> bit (w :: u_char) n"
  using bit_imp_le_length [of w n] by auto

text \<open>The three bytes of a group, put back together from the 6-bit indices.\<close>

lemma base64_word:
  fixes x y z :: u_char
  shows "push_bit 2 (drop_bit 2 x AND 0x3f) OR drop_bit 4 (push_bit 4 (x AND 3) OR drop_bit 4 y) = x"
    and "push_bit 2 (drop_bit 2 x AND 0x3f) OR drop_bit 4 (push_bit 4 (x AND 3)) = x"
    and "push_bit 4 (push_bit 4 (x AND 3) OR drop_bit 4 y) OR
      drop_bit 2 (push_bit 2 (y AND 0x0f) OR drop_bit 6 z) = y"
    and "push_bit 4 (push_bit 4 (x AND 3) OR drop_bit 4 y) OR drop_bit 2 (push_bit 2 (y AND 0x0f)) = y"
    and "push_bit 6 (push_bit 2 (y AND 0x0f) OR drop_bit 6 z) OR (z AND 0x3f) = z"
  by (rule byte_bitsI; simp add: bit_simps)+

lemma six_bits_less: "\<not> bit w 6 \<Longrightarrow> \<not> bit w 7 \<Longrightarrow> unat (w :: u_char) < 64"
proof -
  assume "\<not> bit w 6" "\<not> bit w 7"
  then have "w = take_bit 6 w"
    by (intro byte_bitsI) (simp_all add: bit_simps)
  then have "unat w = take_bit 6 (unat w)"
    by (metis unsigned_take_bit_eq)
  moreover have "take_bit 6 (unat w) < 2 ^ 6" by (rule take_bit_nat_less_exp)
  ultimately show ?thesis by simp
qed

lemma base64_index_less:
  fixes x y :: u_char
  shows "unat (drop_bit 2 x AND 0x3f) < 64" and "unat (x AND 0x3f) < 64"
    and "unat (push_bit 4 (x AND 3) OR drop_bit 4 y) < 64"
    and "unat (push_bit 2 (x AND 0x0f) OR drop_bit 6 y) < 64"
    and "unat (push_bit 4 (x AND 3)) < 64" and "unat (push_bit 2 (x AND 0x0f)) < 64"
  by (rule six_bits_less; simp add: bit_simps)+

lemma basis64_inverse: "map (\<lambda>c. decode_basis64 ! unat c) basis64 = map word_of_nat [0..<64]"
  by (simp add: basis64_def decode_basis64_def upt_conv_Cons)

lemma basis64_no_pad: "list_all (\<lambda>c. c \<noteq> chr CHR ''='') basis64"
  by (simp add: basis64_def)

lemma basis64_length: "length basis64 = 64"
  by (simp add: basis64_def)

lemma decode_basis64_basis64:
  assumes "unat i < 64"
  shows "decode_basis64 ! unat (basis64 ! unat i) = i" and "basis64 ! unat i \<noteq> chr CHR ''=''"
    and "decode_basis64 ! unat (basis64 ! unat i) \<noteq> 77"
proof -
  show *: "decode_basis64 ! unat (basis64 ! unat i) = i"
    using arg_cong [OF basis64_inverse, of "\<lambda>l. l ! unat i"] assms by (simp add: basis64_length)
  show "basis64 ! unat i \<noteq> chr CHR ''=''"
    using basis64_no_pad assms by (simp add: list_all_length basis64_length)
  show "decode_basis64 ! unat (basis64 ! unat i) \<noteq> 77"
    using assms unfolding * by auto
qed

lemma base64_char_basis64: "unat (i :: u_char) < 64 \<Longrightarrow> base64_char decode_basis64 (basis64 ! unat i)"
  using decode_basis64_basis64 [of i] by (simp add: base64_char_def)

lemmas base64_group_simps =
  base64_char_basis64 decode_basis64_basis64(1) base64_index_less base64_word

lemma base64_scan_body:
  assumes "list_all (base64_char basis) body"
    and "pad = [] \<or> hd pad = chr CHR ''=''"
  shows "base64_scan basis (body @ pad) = Some (length body)"
  using assms(1)
proof (induction body)
  case Nil
  then show ?case using assms(2) by (cases pad) auto
qed (auto simp: base64_char_def)

lemma base64_encodesI:
  assumes "e = body @ pad" "list_all (base64_char decode_basis64) body"
    "base64_groups decode_basis64 body = s" "pad = [] \<or> hd pad = chr CHR ''=''"
    "length body mod 4 \<noteq> 1"
  shows "base64_encodes e s"
  unfolding base64_encodes_def using assms by blast

lemma encode_base64_body: "base64_encodes (ngx_encode_base64 s) s"
proof (induction s rule: ngx_encode_base64.induct)
  case (1 s0 s1 s2 s)
  then obtain body pad where IH: "ngx_encode_base64 s = body @ pad"
     "list_all (base64_char decode_basis64) body" "pad = [] \<or> hd pad = chr CHR ''=''"
     "length body mod 4 \<noteq> 1" "base64_groups decode_basis64 body = s"
    unfolding base64_encodes_def by blast
  let ?q = "[basis64 ! unat (drop_bit 2 s0 AND 0x3f),
      basis64 ! unat (push_bit 4 (s0 AND 3) OR drop_bit 4 s1),
      basis64 ! unat (push_bit 2 (s1 AND 0x0f) OR drop_bit 6 s2), basis64 ! unat (s2 AND 0x3f)]"
  show ?case
  proof (rule base64_encodesI [where body = "?q @ body" and pad = pad])
    show "ngx_encode_base64 (s0 # s1 # s2 # s) = (?q @ body) @ pad"
      using IH(1) by simp
    show "list_all (base64_char decode_basis64) (?q @ body)"
      using IH(2) by (simp only: list_all_append list.pred_inject base64_group_simps)
    show "base64_groups decode_basis64 (?q @ body) = s0 # s1 # s2 # s"
      using IH(5) by (simp only: append.simps base64_groups.simps base64_group_simps)
    show "length (?q @ body) mod 4 \<noteq> 1" "pad = [] \<or> hd pad = chr CHR ''=''"
      using IH(3,4) by simp_all
  qed
next
  case (2 s0 s1)
  let ?q = "[basis64 ! unat (drop_bit 2 s0 AND 0x3f),
      basis64 ! unat (push_bit 4 (s0 AND 3) OR drop_bit 4 s1),
      basis64 ! unat (push_bit 2 (s1 AND 0x0f))]"
  show ?case
  proof (rule base64_encodesI [where body = ?q and pad = "[chr CHR ''='']"])
    show "list_all (base64_char decode_basis64) ?q"
      by (simp only: list.pred_inject base64_group_simps)
    show "base64_groups decode_basis64 ?q = [s0, s1]"
      by (simp only: base64_groups.simps base64_group_simps)
  qed simp_all
next
  case (3 s0)
  let ?q = "[basis64 ! unat (drop_bit 2 s0 AND 0x3f), basis64 ! unat (push_bit 4 (s0 AND 3))]"
  show ?case
  proof (rule base64_encodesI [where body = ?q and pad = "[chr CHR ''='', chr CHR ''='']"])
    show "list_all (base64_char decode_basis64) ?q"
      by (simp only: list.pred_inject base64_group_simps)
    show "base64_groups decode_basis64 ?q = [s0]"
      by (simp only: base64_groups.simps base64_group_simps)
  qed simp_all
next
  case 4
  show ?case by (rule base64_encodesI [where body = "[]" and pad = "[]"]) simp_all
qed

text \<open>C25: decoding what \<open>ngx_encode_base64\<close> wrote gives back the input.\<close>

theorem base64_roundtrip: "ngx_decode_base64 (ngx_encode_base64 s) = Some s"
proof -
  obtain body pad where "ngx_encode_base64 s = body @ pad"
     "list_all (base64_char decode_basis64) body" "pad = [] \<or> hd pad = chr CHR ''=''"
     "length body mod 4 \<noteq> 1" "base64_groups decode_basis64 body = s"
    using encode_base64_body [of s] unfolding base64_encodes_def by blast
  then show ?thesis
    by (simp add: ngx_decode_base64_def ngx_decode_base64_internal_def base64_scan_body)
qed

lemma base64_groups_length: "length (base64_groups basis s) = length s * 3 div 4"
  by (induction basis s rule: base64_groups.induct) simp_all

lemma base64_scan_length: "base64_scan basis src = Some len \<Longrightarrow> len \<le> length src"
  by (induction basis src arbitrary: len rule: base64_scan.induct) (auto split: if_splits)

text \<open>C26: the buffers callers size with the length macros are large enough: the encoder writes
  exactly \<open>ngx_base64_encoded_length\<close> bytes and the decoders at most
  \<open>ngx_base64_decoded_length\<close>.\<close>

theorem base64_buffer_bounds:
  "length (ngx_encode_base64 s) = ngx_base64_encoded_length (length s) \<and>
   (\<forall>basis dst. ngx_decode_base64_internal s basis = Some dst \<longrightarrow>
      length dst \<le> ngx_base64_decoded_length (length s))"
proof
  show "length (ngx_encode_base64 s) = ngx_base64_encoded_length (length s)"
    by (induction s rule: ngx_encode_base64.induct)
      (simp_all add: ngx_base64_encoded_length_def, presburger)
  show "\<forall>basis dst. ngx_decode_base64_internal s basis = Some dst \<longrightarrow>
      length dst \<le> ngx_base64_decoded_length (length s)"
  proof (intro allI impI)
    fix basis dst assume "ngx_decode_base64_internal s basis = Some dst"
    then obtain len where "base64_scan basis s = Some len" "dst = base64_groups basis (take len s)"
      by (auto simp: ngx_decode_base64_internal_def split: option.splits if_splits)
    then show "length dst \<le> ngx_base64_decoded_length (length s)"
      using base64_scan_length [of basis s len]
      by (simp add: base64_groups_length ngx_base64_decoded_length_def)
  qed
qed

theorem base64_buffer_bounds_witness:
  "length (ngx_encode_base64 (str ''ab'')) = ngx_base64_encoded_length 2 \<and>
   ngx_decode_base64_internal (str ''YWI='') decode_basis64 = Some (str ''ab'') \<and>
   length (str ''ab'') \<le> ngx_base64_decoded_length 4"
proof -
  have d: "ngx_decode_base64_internal (str ''YWI='') decode_basis64 = Some (str ''ab'')"
    by (simp add: ngx_decode_base64_internal_def decode_basis64_def)
  with base64_buffer_bounds [of "str ''YWI=''"]
  have "length (str ''ab'') \<le> ngx_base64_decoded_length (length (str ''YWI=''))"
    by blast
  moreover from base64_buffer_bounds [of "str ''ab''"]
  have "length (ngx_encode_base64 (str ''ab'')) = ngx_base64_encoded_length (length (str ''ab''))"
    by blast
  ultimately show ?thesis
    using d by (simp add: numeral_eq_Suc del: ngx_encode_base64.simps)
qed

section \<open>UTF-8: lemmas\<close>

lemma nat_or_push: "b < 64 \<Longrightarrow> push_bit 6 a OR b = a * 64 + (b :: nat)"
proof -
  assume "b < 64"
  then have "take_bit 6 b = b" by (simp add: take_bit_nat_eq_self)
  then have "\<not> bit b n" if "6 \<le> n" for n
    using that by (metis bit_take_bit_iff not_le)
  then have "push_bit 6 a + b = push_bit 6 a OR b"
    by (intro disjunctive_add) (auto simp: bit_push_bit_iff)
  then show ?thesis by (simp add: push_bit_eq_mult)
qed

lemma utf8_cont_byte:
  assumes "b < 64"
  shows "\<not> utf8_tail b < 0x80"
    and "push_bit 6 (word_of_nat a :: uint32) OR (ucast (utf8_tail b) AND 0x3f) =
      word_of_nat (a * 64 + b)"
  unfolding utf8_tail_def
proof -
  have u: "unat (word_of_nat (0x80 + b) :: u_char) = 0x80 + b"
    using assms by (intro unat_of_nat_byte) simp
  then show "\<not> (word_of_nat (0x80 + b) :: u_char) < 0x80"
    by (simp add: word_less_nat_alt)
  have "(ucast (word_of_nat (0x80 + b) :: u_char) :: uint32) AND 0x3f = 
      word_of_nat ((0x80 + b) AND 0x3f)"
  proof -
    have "(ucast (word_of_nat (0x80 + b) :: u_char) :: uint32) = word_of_nat (0x80 + b)"
      using u by (metis of_nat_unat)
    then show ?thesis by (simp only: of_nat_and_eq of_nat_numeral)
  qed
  also have "(0x80 + b) AND 0x3f = b"
  proof -
    have "(0x80 + b) AND 0x3f = take_bit 6 (0x80 + b)"
      by (simp add: take_bit_eq_mask mask_eq_exp_minus_1)
    also have "\<dots> = (2 * 64 + b) mod 64" by (simp add: take_bit_eq_mod)
    also have "\<dots> = b" using assms by (simp only: mod_mult_self3 mod_less)
    finally show ?thesis .
  qed
  finally have "(ucast (word_of_nat (0x80 + b) :: u_char) :: uint32) AND 0x3f = word_of_nat b" .
  then have "push_bit 6 (word_of_nat a :: uint32) OR (ucast (word_of_nat (0x80 + b) :: u_char) AND 0x3f)
     = word_of_nat (push_bit 6 a OR b)"
    by (simp add: of_nat_or_eq of_nat_push_bit)
  then show "push_bit 6 (word_of_nat a :: uint32) OR (ucast (word_of_nat (0x80 + b) :: u_char) AND 0x3f) =
      word_of_nat (a * 64 + b)"
    by (simp only: nat_or_push [OF assms])
qed

lemma utf8_cont_bytes:
  "list_all (\<lambda>b. b < 64) bs \<Longrightarrow>
    utf8_cont (word_of_nat a) valid (length bs) (map utf8_tail bs @ rest) k =
    utf8_cont (word_of_nat (foldl (\<lambda>a b. a * 64 + b) a bs)) valid 0 rest (k + length bs)"
proof (induction bs arbitrary: a k)
  case (Cons b bs)
  then have b: "b < 64" by simp
  have "utf8_cont (word_of_nat a) valid (length (b # bs))
      (map utf8_tail (b # bs) @ rest) k =
    utf8_cont (word_of_nat (a * 64 + b)) valid (length bs) (map utf8_tail bs @ rest) (Suc k)"
    using utf8_cont_byte [OF b] by (simp del: of_nat_add)
  also have "\<dots> = utf8_cont (word_of_nat (foldl (\<lambda>a b. a * 64 + b) (a * 64 + b) bs)) valid 0 rest
      (Suc k + length bs)"
    using Cons by (intro Cons.IH) simp
  finally show ?case by simp
qed simp

lemma utf8_lead:
  assumes "a < 2 ^ m" "d + 2 ^ m \<le> 256" "2 ^ m dvd d"
  shows "unat (ucast (word_of_nat (d + a) :: u_char) :: uint32) = d + a"
    and "(ucast (word_of_nat (d + a) :: u_char) :: uint32) AND mask m = word_of_nat a"
proof -
  have u: "unat (word_of_nat (d + a) :: u_char) = d + a"
    using assms by (intro unat_of_nat_byte) simp
  then show *: "unat (ucast (word_of_nat (d + a) :: u_char) :: uint32) = d + a"
    using assms by (simp add: unsigned_ucast_eq take_bit_nat_eq_self)
  obtain q where "d = 2 ^ m * q" using assms(3) by blast
  then have "take_bit m (d + a) = a"
    using assms(1) by (simp add: take_bit_eq_mod)
  moreover have "(ucast (word_of_nat (d + a) :: u_char) :: uint32) = word_of_nat (d + a)"
    using arg_cong [OF *, of "word_of_nat :: nat \<Rightarrow> uint32"] by simp
  ultimately show "(ucast (word_of_nat (d + a) :: u_char) :: uint32) AND mask m = word_of_nat a"
    by (simp only: take_bit_eq_mask [symmetric] of_nat_take_bit [symmetric])
qed

lemma utf8_cont_value:
  "cp < 2 ^ 32 \<Longrightarrow> unat valid < cp \<Longrightarrow>
    utf8_cont (word_of_nat cp) valid 0 p k = Some (word_of_nat cp, k)"
  by (simp add: word_less_nat_alt unat_of_nat)

lemma utf8_decode_lead:
  fixes c :: u_char and n :: uint64
  assumes "unat n \<ge> Suc len"
  shows "0xC2 \<le> unat (ucast c :: uint32) \<Longrightarrow> unat (ucast c :: uint32) < 0xE0 \<Longrightarrow> len = 1 \<Longrightarrow>
      ngx_utf8_decode (c # p) n = utf8_cont (ucast c AND 0x1f) 0x7f len p 1"
    and "0xE0 \<le> unat (ucast c :: uint32) \<Longrightarrow> unat (ucast c :: uint32) < 0xF0 \<Longrightarrow> len = 2 \<Longrightarrow>
      ngx_utf8_decode (c # p) n = utf8_cont (ucast c AND 0x0f) 0x7ff len p 1"
    and "0xF0 \<le> unat (ucast c :: uint32) \<Longrightarrow> len = 3 \<Longrightarrow>
      ngx_utf8_decode (c # p) n = utf8_cont (ucast c AND 0x07) 0xffff len p 1"
proof -
  have "len \<le> unat (n - 1)"
    using assms by (simp add: unat_sub word_le_nat_alt)
  then show "0xC2 \<le> unat (ucast c :: uint32) \<Longrightarrow> unat (ucast c :: uint32) < 0xE0 \<Longrightarrow> len = 1 \<Longrightarrow>
      ngx_utf8_decode (c # p) n = utf8_cont (ucast c AND 0x1f) 0x7f len p 1"
    and "0xE0 \<le> unat (ucast c :: uint32) \<Longrightarrow> unat (ucast c :: uint32) < 0xF0 \<Longrightarrow> len = 2 \<Longrightarrow>
      ngx_utf8_decode (c # p) n = utf8_cont (ucast c AND 0x0f) 0x7ff len p 1"
    and "0xF0 \<le> unat (ucast c :: uint32) \<Longrightarrow> len = 3 \<Longrightarrow>
      ngx_utf8_decode (c # p) n = utf8_cont (ucast c AND 0x07) 0xffff len p 1"
    by (simp_all add: Let_def word_le_nat_alt word_less_nat_alt)
qed

lemma utf8_decode_bytes:
  assumes bs: "list_all (\<lambda>b. b < 64) bs" and n: "Suc (length bs) \<le> unat n" and a: "a < 2 ^ m"
    and "(d, m, valid, length bs) = (0xC0, 5, 0x7f, 1) \<and> 2 \<le> a \<or>
      (d, m, valid, length bs) = (0xE0, 4, 0x7ff, 2) \<or>
      (d, m, valid, length bs) = (0xF0, 3, 0xffff, 3)"
  shows "ngx_utf8_decode (word_of_nat (d + a) # map utf8_tail bs @ rest) n =
    utf8_cont (word_of_nat (foldl (\<lambda>a b. a * 64 + b) a bs)) valid 0 rest (Suc (length bs))"
proof -
  define c :: u_char where "c = word_of_nat (d + a)"
  have "d + 2 ^ m \<le> 256" "2 ^ m dvd d" using assms(4) by auto
  from utf8_lead [OF a this] have lead: "unat (ucast c :: uint32) = d + a"
      "(ucast c :: uint32) AND mask m = word_of_nat a"
    by (simp_all only: c_def)
  have m: "mask 5 = (0x1f :: uint32)" "mask 4 = (0x0f :: uint32)" "mask 3 = (0x07 :: uint32)"
    by (simp_all add: mask_eq_exp_minus_1)
  have "ngx_utf8_decode (c # map utf8_tail bs @ rest) n =
      utf8_cont (word_of_nat a) valid (length bs) (map utf8_tail bs @ rest) 1"
    using assms(4) lead a utf8_decode_lead [OF n, of c "map utf8_tail bs @ rest"] m by auto
  then show ?thesis
    using utf8_cont_bytes [OF bs, of a valid rest 1] by (simp only: c_def) simp
qed

lemma utf8_encode_cases:
  "utf8_encode cp =
    (if cp < 0x800 then word_of_nat (0xC0 + cp div 64) # map utf8_tail [cp mod 64]
     else if cp < 0x10000 then
       word_of_nat (0xE0 + cp div 4096) # map utf8_tail [cp div 64 mod 64, cp mod 64]
     else word_of_nat (0xF0 + cp div 262144) #
       map utf8_tail [cp div 4096 mod 64, cp div 64 mod 64, cp mod 64])"
  by (simp add: utf8_encode_def)

lemma utf8_digits:
  fixes cp :: nat
  shows "foldl (\<lambda>a b. a * 64 + b) (cp div 64) [cp mod 64] = cp"
    and "foldl (\<lambda>a b. a * 64 + b) (cp div 4096) [cp div 64 mod 64, cp mod 64] = cp"
    and "foldl (\<lambda>a b. a * 64 + b) (cp div 262144)
      [cp div 4096 mod 64, cp div 64 mod 64, cp mod 64] = cp"
proof -
  have 1: "cp div 64 * 64 + cp mod 64 = cp" by simp
  have 2: "cp div 4096 * 64 + cp div 64 mod 64 = cp div 64"
    using div_mult_mod_eq [of "cp div 64" 64] by (simp flip: div_mult2_eq)
  have 3: "cp div 262144 * 64 + cp div 4096 mod 64 = cp div 4096"
    using div_mult_mod_eq [of "cp div 4096" 64] by (simp flip: div_mult2_eq)
  show "foldl (\<lambda>a b. a * 64 + b) (cp div 64) [cp mod 64] = cp"
    "foldl (\<lambda>a b. a * 64 + b) (cp div 4096) [cp div 64 mod 64, cp mod 64] = cp"
    "foldl (\<lambda>a b. a * 64 + b) (cp div 262144)
      [cp div 4096 mod 64, cp div 64 mod 64, cp mod 64] = cp"
    by (simp_all only: foldl.simps 1 2 3)
qed

lemma utf8_decode_encode:
  assumes "0x80 \<le> cp" "cp < 0x110000" "length (utf8_encode cp) \<le> unat n"
  shows "ngx_utf8_decode (utf8_encode cp @ rest) n =
    Some (word_of_nat cp, length (utf8_encode cp))"
proof -
  consider "cp < 0x800" | "0x800 \<le> cp" "cp < 0x10000" | "0x10000 \<le> cp"
    by linarith
  then show ?thesis
  proof cases
    case 1
    then have e: "utf8_encode cp = word_of_nat (0xC0 + cp div 64) # map utf8_tail [cp mod 64]"
      by (simp only: utf8_encode_cases if_True)
    have "Suc (length [cp mod 64]) \<le> unat n" using assms(3) e by simp
    with 1 assms(1) show ?thesis
      unfolding e append_Cons
      by (subst utf8_decode_bytes [where m = 5 and valid = "0x7f"])
        (simp_all only: utf8_digits, simp_all add: utf8_cont_value del: utf8_cont.simps)
  next
    case 2
    then have e: "utf8_encode cp =
        word_of_nat (0xE0 + cp div 4096) # map utf8_tail [cp div 64 mod 64, cp mod 64]"
      by (simp add: utf8_encode_cases)
    have "Suc (length [cp div 64 mod 64, cp mod 64]) \<le> unat n" using assms(3) e by simp
    with 2 show ?thesis
      unfolding e append_Cons
      by (subst utf8_decode_bytes [where m = 4 and valid = "0x7ff"])
        (simp_all only: utf8_digits, simp_all add: utf8_cont_value del: utf8_cont.simps)
  next
    case 3
    then have e: "utf8_encode cp = word_of_nat (0xF0 + cp div 262144) #
        map utf8_tail [cp div 4096 mod 64, cp div 64 mod 64, cp mod 64]"
      by (simp add: utf8_encode_cases)
    have "Suc (length [cp div 4096 mod 64, cp div 64 mod 64, cp mod 64]) \<le> unat n"
      using assms(3) e by simp
    with 3 assms(2) show ?thesis
      unfolding e append_Cons
      by (subst utf8_decode_bytes [where m = 3 and valid = "0xffff"])
        (simp_all only: utf8_digits, simp_all add: utf8_cont_value del: utf8_cont.simps)
  qed
qed
text \<open>The decoder reads no byte past the claimed length.\<close>

lemma utf8_cont_safe:
  "len \<le> length p \<Longrightarrow> \<exists>u j. utf8_cont u0 valid len p k = Some (u, j) \<and> k \<le> j \<and> j \<le> k + len"
proof (induction u0 valid len p k rule: utf8_cont.induct)
  case (3 u valid len i p k)
  then show ?case by (cases "i < 0x80") (auto simp: not_less)
qed auto

lemma ngx_utf8_decode_safe:
  assumes "p \<noteq> []" "length p < 2 ^ 64"
  shows "\<exists>u k. ngx_utf8_decode p (word_of_nat (length p)) = Some (u, k) \<and> k \<le> length p"
proof -
  obtain c q where p: "p = c # q" using assms(1) by (cases p) auto
  let ?n = "word_of_nat (length p) :: uint64"
  have n: "unat (?n - 1) = length q"
    using assms(2) by (simp add: p unat_of_nat)
  have *: "\<exists>u j. utf8_cont u0 valid len q 1 = Some (u, j) \<and> j \<le> length p"
    if "len \<le> length q" for u0 valid len
    using utf8_cont_safe [OF that, of u0 valid 1] that by (fastforce simp: p)
  have "?n - 1 < 1 \<longleftrightarrow> length q < 1" "?n - 1 < 2 \<longleftrightarrow> length q < 2" "?n - 1 < 3 \<longleftrightarrow> length q < 3"
    by (simp_all only: word_less_nat_alt n) simp_all
  then show ?thesis
    using * [of 1] * [of 2] * [of 3] unfolding p ngx_utf8_decode.simps Let_def
    by (auto simp: not_less Suc_le_eq)
qed

lemma utf8_encode_lead:
  assumes "cp < 0x110000"
  shows "\<exists>c p. utf8_encode cp = c # p \<and> 0x80 \<le> c"
proof -
  have *: "0x80 \<le> (word_of_nat (d + a) :: u_char)" if "0x80 \<le> d" "d + a < 256" for d a
    using that unat_of_nat_byte [OF that(2)] by (simp add: word_le_nat_alt del: of_nat_add)
  show ?thesis
    using assms unfolding utf8_encode_cases
    by (auto simp del: of_nat_add intro!: * simp: less_mult_imp_div_less)
qed

lemma utf8_length_loop_chars:
  assumes "\<forall>cp\<in>set cps. cp < 0x110000" "length (concat (map utf8_char cps)) \<le> n" "n < 2 ^ 64"
  shows "utf8_length_loop (concat (map utf8_char cps)) n len = Some (len + length cps)"
  using assms
proof (induction cps arbitrary: len)
  case Nil
  then show ?case by (simp add: utf8_length_loop.simps)
next
  case (Cons cp cps)
  show ?case
  proof (cases "cp < 0x80")
    case True
    then have "(word_of_nat cp :: u_char) < 0x80"
      by (simp add: word_less_nat_alt unat_of_nat)
    with True Cons show ?thesis
      by (subst utf8_length_loop.simps) (simp add: utf8_char_def [of cp])
  next
    case False
    then obtain c p where cp: "utf8_encode cp = c # p" "0x80 \<le> c"
      using utf8_encode_lead [of cp] Cons.prems(1) by auto
    have "ngx_utf8_decode (utf8_encode cp @ concat (map utf8_char cps)) (word_of_nat n) =
        Some (word_of_nat cp, length (utf8_encode cp))"
      using False Cons.prems by (intro utf8_decode_encode) (simp_all add: utf8_char_def [of cp] unat_of_nat)
    moreover have "\<not> (word_of_nat cp :: uint32) > 0x10ffff"
      using Cons.prems(1) by (simp add: word_less_nat_alt unat_of_nat)
    moreover have "utf8_length_loop (concat (map utf8_char cps)) n (Suc len) = Some (Suc len + length cps)"
      using Cons by simp
    ultimately show ?thesis
      using False cp by (subst utf8_length_loop.simps)
        (simp add: utf8_char_def [of cp] not_less [symmetric] del: ngx_utf8_decode.simps)
  qed
qed

text \<open>C27: \<open>ngx_utf8_decode\<close> inverts UTF-8 on every code point from 0x80 to 0x10FFFF, moving the
  pointer over exactly its bytes, and on no input reads a byte past the given length.\<close>

theorem ngx_utf8_decode_correct:
  assumes "0x80 \<le> cp" "cp < 0x110000" "length (utf8_encode cp) \<le> unat n"
    and "p \<noteq> []" "length p < 2 ^ 64"
  shows "ngx_utf8_decode (utf8_encode cp @ rest) n = Some (word_of_nat cp, length (utf8_encode cp)) \<and>
    (\<exists>u k. ngx_utf8_decode p (word_of_nat (length p)) = Some (u, k) \<and> k \<le> length p)"
  using utf8_decode_encode [OF assms(1,2,3)] ngx_utf8_decode_safe [OF assms(4,5)] by blast

theorem ngx_utf8_decode_correct_witness:
  "ngx_utf8_decode (utf8_encode 0x20AC @ str ''a'') 4 =
     Some (word_of_nat 0x20AC, length (utf8_encode 0x20AC)) \<and>
   (\<exists>u k. ngx_utf8_decode [0xe2, 0x82] (word_of_nat (length [0xe2, 0x82 :: u_char])) = Some (u, k) \<and>
     k \<le> length [0xe2, 0x82 :: u_char])"
  by (rule ngx_utf8_decode_correct) (simp_all add: utf8_encode_def)

lemma ngx_utf8_length_chars:
  assumes "\<forall>cp\<in>set cps. cp < 0x110000" "length (concat (map utf8_char cps)) < 2 ^ 64"
  shows "ngx_utf8_length (concat (map utf8_char cps)) = Some (length cps)"
  using utf8_length_loop_chars [of cps "length (concat (map utf8_char cps))" 0] assms
  by (simp add: ngx_utf8_length_def)

lemma utf8_cont_Nil: "0 < len \<Longrightarrow> utf8_cont u valid len [] k = None"
  by (cases len) simp_all

text \<open>\<open>ngx_utf8_length\<close> hands the decoder the length of the whole string instead of what is
  left of it, so a truncated last character is read past the end.\<close>

lemma ngx_utf8_length_overread: "ngx_utf8_length [0x61, 0x61, 0xe2] = None"
  by (simp add: ngx_utf8_length_def utf8_length_loop.simps utf8_cont_Nil)

section \<open>URI escaping: lemmas\<close>





text \<open>The table of \<open>NGX_ESCAPE_REFRESH\<close> leaves \<open>%\<close> alone, contrary to the comment above it, so
  that a literal percent sign does not survive the round trip.\<close>

lemma escape_refresh_percent:
  "ngx_escape_uri (str ''%41'') ESCAPE_REFRESH = str ''%41'' \<and>
   ngx_unescape_uri (ngx_escape_uri (str ''%41'') ESCAPE_REFRESH) 0 = (str ''A'', [])"
  by (simp add: ngx_escape_uri_def ngx_unescape_uri_def tbl_bit_def esc_refresh_def
      hex_digit_def unescape_second_def)

lemma escape_uri_write_length:
  "length (escape_uri_write tbl s) = length s + 2 * ngx_escape_uri_count tbl s"
  by (induction tbl s rule: ngx_escape_uri_count.induct) simp_all

lemma hex_not_escaped: "list_all (\<lambda>c. \<not> tbl_bit (escape_map t) c) hex"
  by (cases t) (simp_all add: tbl_bit_def hex_def esc_uri_def esc_args_def esc_uri_component_def
      esc_html_def esc_refresh_def esc_memcached_def)

lemma hex_nth_not_escaped: "n < 16 \<Longrightarrow> \<not> tbl_bit (escape_map t) (hex ! n)"
  using hex_not_escaped [of t] by (simp add: list_all_length hex_def)

lemma nibble_less: "unat (drop_bit 4 (c :: u_char)) < 16" "unat (c AND 0xf) < 16"
  by (rule byte_ballI [where c = c], simp)+

text \<open>C29: the counting call of \<open>ngx_escape_uri\<close> predicts the length of what the writing call
  writes, and every byte written is \<open>%\<close> or one the type does not escape.\<close>

theorem escape_uri_output:
  "length (ngx_escape_uri s t) = length s + 2 * ngx_escape_uri_count (escape_map t) s \<and>
   (\<forall>c\<in>set (ngx_escape_uri s t). c = chr CHR ''%'' \<or> \<not> tbl_bit (escape_map t) c)"
proof
  show "length (ngx_escape_uri s t) = length s + 2 * ngx_escape_uri_count (escape_map t) s"
    by (simp add: ngx_escape_uri_def escape_uri_write_length)
  show "\<forall>c\<in>set (ngx_escape_uri s t). c = chr CHR ''%'' \<or> \<not> tbl_bit (escape_map t) c"
    unfolding ngx_escape_uri_def
    by (induction s) (auto simp: hex_nth_not_escaped nibble_less)
qed

theorem escape_uri_output_witness:
  "length (ngx_escape_uri (str ''a b'') ESCAPE_ARGS) = 5 \<and> \<not> tbl_bit esc_args (chr CHR ''a'')"
proof -
  have "ngx_escape_uri_count esc_args (str ''a b'') = 1"
    "chr CHR ''a'' \<in> set (ngx_escape_uri (str ''a b'') ESCAPE_ARGS)"
    by (simp_all add: ngx_escape_uri_def tbl_bit_def esc_args_def hex_def)
  moreover from escape_uri_output [of "str ''a b''" ESCAPE_ARGS] this(2)
  have "\<not> tbl_bit esc_args (chr CHR ''a'')" by force
  ultimately show ?thesis using escape_uri_output [of "str ''a b''" ESCAPE_ARGS] by simp
qed

section \<open>HTML escaping: lemmas\<close>



end
