(* ===== verification/Ngx_Hash.thy ===== *)
theory Ngx_Hash
  imports Ngx_String
begin

text \<open>
  The hash functions of \<^verbatim>\<open>src/nginx-1.4.4/src/core/ngx_hash.c\<close> and its static hash tables.
\<close>

section \<open>Hash values\<close>

definition ngx_hash :: "ngx_uint_t \<Rightarrow> u_char \<Rightarrow> ngx_uint_t" where
  "ngx_hash key c = key * 31 + ucast c"

definition ngx_hash_key :: "ngx_str \<Rightarrow> ngx_uint_t" where
  "ngx_hash_key s = foldl ngx_hash 0 s"

definition ngx_hash_key_lc :: "ngx_str \<Rightarrow> ngx_uint_t" where
  "ngx_hash_key_lc s = foldl (\<lambda>key c. ngx_hash key (ngx_tolower c)) 0 s"

text \<open>The lower-cased copy and its hash.\<close>

primrec hash_strlow_loop :: "ngx_uint_t \<Rightarrow> ngx_str \<Rightarrow> ngx_str \<times> ngx_uint_t" where
  "hash_strlow_loop key [] = ([], key)"
| "hash_strlow_loop key (c # s) =
    (let d = ngx_tolower c; (dst, key') = hash_strlow_loop (ngx_hash key d) s in (d # dst, key'))"

definition ngx_hash_strlow :: "ngx_str \<Rightarrow> ngx_str \<times> ngx_uint_t" where
  "ngx_hash_strlow s = hash_strlow_loop 0 s"

lemma hash_key_lc_strlow: "ngx_hash_key_lc s = ngx_hash_key (ngx_strlow s)"
  by (simp add: ngx_hash_key_lc_def ngx_hash_key_def ngx_strlow_eq_map foldl_map)

lemma hash_strlow_loop_eq:
  "hash_strlow_loop key s = (map ngx_tolower s, foldl (\<lambda>key c. ngx_hash key (ngx_tolower c)) key s)"
  by (induction s arbitrary: key) (simp_all add: Let_def)

end
