(* ===== verification/Http_Core.thy ===== *)
theory Http_Core
  imports Ngx_Hash
begin

text \<open>
  What the parsers of \<^verbatim>\<open>src/nginx-1.4.4/src/http/ngx_http_parse.c\<close> share: the part of
  \<open>ngx_buf_t\<close> and \<open>ngx_http_request_t\<close> they read and write, the table of bytes that need no
  attention in a URI, and the shape of their main loop. Each parser is
  \<open>for (p = b->pos; p < b->last; p++) { switch (state) ... }\<close> over a state that survives a return
  with \<open>NGX_AGAIN\<close>; the loop is \<open>scan\<close>, its body a step function per parser, and the contract of
  the body is the locale \<open>incremental_parser\<close>.

  A pointer into the buffer is an offset from \<open>b->start\<close>, and \<open>None\<close> is \<open>NULL\<close>. The fields of the
  request that a parser caches in local variables (\<open>state\<close>, \<open>hash\<close>, \<open>i\<close>) are updated in the
  request during the loop, and the returns that do not store them back restore them.
\<close>

section \<open>Data\<close>

record ngx_buf_t =
  data :: "u_char list"
  pos :: nat

text \<open>\<open>data\<close> holds the bytes from \<open>b->start\<close> to \<open>b->last\<close>.\<close>

abbreviation last_of :: "ngx_buf_t \<Rightarrow> nat" where
  "last_of b \<equiv> length (data b)"

type_synonym ptr = "nat option"

abbreviation (input) NULL :: ptr where "NULL \<equiv> None"

text \<open>The parsing fields of \<open>struct ngx_http_request_s\<close>. The enumeration held by \<open>state\<close> is the one
  of the parser that runs, hence the type parameter.\<close>

record 'st ngx_http_request_t =
  upstream :: bool
  req_method :: ngx_uint_t
  http_version :: ngx_uint_t
  http_protocol :: ptr
  complex_uri :: bool
  quoted_uri :: bool
  plus_in_uri :: bool
  space_in_uri :: bool
  invalid_header :: bool
  state :: 'st
  header_hash :: ngx_uint_t
  lowcase_index :: ngx_uint_t
  lowcase_header :: "u_char list"
  header_name_start :: ptr
  header_name_end :: ptr
  header_start :: ptr
  header_end :: ptr
  uri_start :: ptr
  uri_end :: ptr
  uri_ext :: ptr
  args_start :: ptr
  request_start :: ptr
  request_end :: ptr
  method_end :: ptr
  schema_start :: ptr
  schema_end :: ptr
  host_start :: ptr
  host_end :: ptr
  port_end :: ptr
  http_minor :: "16 word"
  http_major :: "16 word"

text \<open>The request as \<open>ngx_http_create_request\<close> leaves these fields: zeroed memory from
  \<open>ngx_pcalloc\<close>, and \<open>r->req_method = NGX_HTTP_UNKNOWN\<close>.\<close>

definition fresh_request :: "'st \<Rightarrow> 'st ngx_http_request_t" where
  "fresh_request st = \<lparr>upstream = False, req_method = 1, http_version = 0, http_protocol = NULL,
     complex_uri = False, quoted_uri = False, plus_in_uri = False, space_in_uri = False,
     invalid_header = False, state = st, header_hash = 0, lowcase_index = 0,
     lowcase_header = replicate 32 0, header_name_start = NULL, header_name_end = NULL,
     header_start = NULL, header_end = NULL, uri_start = NULL, uri_end = NULL, uri_ext = NULL,
     args_start = NULL, request_start = NULL, request_end = NULL, method_end = NULL,
     schema_start = NULL, schema_end = NULL, host_start = NULL, host_end = NULL, port_end = NULL,
     http_minor = 0, http_major = 0\<rparr>"

abbreviation (input) NGX_HTTP_PARSE_HEADER_DONE :: ngx_int_t where "NGX_HTTP_PARSE_HEADER_DONE \<equiv> 1"
abbreviation (input) NGX_HTTP_PARSE_INVALID_METHOD :: ngx_int_t where "NGX_HTTP_PARSE_INVALID_METHOD \<equiv> 10"
abbreviation (input) NGX_HTTP_PARSE_INVALID_REQUEST :: ngx_int_t where "NGX_HTTP_PARSE_INVALID_REQUEST \<equiv> 11"
abbreviation (input) NGX_HTTP_PARSE_INVALID_09_METHOD :: ngx_int_t where "NGX_HTTP_PARSE_INVALID_09_METHOD \<equiv> 12"
abbreviation (input) NGX_HTTP_PARSE_INVALID_HEADER :: ngx_int_t where "NGX_HTTP_PARSE_INVALID_HEADER \<equiv> 13"

text \<open>The bytes of a URI that every URI state skips.\<close>

definition usual :: "uint32 list" where
  "usual = [0xffffdbfe, 0x7fff37d6, 0xffffffff, 0xffffffff, 0xffffffff, 0xffffffff, 0xffffffff, 0xffffffff]"

definition is_alpha :: "u_char \<Rightarrow> bool" where
  "is_alpha ch = (let c = ch OR 0x20 in chr CHR ''a'' \<le> c \<and> c \<le> chr CHR ''z'')"

text \<open>\<open>*10 + ch - '0'\<close> on a 16-bit field: the \<open>int\<close> result is truncated when it is stored.\<close>

definition digit16 :: "16 word \<Rightarrow> u_char \<Rightarrow> 16 word" where
  "digit16 v ch = v * 10 + ucast ch - 0x30"

section \<open>The loop\<close>

datatype goto_label = label_done | label_header_done | label_data

text \<open>What the body of the loop does with a byte: \<open>break\<close> to the next byte, \<open>goto\<close> a label behind
  the loop, or \<open>return\<close>.\<close>

datatype 's outcome = Next 's | Goto goto_label 's | Return ngx_int_t 's

datatype 's loop_end = At_last 's | At_label goto_label 's nat | Returned ngx_int_t 's

primrec scan :: "('s \<Rightarrow> nat \<Rightarrow> u_char \<Rightarrow> 's outcome) \<Rightarrow> u_char list \<Rightarrow> 's \<Rightarrow> nat \<Rightarrow> 's loop_end" where
  "scan f [] s p = At_last s"
| "scan f (c # cs) s p = (case f s p c of
      Next s' \<Rightarrow> scan f cs s' (Suc p)
    | Goto l s' \<Rightarrow> At_label l s' p
    | Return rc s' \<Rightarrow> Returned rc s')"

text \<open>The loop of a parser whose body is \<open>step buf\<close>; the body may look back into the buffer.\<close>

definition parse_loop :: "(u_char list \<Rightarrow> 's \<Rightarrow> nat \<Rightarrow> u_char \<Rightarrow> 's outcome) \<Rightarrow> ngx_buf_t \<Rightarrow> 's \<Rightarrow> 's loop_end" where
  "parse_loop step b s = scan (step (data b)) (drop (pos b) (data b)) s (pos b)"

text \<open>The bytes from one pointer up to another.\<close>

definition slice :: "u_char list \<Rightarrow> nat \<Rightarrow> nat \<Rightarrow> u_char list" where
  "slice buf i j = take (j - i) (drop i buf)"

text \<open>A buffer to which the next read appended \<open>ext\<close>.\<close>

definition feed :: "ngx_buf_t \<Rightarrow> u_char list \<Rightarrow> ngx_buf_t" where
  "feed b ext = b\<lparr>data := data b @ ext\<rparr>"

section \<open>Lemmas on slices and on the table\<close>

lemma usual_bytes: "tbl_bit usual c \<longrightarrow> c \<notin> set (0 # CR # LF # str '' /.%?#+'')"
  by (rule byte_ballI [where c = c]) (simp add: tbl_bit_def usual_def)

lemma slice_snoc: "i \<le> p \<Longrightarrow> p < length buf \<Longrightarrow> slice buf i (Suc p) = slice buf i p @ [buf ! p]"
proof -
  assume "i \<le> p" "p < length buf"
  then have "Suc p - i = Suc (p - i)" "p - i < length (drop i buf)" "drop i buf ! (p - i) = buf ! p" by auto
  then show ?thesis unfolding slice_def by (simp only: take_Suc_conv_app_nth)
qed

lemma slice_last: "i < p \<Longrightarrow> p \<le> length buf \<Longrightarrow> last (slice buf i p) = buf ! (p - 1)"
  using slice_snoc [of i "p - 1" buf] by simp

lemma slice_not_Nil: "i < p \<Longrightarrow> p \<le> length buf \<Longrightarrow> slice buf i p \<noteq> []"
  by (simp add: slice_def)

lemma slice_single: "i < length buf \<Longrightarrow> slice buf i (Suc i) = [buf ! i]"
  using slice_snoc [of i i buf] by (simp add: slice_def)

section \<open>Lemmas on version digits\<close>

lemma digit16_of_nat:
  assumes "is_digit c"
  shows "digit16 (word_of_nat n) c = word_of_nat (n * 10 + unat (c - chr CHR ''0''))"
proof -
  have c: "48 \<le> unat c" using assms by (simp add: is_digit_def word_le_nat_alt)
  then have "unat (c - chr CHR ''0'') = unat c - 48" by (simp add: unat_sub word_le_nat_alt)
  moreover have "(ucast c :: 16 word) = word_of_nat (unat c)" by simp
  ultimately show ?thesis
    using c by (simp add: digit16_def of_nat_diff)
qed

lemma foldl_digit16:
  assumes "list_all is_digit ds"
  shows "foldl digit16 (word_of_nat n) ds =
    word_of_nat (foldl (\<lambda>v c. v * 10 + unat (c - chr CHR ''0'')) n ds)"
  using assms
  by (induction ds arbitrary: n) (simp_all add: digit16_of_nat del: of_nat_add of_nat_mult)

lemma digits16_dec_val:
  assumes "list_all is_digit (d # ds)"
  shows "foldl digit16 (ucast d - 0x30) ds = word_of_nat (dec_val (d # ds))"
proof -
  have "ucast d - 0x30 = digit16 (word_of_nat 0) d" by (simp add: digit16_def)
  also have "\<dots> = word_of_nat (0 * 10 + unat (d - chr CHR ''0''))"
    using assms by (intro digit16_of_nat) simp
  finally show ?thesis
    using assms foldl_digit16 [of ds "0 * 10 + unat (d - chr CHR ''0'')"] by (simp only: dec_val_def foldl.simps list.pred_inject)
qed

lemma digit_bytes: "is_digit c \<longrightarrow> c \<notin> set (CR # LF # str '' .'')"
  by (rule byte_ballI [where c = c]) (simp add: is_digit_def)

lemma ucast_word_of_nat_16: "(ucast (word_of_nat n :: 16 word) :: ngx_uint_t) = word_of_nat (n mod 65536)"
proof -
  have "(ucast (word_of_nat n :: 16 word) :: ngx_uint_t) = word_of_nat (unat (word_of_nat n :: 16 word))"
    by simp
  then show ?thesis by (simp only: unat_of_nat) simp
qed

section \<open>Lemmas on the loop\<close>

lemma slice_feed: "j \<le> length buf \<Longrightarrow> slice (buf @ ext) i j = slice buf i j"
  by (simp add: slice_def)

lemma scan_append:
  "scan f (xs @ ys) s p = (case scan f xs s p of
      At_last s' \<Rightarrow> scan f ys s' (p + length xs)
    | e \<Rightarrow> e)"
  by (induction xs arbitrary: s p) (auto split: outcome.split loop_end.split)

lemma scan_chain: "scan f xs s p = At_last s' \<Longrightarrow> scan f (xs @ ys) s p = scan f ys s' (p + length xs)"
  by (simp add: scan_append)

lemma scan_cong:
  assumes "\<And>i s. i < length xs \<Longrightarrow> f s (p + i) (xs ! i) = g s (p + i) (xs ! i)"
  shows "scan f xs s p = scan g xs s p"
  using assms
proof (induction xs arbitrary: s p)
  case (Cons c cs)
  have "f s p c = g s p c" for s using Cons.prems [of 0 s] by simp
  moreover have "scan f cs s (Suc p) = scan g cs s (Suc p)" for s
  proof (rule Cons.IH)
    fix i s
    assume "i < length cs"
    then show "f s (Suc p + i) (cs ! i) = g s (Suc p + i) (cs ! i)"
      using Cons.prems [of "Suc i" s] by simp
  qed
  ultimately show ?case by (simp split: outcome.split)
qed simp

lemma scan_invariant:
  assumes step: "\<And>s i. I s (p + i) \<Longrightarrow> i < length xs \<Longrightarrow> case f s (p + i) (xs ! i) of
      Next s' \<Rightarrow> I s' (Suc (p + i)) | Goto l s' \<Rightarrow> G l s' (p + i) | Return rc s' \<Rightarrow> R rc s'"
    and "I s p"
  shows "case scan f xs s p of
      At_last s' \<Rightarrow> I s' (p + length xs) | At_label l s' q \<Rightarrow> G l s' q \<and> p \<le> q \<and> q < p + length xs
    | Returned rc s' \<Rightarrow> R rc s'"
  using assms
proof (induction xs arbitrary: s p)
  case (Cons c cs)
  have IH: "I s' (Suc p) \<Longrightarrow> case scan f cs s' (Suc p) of
      At_last s'' \<Rightarrow> I s'' (Suc p + length cs)
    | At_label l s'' q \<Rightarrow> G l s'' q \<and> Suc p \<le> q \<and> q < Suc p + length cs
    | Returned rc s'' \<Rightarrow> R rc s''" for s'
  proof (rule Cons.IH)
    fix s i
    assume "I s (Suc p + i)" "i < length cs"
    then show "case f s (Suc p + i) (cs ! i) of
        Next s' \<Rightarrow> I s' (Suc (Suc p + i)) | Goto l s' \<Rightarrow> G l s' (Suc p + i) | Return rc s' \<Rightarrow> R rc s'"
      using Cons.prems(1) [of s "Suc i"] by (simp split: outcome.splits)
  qed
  from Cons.prems(1) [of s 0] Cons.prems(2) show ?case
    by (auto split: outcome.splits loop_end.splits dest!: IH)
qed simp

text \<open>The interface between a parser and its callers: the body of the loop only looks at the bytes
  read so far. The callers rely on it when they append to the buffer and call again.\<close>

locale incremental_parser =
  fixes step :: "u_char list \<Rightarrow> 's \<Rightarrow> nat \<Rightarrow> u_char \<Rightarrow> 's outcome"
  assumes step_looks_back: "p < length buf \<Longrightarrow> step (buf @ ext) s p c = step buf s p c"
begin

lemma loop_extend:
  assumes "pos b \<le> last_of b"
  shows "parse_loop step (feed b ext) s = (case parse_loop step b s of
      At_last s' \<Rightarrow> parse_loop step (feed (b\<lparr>pos := last_of b\<rparr>) ext) s'
    | e \<Rightarrow> e)"
proof -
  have "scan (step (data b @ ext)) (drop (pos b) (data b)) s (pos b) =
      scan (step (data b)) (drop (pos b) (data b)) s (pos b)"
    using assms by (intro scan_cong) (auto intro: step_looks_back)
  with assms show ?thesis
    by (simp add: parse_loop_def feed_def scan_append split: loop_end.split)
qed

end

text \<open>The same interface with a property of the state and the position that the body keeps.\<close>

locale invariant_parser = incremental_parser step
  for step :: "u_char list \<Rightarrow> 's \<Rightarrow> nat \<Rightarrow> u_char \<Rightarrow> 's outcome" +
  fixes I :: "u_char list \<Rightarrow> 's \<Rightarrow> nat \<Rightarrow> bool"
    and G :: "goto_label \<Rightarrow> u_char list \<Rightarrow> 's \<Rightarrow> nat \<Rightarrow> bool"
    and R :: "ngx_int_t \<Rightarrow> bool"
  assumes step_invariant: "I buf s p \<Longrightarrow> p < length buf \<Longrightarrow> case step buf s p (buf ! p) of
      Next s' \<Rightarrow> I buf s' (Suc p) | Goto l s' \<Rightarrow> G l buf s' p | Return rc s' \<Rightarrow> R rc"
begin

lemma loop_invariant:
  assumes "pos b \<le> last_of b" "I (data b) s (pos b)"
  shows "case parse_loop step b s of
      At_last s' \<Rightarrow> I (data b) s' (last_of b)
    | At_label l s' p \<Rightarrow> G l (data b) s' p \<and> pos b \<le> p \<and> p < last_of b
    | Returned rc s' \<Rightarrow> R rc"
proof -
  have "case scan (step (data b)) (drop (pos b) (data b)) s (pos b) of
      At_last s' \<Rightarrow> I (data b) s' (pos b + length (drop (pos b) (data b)))
    | At_label l s' p \<Rightarrow> G l (data b) s' p \<and> pos b \<le> p \<and> p < pos b + length (drop (pos b) (data b))
    | Returned rc s' \<Rightarrow> R rc"
    using assms(2) by (rule scan_invariant [rotated]) (use step_invariant in simp)
  with assms(1) show ?thesis by (simp add: parse_loop_def split: loop_end.splits)
qed

end

text \<open>A whole parser: the loop, the code behind its labels (\<open>finish\<close>, with the state at the call and
  the state at the label) and what an early return leaves of the state (\<open>restore\<close>). \<open>forget\<close>
  drops the fields an unsuccessful call may leave behind in either form.\<close>

locale resumable_parser = incremental_parser step
  for step :: "u_char list \<Rightarrow> 's \<Rightarrow> nat \<Rightarrow> u_char \<Rightarrow> 's outcome" +
  fixes parse :: "'s \<Rightarrow> ngx_buf_t \<Rightarrow> ngx_int_t \<times> 's \<times> ngx_buf_t"
    and finish :: "goto_label \<Rightarrow> 's \<Rightarrow> 's \<Rightarrow> nat \<Rightarrow> ngx_int_t \<times> 's"
    and restore :: "'s \<Rightarrow> 's \<Rightarrow> 's"
    and forget :: "'s \<Rightarrow> 's"
  assumes parse_eq: "parse s b = (case parse_loop step b s of
        At_last s' \<Rightarrow> (NGX_AGAIN, s', b\<lparr>pos := last_of b\<rparr>)
      | At_label l s' p \<Rightarrow> (case finish l s s' p of (rc, s'') \<Rightarrow> (rc, s'', b\<lparr>pos := p + 1\<rparr>))
      | Returned rc s' \<Rightarrow> (rc, restore s s', b))"
    and return_code: "step buf s p c = Return rc s' \<Longrightarrow> rc \<notin> {NGX_OK, NGX_AGAIN}"
    and finish_code: "fst (finish l s s' p) \<noteq> NGX_AGAIN"
    and finish_entry: "fst (finish l s s' p) = fst (finish l t s' p)"
    and finish_ok: "fst (finish l s s' p) = NGX_OK \<Longrightarrow> finish l s s' p = finish l t s' p"
    and forget_finish: "forget (snd (finish l s s' p)) = forget (snd (finish l t s' p))"
    and forget_restore: "forget (restore s s') = forget s'"
begin

lemma loop_return_code:
  assumes "parse_loop step b s = Returned rc s'"
  shows "rc \<notin> {NGX_OK, NGX_AGAIN}"
proof -
  have "case scan (step buf) xs s p of Returned rc s' \<Rightarrow> rc \<notin> {NGX_OK, NGX_AGAIN} | _ \<Rightarrow> True"
    for buf xs and s :: 's and p
    by (induction xs arbitrary: s p) (auto split: outcome.split dest: return_code)
  from this [of "data b" "drop (pos b) (data b)" s "pos b"] assms show ?thesis
    by (simp add: parse_loop_def)
qed

lemma parse_again:
  assumes "parse s b = (NGX_AGAIN, s', b')"
  shows "parse_loop step b s = At_last s' \<and> b' = b\<lparr>pos := last_of b\<rparr>"
proof (cases "parse_loop step b s")
  case (At_label l s1 p)
  with assms finish_code [of l s s1 p] show ?thesis by (simp add: parse_eq case_prod_beta)
next
  case (Returned rc s1)
  with assms loop_return_code [of b s] show ?thesis by (auto simp: parse_eq)
qed (use assms in \<open>simp add: parse_eq\<close>)

lemma resume:
  assumes "pos b \<le> last_of b" "parse s b = (rc, s', b')"
  shows "if rc = NGX_AGAIN
    then (\<exists>rc1 s1 b1 s2 b2.
        parse s (feed b ext) = (rc1, s1, b1) \<and> parse s' (feed b' ext) = (rc1, s2, b2) \<and>
        forget s1 = forget s2 \<and> (rc1 \<in> {NGX_OK, NGX_AGAIN} \<longrightarrow> s1 = s2 \<and> b1 = b2))
    else parse s (feed b ext) = (rc, s', feed b' ext)"
proof (cases "rc = NGX_AGAIN")
  case True
  with parse_again assms(2)
  have l: "parse_loop step b s = At_last s'" and b': "b' = b\<lparr>pos := last_of b\<rparr>" by blast+
  define L where "L = parse_loop step (feed b' ext) s'"
  have L: "parse_loop step (feed b ext) s = L"
    using loop_extend [OF assms(1), of ext s] by (simp add: l b' L_def)
  have e: "last_of (feed b ext) = last_of (feed b' ext)"
    "(feed b ext)\<lparr>pos := n\<rparr> = (feed b' ext)\<lparr>pos := n\<rparr>" for n
    by (simp_all add: b' feed_def)
  show ?thesis
  proof (cases L)
    case (At_label l s1 p)
    then show ?thesis
      using True finish_entry [of l s s1 p s'] finish_ok [of l s s1 p s']
        finish_code [of l s s1 p] forget_finish [of l s s1 p s']
      by (auto simp: parse_eq L L_def [symmetric] e case_prod_beta)
  next
    case (Returned rc1 s1)
    then have "rc1 \<notin> {NGX_OK, NGX_AGAIN}" using loop_return_code L by blast
    with Returned True show ?thesis
      by (auto simp: parse_eq L L_def [symmetric] forget_restore)
  qed (use True in \<open>simp add: parse_eq L L_def [symmetric] e\<close>)
next
  case False
  then show ?thesis
    using assms(2) loop_extend [OF assms(1), of ext s]
    by (cases "parse_loop step b s") (auto simp: parse_eq feed_def case_prod_beta)
qed

end

end
