(* ===== verification/Http_Request_Line.thy ===== *)
theory Http_Request_Line
  imports Http_Core
begin

text \<open>
  \<open>ngx_http_parse_request_line\<close> of \<^verbatim>\<open>src/nginx-1.4.4/src/http/ngx_http_parse.c\<close>: one definition per
  case, or group of cases, of its \<open>switch\<close>, the body of the loop \<open>rl_step\<close> that dispatches on the
  state, and the function. The lemmas show that the function does not depend on how the input is
  cut into reads, that it finds the method and the URI of a well-formed line, and that a URI it
  does not flag as complex or quoted needs no normalisation.
\<close>

section \<open>Definitions\<close>

datatype rl_state =
    sw_start | sw_method | sw_spaces_before_uri | sw_schema | sw_schema_slash | sw_schema_slash_slash
  | sw_host_start | sw_host | sw_host_end | sw_host_ip_literal | sw_port | sw_host_http_09
  | sw_after_slash_in_uri | sw_check_uri | sw_check_uri_http_09 | sw_uri | sw_http_09
  | sw_http_H | sw_http_HT | sw_http_HTT | sw_http_HTTP
  | sw_first_major_digit | sw_major_digit | sw_first_minor_digit | sw_minor_digit
  | sw_spaces_after_digit | sw_almost_done

type_synonym rl_request = "rl_state ngx_http_request_t"

abbreviation (input) invalid_request :: "rl_request \<Rightarrow> rl_request outcome" where
  "invalid_request \<equiv> Return NGX_HTTP_PARSE_INVALID_REQUEST"

text \<open>The comparisons \<open>ngx_str3_cmp\<close> to \<open>ngx_str9cmp\<close> of the bytes at \<open>m\<close> with constants.\<close>

definition ngx_strXcmp :: "u_char list \<Rightarrow> string \<Rightarrow> bool" where
  "ngx_strXcmp m s = (take (length s) m = str s)"

text \<open>The method constant for the \<open>n = p - m\<close> bytes at \<open>m\<close>, where \<open>m\<close> runs up to \<open>p\<close> inclusive.
  Without a match \<open>r->method\<close> keeps its value.\<close>

definition rl_method :: "nat \<Rightarrow> u_char list \<Rightarrow> ngx_uint_t \<Rightarrow> ngx_uint_t" where
  "rl_method n m old =
    (if n = 3 then
       if ngx_strXcmp m ''GET '' then 0x0002
       else if ngx_strXcmp m ''PUT '' then 0x0010
       else old
     else if n = 4 then
       if m ! 1 = chr CHR ''O'' then
         if ngx_strXcmp m ''POST'' then 0x0008
         else if ngx_strXcmp m ''COPY'' then 0x0080
         else if ngx_strXcmp m ''MOVE'' then 0x0100
         else if ngx_strXcmp m ''LOCK'' then 0x1000
         else old
       else
         if ngx_strXcmp m ''HEAD'' then 0x0004 else old
     else if n = 5 then
       let v = (if ngx_strXcmp m ''MKCOL'' then 0x0040 else old);
           v = (if ngx_strXcmp m ''PATCH'' then 0x4000 else v)
       in if ngx_strXcmp m ''TRACE'' then 0x8000 else v
     else if n = 6 then
       if ngx_strXcmp m ''DELETE'' then 0x0020
       else if ngx_strXcmp m ''UNLOCK'' then 0x2000
       else old
     else if n = 7 then
       if ngx_strXcmp m ''OPTIONS '' then 0x0200 else old
     else if n = 8 then
       if ngx_strXcmp m ''PROPFIND'' then 0x0400 else old
     else if n = 9 then
       if ngx_strXcmp m ''PROPPATCH'' then 0x0800 else old
     else old)"

definition is_method_char :: "u_char \<Rightarrow> bool" where
  "is_method_char ch = (\<not> ((ch < chr CHR ''A'' \<or> ch > chr CHR ''Z'') \<and> ch \<noteq> chr CHR ''_''))"

definition rl_start :: "rl_request \<Rightarrow> nat \<Rightarrow> u_char \<Rightarrow> rl_request outcome" where
  "rl_start r p ch =
    (let r = r\<lparr>request_start := Some p\<rparr> in
     if ch = CR \<or> ch = LF then Next r
     else if \<not> is_method_char ch then Return NGX_HTTP_PARSE_INVALID_METHOD r
     else Next (r\<lparr>state := sw_method\<rparr>))"

definition rl_in_method :: "u_char list \<Rightarrow> rl_request \<Rightarrow> nat \<Rightarrow> u_char \<Rightarrow> rl_request outcome" where
  "rl_in_method buf r p ch =
    (if ch = chr CHR '' '' then
       Next (r\<lparr>method_end := Some (p - 1),
               req_method := (case request_start r of None \<Rightarrow> req_method r
                 | Some m \<Rightarrow> rl_method (p - m) (slice buf m (Suc p)) (req_method r)),
               state := sw_spaces_before_uri\<rparr>)
     else if \<not> is_method_char ch then Return NGX_HTTP_PARSE_INVALID_METHOD r
     else Next r)"

definition rl_spaces_before_uri :: "rl_request \<Rightarrow> nat \<Rightarrow> u_char \<Rightarrow> rl_request outcome" where
  "rl_spaces_before_uri r p ch =
    (if ch = chr CHR ''/'' then Next (r\<lparr>uri_start := Some p, state := sw_after_slash_in_uri\<rparr>)
     else if is_alpha ch then Next (r\<lparr>schema_start := Some p, state := sw_schema\<rparr>)
     else if ch = chr CHR '' '' then Next r
     else invalid_request r)"

definition rl_schema :: "rl_request \<Rightarrow> nat \<Rightarrow> u_char \<Rightarrow> rl_request outcome" where
  "rl_schema r p ch =
    (if is_alpha ch then Next r
     else if ch = chr CHR '':'' then Next (r\<lparr>schema_end := Some p, state := sw_schema_slash\<rparr>)
     else invalid_request r)"

text \<open>A state that expects one byte and moves on.\<close>

definition rl_expect :: "u_char \<Rightarrow> rl_state \<Rightarrow> rl_request \<Rightarrow> u_char \<Rightarrow> rl_request outcome" where
  "rl_expect c next r ch = (if ch = c then Next (r\<lparr>state := next\<rparr>) else invalid_request r)"

text \<open>\<open>uri_start = schema_end + 1\<close>, \<open>uri_end = schema_end + 2\<close>: the single slash of \<open>http://\<close>.\<close>

definition rl_slash_of_schema :: "rl_request \<Rightarrow> rl_request" where
  "rl_slash_of_schema r =
    r\<lparr>uri_start := map_option (\<lambda>e. e + 1) (schema_end r),
      uri_end := map_option (\<lambda>e. e + 2) (schema_end r),
      state := sw_host_http_09\<rparr>"

definition rl_host_end :: "rl_request \<Rightarrow> nat \<Rightarrow> u_char \<Rightarrow> rl_request outcome" where
  "rl_host_end r p ch =
    (let r = r\<lparr>host_end := Some p\<rparr> in
     if ch = chr CHR '':'' then Next (r\<lparr>state := sw_port\<rparr>)
     else if ch = chr CHR ''/'' then Next (r\<lparr>uri_start := Some p, state := sw_after_slash_in_uri\<rparr>)
     else if ch = chr CHR '' '' then Next (rl_slash_of_schema r)
     else invalid_request r)"

definition rl_host :: "rl_request \<Rightarrow> nat \<Rightarrow> u_char \<Rightarrow> rl_request outcome" where
  "rl_host r p ch =
    (if is_alpha ch then Next r
     else if is_digit ch \<or> ch = chr CHR ''.'' \<or> ch = chr CHR ''-'' then Next r
     else rl_host_end r p ch)"

definition rl_host_start :: "rl_request \<Rightarrow> nat \<Rightarrow> u_char \<Rightarrow> rl_request outcome" where
  "rl_host_start r p ch =
    (let r = r\<lparr>host_start := Some p\<rparr> in
     if ch = chr CHR ''['' then Next (r\<lparr>state := sw_host_ip_literal\<rparr>)
     else rl_host (r\<lparr>state := sw_host\<rparr>) p ch)"

definition rl_host_ip_literal :: "rl_request \<Rightarrow> u_char \<Rightarrow> rl_request outcome" where
  "rl_host_ip_literal r ch =
    (if is_digit ch then Next r
     else if is_alpha ch then Next r
     else if ch = chr CHR '':'' then Next r
     else if ch = chr CHR '']'' then Next (r\<lparr>state := sw_host_end\<rparr>)
     else if ch \<in> set (str ''-._~'') then Next r
     else if ch \<in> set (0x27 # str ''!$&()*+,;='') then Next r
     else invalid_request r)"

definition rl_port :: "rl_request \<Rightarrow> nat \<Rightarrow> u_char \<Rightarrow> rl_request outcome" where
  "rl_port r p ch =
    (if is_digit ch then Next r
     else if ch = chr CHR ''/'' then
       Next (r\<lparr>port_end := Some p, uri_start := Some p, state := sw_after_slash_in_uri\<rparr>)
     else if ch = chr CHR '' '' then Next (rl_slash_of_schema (r\<lparr>port_end := Some p\<rparr>))
     else invalid_request r)"

definition rl_host_http_09 :: "rl_request \<Rightarrow> nat \<Rightarrow> u_char \<Rightarrow> rl_request outcome" where
  "rl_host_http_09 r p ch =
    (if ch = chr CHR '' '' then Next r
     else if ch = CR then Next (r\<lparr>http_minor := 9, state := sw_almost_done\<rparr>)
     else if ch = LF then Goto label_done (r\<lparr>http_minor := 9\<rparr>)
     else if ch = chr CHR ''H'' then Next (r\<lparr>http_protocol := Some p, state := sw_http_H\<rparr>)
     else invalid_request r)"

definition rl_after_slash_in_uri :: "rl_request \<Rightarrow> nat \<Rightarrow> u_char \<Rightarrow> rl_request outcome" where
  "rl_after_slash_in_uri r p ch =
    (if tbl_bit usual ch then Next (r\<lparr>state := sw_check_uri\<rparr>)
     else if ch = chr CHR '' '' then Next (r\<lparr>uri_end := Some p, state := sw_check_uri_http_09\<rparr>)
     else if ch = CR then Next (r\<lparr>uri_end := Some p, http_minor := 9, state := sw_almost_done\<rparr>)
     else if ch = LF then Goto label_done (r\<lparr>uri_end := Some p, http_minor := 9\<rparr>)
     else if ch = chr CHR ''.'' then Next (r\<lparr>complex_uri := True, state := sw_uri\<rparr>)
     else if ch = chr CHR ''%'' then Next (r\<lparr>quoted_uri := True, state := sw_uri\<rparr>)
     else if ch = chr CHR ''/'' then Next (r\<lparr>complex_uri := True, state := sw_uri\<rparr>)
     else if ch = chr CHR ''?'' then Next (r\<lparr>args_start := Some (p + 1), state := sw_uri\<rparr>)
     else if ch = chr CHR ''#'' then Next (r\<lparr>complex_uri := True, state := sw_uri\<rparr>)
     else if ch = chr CHR ''+'' then Next (r\<lparr>plus_in_uri := True\<rparr>)
     else if ch = 0 then invalid_request r
     else Next (r\<lparr>state := sw_check_uri\<rparr>))"

definition rl_check_uri :: "rl_request \<Rightarrow> nat \<Rightarrow> u_char \<Rightarrow> rl_request outcome" where
  "rl_check_uri r p ch =
    (if tbl_bit usual ch then Next r
     else if ch = chr CHR ''/'' then Next (r\<lparr>uri_ext := NULL, state := sw_after_slash_in_uri\<rparr>)
     else if ch = chr CHR ''.'' then Next (r\<lparr>uri_ext := Some (p + 1)\<rparr>)
     else if ch = chr CHR '' '' then Next (r\<lparr>uri_end := Some p, state := sw_check_uri_http_09\<rparr>)
     else if ch = CR then Next (r\<lparr>uri_end := Some p, http_minor := 9, state := sw_almost_done\<rparr>)
     else if ch = LF then Goto label_done (r\<lparr>uri_end := Some p, http_minor := 9\<rparr>)
     else if ch = chr CHR ''%'' then Next (r\<lparr>quoted_uri := True, state := sw_uri\<rparr>)
     else if ch = chr CHR ''?'' then Next (r\<lparr>args_start := Some (p + 1), state := sw_uri\<rparr>)
     else if ch = chr CHR ''#'' then Next (r\<lparr>complex_uri := True, state := sw_uri\<rparr>)
     else if ch = chr CHR ''+'' then Next (r\<lparr>plus_in_uri := True\<rparr>)
     else if ch = 0 then invalid_request r
     else Next r)"

text \<open>The default branch sets the state and steps back (\<open>p--\<close>), so that the loop reads the same byte
  again in the new state.\<close>

definition rl_check_uri_http_09 :: "rl_request \<Rightarrow> nat \<Rightarrow> u_char \<Rightarrow> rl_request outcome" where
  "rl_check_uri_http_09 r p ch =
    (if ch = chr CHR '' '' then Next r
     else if ch = CR then Next (r\<lparr>http_minor := 9, state := sw_almost_done\<rparr>)
     else if ch = LF then Goto label_done (r\<lparr>http_minor := 9\<rparr>)
     else if ch = chr CHR ''H'' then Next (r\<lparr>http_protocol := Some p, state := sw_http_H\<rparr>)
     else rl_check_uri (r\<lparr>space_in_uri := True, state := sw_check_uri\<rparr>) p ch)"

definition rl_uri :: "rl_request \<Rightarrow> nat \<Rightarrow> u_char \<Rightarrow> rl_request outcome" where
  "rl_uri r p ch =
    (if tbl_bit usual ch then Next r
     else if ch = chr CHR '' '' then Next (r\<lparr>uri_end := Some p, state := sw_http_09\<rparr>)
     else if ch = CR then Next (r\<lparr>uri_end := Some p, http_minor := 9, state := sw_almost_done\<rparr>)
     else if ch = LF then Goto label_done (r\<lparr>uri_end := Some p, http_minor := 9\<rparr>)
     else if ch = chr CHR ''#'' then Next (r\<lparr>complex_uri := True\<rparr>)
     else if ch = 0 then invalid_request r
     else Next r)"

definition rl_http_09 :: "rl_request \<Rightarrow> nat \<Rightarrow> u_char \<Rightarrow> rl_request outcome" where
  "rl_http_09 r p ch =
    (if ch = chr CHR '' '' then Next r
     else if ch = CR then Next (r\<lparr>http_minor := 9, state := sw_almost_done\<rparr>)
     else if ch = LF then Goto label_done (r\<lparr>http_minor := 9\<rparr>)
     else if ch = chr CHR ''H'' then Next (r\<lparr>http_protocol := Some p, state := sw_http_H\<rparr>)
     else rl_uri (r\<lparr>space_in_uri := True, state := sw_uri\<rparr>) p ch)"

definition rl_first_major_digit :: "rl_request \<Rightarrow> u_char \<Rightarrow> rl_request outcome" where
  "rl_first_major_digit r ch =
    (if ch < chr CHR ''1'' \<or> ch > chr CHR ''9'' then invalid_request r
     else Next (r\<lparr>http_major := ucast ch - 0x30, state := sw_major_digit\<rparr>))"

definition rl_major_digit :: "rl_request \<Rightarrow> u_char \<Rightarrow> rl_request outcome" where
  "rl_major_digit r ch =
    (if ch = chr CHR ''.'' then Next (r\<lparr>state := sw_first_minor_digit\<rparr>)
     else if \<not> is_digit ch then invalid_request r
     else Next (r\<lparr>http_major := digit16 (http_major r) ch\<rparr>))"

definition rl_first_minor_digit :: "rl_request \<Rightarrow> u_char \<Rightarrow> rl_request outcome" where
  "rl_first_minor_digit r ch =
    (if \<not> is_digit ch then invalid_request r
     else Next (r\<lparr>http_minor := ucast ch - 0x30, state := sw_minor_digit\<rparr>))"

definition rl_minor_digit :: "rl_request \<Rightarrow> u_char \<Rightarrow> rl_request outcome" where
  "rl_minor_digit r ch =
    (if ch = CR then Next (r\<lparr>state := sw_almost_done\<rparr>)
     else if ch = LF then Goto label_done r
     else if ch = chr CHR '' '' then Next (r\<lparr>state := sw_spaces_after_digit\<rparr>)
     else if \<not> is_digit ch then invalid_request r
     else Next (r\<lparr>http_minor := digit16 (http_minor r) ch\<rparr>))"

definition rl_spaces_after_digit :: "rl_request \<Rightarrow> u_char \<Rightarrow> rl_request outcome" where
  "rl_spaces_after_digit r ch =
    (if ch = chr CHR '' '' then Next r
     else if ch = CR then Next (r\<lparr>state := sw_almost_done\<rparr>)
     else if ch = LF then Goto label_done r
     else invalid_request r)"

definition rl_almost_done :: "rl_request \<Rightarrow> nat \<Rightarrow> u_char \<Rightarrow> rl_request outcome" where
  "rl_almost_done r p ch =
    (let r = r\<lparr>request_end := Some (p - 1)\<rparr> in
     if ch = LF then Goto label_done r else invalid_request r)"

definition rl_step :: "u_char list \<Rightarrow> rl_request \<Rightarrow> nat \<Rightarrow> u_char \<Rightarrow> rl_request outcome" where
  "rl_step buf r p ch = (case state r of
      sw_start \<Rightarrow> rl_start r p ch
    | sw_method \<Rightarrow> rl_in_method buf r p ch
    | sw_spaces_before_uri \<Rightarrow> rl_spaces_before_uri r p ch
    | sw_schema \<Rightarrow> rl_schema r p ch
    | sw_schema_slash \<Rightarrow> rl_expect (chr CHR ''/'') sw_schema_slash_slash r ch
    | sw_schema_slash_slash \<Rightarrow> rl_expect (chr CHR ''/'') sw_host_start r ch
    | sw_host_start \<Rightarrow> rl_host_start r p ch
    | sw_host \<Rightarrow> rl_host r p ch
    | sw_host_end \<Rightarrow> rl_host_end r p ch
    | sw_host_ip_literal \<Rightarrow> rl_host_ip_literal r ch
    | sw_port \<Rightarrow> rl_port r p ch
    | sw_host_http_09 \<Rightarrow> rl_host_http_09 r p ch
    | sw_after_slash_in_uri \<Rightarrow> rl_after_slash_in_uri r p ch
    | sw_check_uri \<Rightarrow> rl_check_uri r p ch
    | sw_check_uri_http_09 \<Rightarrow> rl_check_uri_http_09 r p ch
    | sw_uri \<Rightarrow> rl_uri r p ch
    | sw_http_09 \<Rightarrow> rl_http_09 r p ch
    | sw_http_H \<Rightarrow> rl_expect (chr CHR ''T'') sw_http_HT r ch
    | sw_http_HT \<Rightarrow> rl_expect (chr CHR ''T'') sw_http_HTT r ch
    | sw_http_HTT \<Rightarrow> rl_expect (chr CHR ''P'') sw_http_HTTP r ch
    | sw_http_HTTP \<Rightarrow> rl_expect (chr CHR ''/'') sw_first_major_digit r ch
    | sw_first_major_digit \<Rightarrow> rl_first_major_digit r ch
    | sw_major_digit \<Rightarrow> rl_major_digit r ch
    | sw_first_minor_digit \<Rightarrow> rl_first_minor_digit r ch
    | sw_minor_digit \<Rightarrow> rl_minor_digit r ch
    | sw_spaces_after_digit \<Rightarrow> rl_spaces_after_digit r ch
    | sw_almost_done \<Rightarrow> rl_almost_done r p ch)"

text \<open>The code behind the label \<open>done\<close>.\<close>

definition rl_done :: "rl_request \<Rightarrow> nat \<Rightarrow> ngx_int_t \<times> rl_request" where
  "rl_done r p =
    (let r = (if request_end r = NULL then r\<lparr>request_end := Some p\<rparr> else r);
         r = r\<lparr>http_version := ucast (http_major r) * 1000 + ucast (http_minor r), state := sw_start\<rparr>
     in (if http_version r = 9 \<and> req_method r \<noteq> 0x0002 then NGX_HTTP_PARSE_INVALID_09_METHOD else NGX_OK, r))"

definition ngx_http_parse_request_line :: "rl_request \<Rightarrow> ngx_buf_t \<Rightarrow> ngx_int_t \<times> rl_request \<times> ngx_buf_t" where
  "ngx_http_parse_request_line r b = (case parse_loop rl_step b r of
      At_last r' \<Rightarrow> (NGX_AGAIN, r', b\<lparr>pos := last_of b\<rparr>)
    | At_label _ r' p \<Rightarrow> (let (rc, r'') = rl_done r' p in (rc, r'', b\<lparr>pos := p + 1\<rparr>))
    | Returned rc r' \<Rightarrow> (rc, r'\<lparr>state := state r\<rparr>, b))"

section \<open>Resumption\<close>

lemmas rl_step_defs =
  rl_start_def rl_in_method_def rl_spaces_before_uri_def rl_schema_def rl_expect_def
  rl_slash_of_schema_def rl_host_end_def rl_host_def rl_host_start_def rl_host_ip_literal_def rl_port_def
  rl_host_http_09_def rl_after_slash_in_uri_def rl_check_uri_def rl_check_uri_http_09_def rl_uri_def
  rl_http_09_def rl_first_major_digit_def rl_major_digit_def rl_first_minor_digit_def rl_minor_digit_def
  rl_spaces_after_digit_def rl_almost_done_def

lemma rl_step_return:
  "case rl_step buf r p ch of Next r' \<Rightarrow> True | Goto l r' \<Rightarrow> True | Return rc r' \<Rightarrow> rc \<in> {10, 11}"
  by (cases "state r") (simp_all add: rl_step_def rl_step_defs Let_def)

interpretation rl: resumable_parser rl_step ngx_http_parse_request_line "\<lambda>_ _. rl_done"
  "\<lambda>r r'. r'\<lparr>state := state r\<rparr>" "\<lambda>r. r\<lparr>state := sw_start\<rparr>"
proof unfold_locales
  fix buf ext :: "u_char list" and r p c
  assume "p < length buf"
  then show "rl_step (buf @ ext) r p c = rl_step buf r p c"
    by (simp add: rl_step_def rl_in_method_def slice_feed split: rl_state.split option.split)
next
  fix buf r p c rc r'
  assume "rl_step buf r p c = Return rc r'"
  with rl_step_return [of buf r p c] show "rc \<notin> {NGX_OK, NGX_AGAIN}" by auto
qed (simp_all add: ngx_http_parse_request_line_def rl_done_def Let_def split: loop_end.split)

text \<open>C7: the request line may arrive in any number of reads. When a call returns \<open>NGX_AGAIN\<close> and the
  caller calls again with more bytes in the buffer, the second call returns what one call on the
  whole buffer returns: the same code, the same request (up to \<open>r->state\<close>, which an early return does
  not store), and after success the same \<open>b->pos\<close>. A call that returns anything else has not looked
  at the bytes that follow.\<close>

theorem request_line_resume:
  assumes "pos b \<le> last_of b" "ngx_http_parse_request_line r b = (rc, r', b')"
  shows "if rc = NGX_AGAIN
    then (\<exists>rc1 r1 b1 r2 b2.
        ngx_http_parse_request_line r (feed b ext) = (rc1, r1, b1) \<and>
        ngx_http_parse_request_line r' (feed b' ext) = (rc1, r2, b2) \<and>
        r1\<lparr>state := sw_start\<rparr> = r2\<lparr>state := sw_start\<rparr> \<and>
        (rc1 \<in> {NGX_OK, NGX_AGAIN} \<longrightarrow> r1 = r2 \<and> b1 = b2))
    else ngx_http_parse_request_line r (feed b ext) = (rc, r', feed b' ext)"
  using assms by (rule rl.resume)

lemmas rl_eval = ngx_http_parse_request_line_def parse_loop_def rl_step_def rl_step_defs is_method_char_def
  is_alpha_def is_digit_def tbl_bit_def usual_def fresh_request_def Let_def

theorem request_line_resume_witness:
  "\<exists>r' b'. ngx_http_parse_request_line (fresh_request sw_start) \<lparr>data = str ''GET /a'', pos = 0\<rparr> =
      (NGX_AGAIN, r', b') \<and>
    (\<exists>rc1 r1 b1 r2 b2.
        ngx_http_parse_request_line (fresh_request sw_start)
          (feed \<lparr>data = str ''GET /a'', pos = 0\<rparr> (str '' HTTP/1.0'')) = (rc1, r1, b1) \<and>
        ngx_http_parse_request_line r' (feed b' (str '' HTTP/1.0'')) = (rc1, r2, b2) \<and>
        r1\<lparr>state := sw_start\<rparr> = r2\<lparr>state := sw_start\<rparr>)"
proof -
  obtain r' b' where a: "ngx_http_parse_request_line (fresh_request sw_start)
      \<lparr>data = str ''GET /a'', pos = 0\<rparr> = (NGX_AGAIN, r', b')"
    by (simp add: rl_eval)
  from request_line_resume [OF _ a, where ext = "str '' HTTP/1.0''"] a show ?thesis by auto
qed

section \<open>A well-formed request line\<close>

definition uri_states :: "rl_state set" where
  "uri_states = {sw_after_slash_in_uri, sw_check_uri, sw_uri}"

definition uri_char :: "u_char \<Rightarrow> bool" where
  "uri_char c = (c \<notin> {chr CHR '' '', CR, LF, 0})"

text \<open>What the URI states leave alone.\<close>

definition uri_frame :: "rl_request \<Rightarrow> rl_request" where
  "uri_frame r = r\<lparr>state := sw_uri, complex_uri := False, quoted_uri := False, plus_in_uri := False,
     args_start := NULL, uri_ext := NULL\<rparr>"

lemma scan_method_chars:
  assumes "state r = sw_method" "list_all is_method_char m" "list_all (\<lambda>c. c \<noteq> chr CHR '' '') m"
  shows "scan (rl_step buf) m r p = At_last r"
  using assms by (induction m arbitrary: p) (auto simp: rl_step_def rl_in_method_def)

lemma rl_step_uri_char:
  assumes "state r \<in> uri_states" "uri_char c"
  shows "\<exists>r'. rl_step buf r p c = Next r' \<and> state r' \<in> uri_states \<and> uri_frame r' = uri_frame r"
  using assms
  by (auto simp: uri_states_def uri_char_def uri_frame_def rl_step_def rl_after_slash_in_uri_def
      rl_check_uri_def rl_uri_def)

lemma scan_uri_chars:
  assumes "state r \<in> uri_states" "list_all uri_char u"
  shows "\<exists>r'. scan (rl_step buf) u r p = At_last r' \<and> state r' \<in> uri_states \<and> uri_frame r' = uri_frame r"
  using assms
proof (induction u arbitrary: r p)
  case (Cons c u)
  from rl_step_uri_char [of r c buf p] Cons.prems obtain r' where
    r': "rl_step buf r p c = Next r'" "state r' \<in> uri_states" "uri_frame r' = uri_frame r" by auto
  with Cons.IH [of r' "Suc p"] Cons.prems show ?case by auto
qed auto

lemma scan_major_digits:
  assumes "state r = sw_major_digit" "list_all is_digit ds"
  shows "scan (rl_step buf) ds r p = At_last (r\<lparr>http_major := foldl digit16 (http_major r) ds\<rparr>)"
  using assms
proof (induction ds arbitrary: r p)
  case (Cons d ds)
  then have "rl_step buf r p d = Next (r\<lparr>http_major := digit16 (http_major r) d\<rparr>)"
    using digit_bytes [of d] by (simp add: rl_step_def rl_major_digit_def)
  with Cons show ?case by simp
qed simp

lemma scan_minor_digits:
  assumes "state r = sw_minor_digit" "list_all is_digit ds"
  shows "scan (rl_step buf) ds r p = At_last (r\<lparr>http_minor := foldl digit16 (http_minor r) ds\<rparr>)"
  using assms
proof (induction ds arbitrary: r p)
  case (Cons d ds)
  then have "rl_step buf r p d = Next (r\<lparr>http_minor := digit16 (http_minor r) d\<rparr>)"
    using digit_bytes [of d] by (simp add: rl_step_def rl_minor_digit_def)
  with Cons show ?case by simp
qed simp

definition method_table :: "(u_char list \<times> ngx_uint_t) list" where
  "method_table = [(str ''GET'', 0x0002), (str ''HEAD'', 0x0004), (str ''POST'', 0x0008),
     (str ''PUT'', 0x0010), (str ''DELETE'', 0x0020), (str ''MKCOL'', 0x0040), (str ''COPY'', 0x0080),
     (str ''MOVE'', 0x0100), (str ''OPTIONS'', 0x0200), (str ''PROPFIND'', 0x0400),
     (str ''PROPPATCH'', 0x0800), (str ''LOCK'', 0x1000), (str ''UNLOCK'', 0x2000),
     (str ''PATCH'', 0x4000), (str ''TRACE'', 0x8000)]"

definition method_of :: "u_char list \<Rightarrow> ngx_uint_t \<Rightarrow> ngx_uint_t" where
  "method_of m old = (case map_of method_table m of Some v \<Rightarrow> v | None \<Rightarrow> old)"

lemma ngx_strXcmp_exact: "length m = length s \<Longrightarrow> ngx_strXcmp (m @ rest) s \<longleftrightarrow> m = str s"
  by (simp add: ngx_strXcmp_def)

lemma ngx_strXcmp_space: "length m = length s \<Longrightarrow> ngx_strXcmp (m @ str '' '') (s @ '' '') \<longleftrightarrow> m = str s"
  by (simp add: ngx_strXcmp_def)

lemma map_of_length: "map_of xs m = map_of (filter (\<lambda>(k, v). length k = length m) xs) m"
  by (induction xs) auto

lemma method_of_length:
  "method_of m old = (case map_of (filter (\<lambda>(k, v). length k = length m) method_table) m of
     Some v \<Rightarrow> v | None \<Rightarrow> old)"
  unfolding method_of_def by (subst map_of_length) (rule refl)

lemma rl_method_table: "rl_method (length m) (m @ str '' '') old = method_of m old"
proof -
  note defs = rl_method_def method_of_length method_table_def
  consider "length m = 3" | "length m = 4" | "length m = 5" | "length m = 6" | "length m = 7"
    | "length m = 8" | "length m = 9" | "length m \<notin> {3, 4, 5, 6, 7, 8, 9}" by auto
  then show ?thesis
  proof cases
    case 1
    then show ?thesis
      using ngx_strXcmp_space [of m "''GET''"] ngx_strXcmp_space [of m "''PUT''"] by (simp add: defs)
  next
    case 2
    then have "(m @ str '' '') ! 1 = m ! 1" by (simp add: nth_append)
    with 2 show ?thesis by (auto simp: defs ngx_strXcmp_exact)
  next
    case 5
    then show ?thesis using ngx_strXcmp_space [of m "''OPTIONS''"] by (simp add: defs)
  qed (simp_all add: defs ngx_strXcmp_exact Let_def)
qed

lemma method_bytes: "is_method_char c \<longrightarrow> c \<notin> set (CR # LF # str '' '')"
  by (rule byte_ballI [where c = c]) (simp add: is_method_char_def)

lemma scan_method:
  assumes "state r = sw_start" "list_all is_method_char m" "m \<noteq> []"
  shows "scan (rl_step (m @ str '' '' @ rest)) (m @ str '' '') r 0 =
    At_last (r\<lparr>request_start := Some 0, method_end := Some (length m - 1),
      req_method := method_of m (req_method r), state := sw_spaces_before_uri\<rparr>)"
proof -
  obtain c cs where m: "m = c # cs" using assms(3) by (cases m) auto
  let ?f = "rl_step (m @ str '' '' @ rest)"
  let ?r = "r\<lparr>request_start := Some 0, state := sw_method\<rparr>"
  have "?f r 0 c = Next ?r"
    using assms m method_bytes [of c] by (simp add: rl_step_def rl_start_def)
  moreover have "scan ?f cs ?r (Suc 0) = At_last ?r"
    using assms m method_bytes by (intro scan_method_chars) (auto simp: list_all_iff)
  moreover have "slice (m @ str '' '' @ rest) 0 (Suc (length m)) = m @ str '' ''"
    by (simp add: slice_def)
  then have "?f ?r (length m) (chr CHR '' '') = Next (?r\<lparr>method_end := Some (length m - 1),
      req_method := method_of m (req_method r), state := sw_spaces_before_uri\<rparr>)"
    using rl_method_table [of m] by (simp add: rl_step_def rl_in_method_def)
  ultimately show ?thesis
    by (simp add: m scan_append)
qed

lemma scan_uri:
  assumes "state r = sw_spaces_before_uri" "list_all uri_char u"
  shows "\<exists>r'. scan (rl_step buf) (str ''/'' @ u @ str '' HTTP/'') r p = At_last r' \<and>
    state r' = sw_first_major_digit \<and>
    uri_frame r' = (uri_frame r)\<lparr>uri_start := Some p, uri_end := Some (p + 1 + length u),
      http_protocol := Some (p + 2 + length u)\<rparr>"
proof -
  let ?r = "r\<lparr>uri_start := Some p, state := sw_after_slash_in_uri\<rparr>"
  have "rl_step buf r p (chr CHR ''/'') = Next ?r"
    using assms by (simp add: rl_step_def rl_spaces_before_uri_def)
  moreover obtain r1 where r1: "scan (rl_step buf) u ?r (Suc p) = At_last r1" "state r1 \<in> uri_states"
      "uri_frame r1 = uri_frame ?r"
    using scan_uri_chars [of ?r u buf "Suc p"] assms(2) by (auto simp: uri_states_def)
  moreover obtain r2 where r2: "scan (rl_step buf) (str '' HTTP/'') r1 (Suc p + length u) = At_last r2"
      "state r2 = sw_first_major_digit"
      "r2 = r1\<lparr>uri_end := Some (Suc p + length u), http_protocol := Some (p + 2 + length u),
         state := sw_first_major_digit\<rparr>"
    using r1(2) usual_bytes [of "chr CHR '' ''"]
    by (auto simp: uri_states_def rl_step_def rl_after_slash_in_uri_def rl_check_uri_def rl_uri_def
        rl_check_uri_http_09_def rl_http_09_def rl_expect_def)
  moreover have "uri_frame r2 = (uri_frame r1)\<lparr>uri_end := Some (Suc p + length u),
      http_protocol := Some (p + 2 + length u)\<rparr>"
    by (simp add: r2(3) uri_frame_def)
  moreover have "uri_frame ?r = (uri_frame r)\<lparr>uri_start := Some p\<rparr>" by (simp add: uri_frame_def)
  ultimately show ?thesis by (simp add: scan_append)
qed

lemma scan_version:
  assumes "state r = sw_first_major_digit" "list_all is_digit (d # ds)" "d \<noteq> chr CHR ''0''"
    "list_all is_digit (e # es)"
  shows "scan (rl_step buf) ((d # ds) @ str ''.'' @ (e # es) @ [CR, LF] @ rest) r p =
    At_label label_done (r\<lparr>http_major := word_of_nat (dec_val (d # ds)),
        http_minor := word_of_nat (dec_val (e # es)), state := sw_almost_done,
        request_end := Some (p + length ds + length es + 3)\<rparr>)
      (p + length ds + length es + 4)"
proof -
  have d: "d \<ge> chr CHR ''1''" "\<not> chr CHR ''9'' < d"
  proof -
    have "is_digit d \<and> d \<noteq> chr CHR ''0'' \<longrightarrow> d \<ge> chr CHR ''1'' \<and> \<not> chr CHR ''9'' < d"
      by (rule byte_ballI [where c = d]) (simp add: is_digit_def)
    with assms show "d \<ge> chr CHR ''1''" "\<not> chr CHR ''9'' < d" by auto
  qed
  let ?r1 = "r\<lparr>http_major := word_of_nat (dec_val (d # ds)), state := sw_major_digit\<rparr>"
  have "scan (rl_step buf) (d # ds) r p = At_last ?r1"
    using assms d digits16_dec_val [of d ds]
    by (simp add: rl_step_def rl_first_major_digit_def scan_major_digits not_less)
  moreover have "scan (rl_step buf) (str ''.'' @ e # es) ?r1 (p + length (d # ds)) =
      At_last (?r1\<lparr>http_minor := word_of_nat (dec_val (e # es)), state := sw_minor_digit\<rparr>)"
    using assms digits16_dec_val [of e es]
    by (simp add: rl_step_def rl_major_digit_def rl_first_minor_digit_def scan_minor_digits)
  moreover have "scan (rl_step buf) ([CR, LF] @ rest)
      (?r1\<lparr>http_minor := word_of_nat (dec_val (e # es)), state := sw_minor_digit\<rparr>)
      (p + length (d # ds) + length (str ''.'' @ e # es)) =
    At_label label_done (?r1\<lparr>http_minor := word_of_nat (dec_val (e # es)), state := sw_almost_done,
        request_end := Some (p + length ds + length es + 3)\<rparr>)
      (p + length ds + length es + 4)"
    by (simp add: rl_step_def rl_minor_digit_def rl_almost_done_def)
  ultimately show ?thesis
    using scan_append [of "rl_step buf" "d # ds" "str ''.'' @ (e # es) @ [CR, LF] @ rest" r p]
      scan_append [of "rl_step buf" "str ''.'' @ e # es" "[CR, LF] @ rest" ?r1 "p + length (d # ds)"]
    by simp
qed

lemma version_word:
  "(word_of_nat (a mod 65536) * 1000 + word_of_nat (b mod 65536) :: ngx_uint_t) = 9 \<longleftrightarrow>
    a mod 65536 * 1000 + b mod 65536 = 9"
proof -
  define n where "n = a mod 65536 * 1000 + b mod 65536"
  have "n < 2 ^ 63"
    using mod_less_divisor [of 65536 a] mod_less_divisor [of 65536 b] by (simp add: n_def)
  then have n: "unat (word_of_nat n :: ngx_uint_t) = n" by (rule unat_word_of_nat_64)
  have w: "(word_of_nat (a mod 65536) * 1000 + word_of_nat (b mod 65536) :: ngx_uint_t) = word_of_nat n"
    by (simp add: n_def)
  have "unat (9 :: ngx_uint_t) = 9" by simp
  with n show ?thesis by (simp only: w n_def [symmetric] word_unat_eq_iff)
qed

text \<open>C8: on a line made of a method, a URI that starts with a slash and holds no space, control
  separator or NUL, and an HTTP version, the parser consumes the line, points at exactly the method
  and the URI, recognises the fifteen known methods, and computes the version from the digits, each
  part modulo 65536. The return code is \<open>NGX_OK\<close>, or \<open>NGX_HTTP_PARSE_INVALID_09_METHOD\<close> when the
  version comes out as 9 and the method is not \<open>GET\<close>.\<close>

theorem request_line_wellformed:
  assumes "m \<noteq> []" "list_all is_method_char m" "list_all uri_char u"
    and "list_all is_digit maj" "maj \<noteq> []" "hd maj \<noteq> chr CHR ''0''"
    and "list_all is_digit mnr" "mnr \<noteq> []"
    and "state r = sw_start"
    and line: "line = m @ str '' /'' @ u @ str '' HTTP/'' @ maj @ str ''.'' @ mnr"
  shows "\<exists>r'. ngx_http_parse_request_line r \<lparr>data = line @ [CR, LF] @ rest, pos = 0\<rparr> =
      (if dec_val maj mod 65536 * 1000 + dec_val mnr mod 65536 = 9 \<and> method_of m (req_method r) \<noteq> 0x0002
       then NGX_HTTP_PARSE_INVALID_09_METHOD else NGX_OK,
       r', \<lparr>data = line @ [CR, LF] @ rest, pos = length line + 2\<rparr>) \<and>
    request_start r' = Some 0 \<and> request_end r' = Some (length line) \<and>
    method_end r' = Some (length m - 1) \<and> req_method r' = method_of m (req_method r) \<and>
    uri_start r' = Some (length m + 1) \<and> uri_end r' = Some (length m + 2 + length u) \<and>
    slice line (length m + 1) (length m + 2 + length u) = str ''/'' @ u \<and>
    http_version r' = word_of_nat (dec_val maj mod 65536 * 1000 + dec_val mnr mod 65536) \<and>
    state r' = sw_start"
proof -
  obtain d ds e es where v: "maj = d # ds" "mnr = e # es" using assms(5,8) by (cases maj; cases mnr) auto
  define buf where "buf = line @ [CR, LF] @ rest"
  define r1 where "r1 = r\<lparr>request_start := Some 0, method_end := Some (length m - 1),
      req_method := method_of m (req_method r), state := sw_spaces_before_uri\<rparr>"
  have 1: "scan (rl_step buf) (m @ str '' '') r 0 = At_last r1"
    unfolding buf_def r1_def line using scan_method [OF assms(9,2,1)] by simp
  obtain r2 where 2: "scan (rl_step buf) (str ''/'' @ u @ str '' HTTP/'') r1 (length m + 1) = At_last r2"
      "state r2 = sw_first_major_digit"
      "uri_frame r2 = (uri_frame r1)\<lparr>uri_start := Some (length m + 1), uri_end := Some (length m + 1 + 1 + length u),
         http_protocol := Some (length m + 1 + 2 + length u)\<rparr>"
    using scan_uri [of r1 u buf "length m + 1"] assms(3) by (auto simp: r1_def)
  let ?p = "length m + 8 + length u"
  let ?r3 = "r2\<lparr>http_major := word_of_nat (dec_val maj), http_minor := word_of_nat (dec_val mnr),
      state := sw_almost_done, request_end := Some (?p + length ds + length es + 3)\<rparr>"
  have 3: "scan (rl_step buf) (maj @ str ''.'' @ mnr @ [CR, LF] @ rest) r2 ?p =
      At_label label_done ?r3 (?p + length ds + length es + 4)"
    unfolding v by (rule scan_version) (use 2(2) assms(4,6,7) v in simp_all)
  let ?A = "m @ str '' ''" and ?B = "str ''/'' @ u @ str '' HTTP/''" and ?C = "maj @ str ''.'' @ mnr @ [CR, LF] @ rest"
  have "scan (rl_step buf) (?A @ ?B @ ?C) r 0 = scan (rl_step buf) (?B @ ?C) r1 (0 + length ?A)"
    by (rule scan_chain [OF 1])
  also have "0 + length ?A = length m + 1" by simp
  also have "scan (rl_step buf) (?B @ ?C) r1 (length m + 1) = scan (rl_step buf) ?C r2 (length m + 1 + length ?B)"
    by (rule scan_chain [OF 2(1)])
  also have "length m + 1 + length ?B = ?p" by simp
  also note 3
  also have "?A @ ?B @ ?C = buf" by (simp add: buf_def line)
  finally have "parse_loop rl_step \<lparr>data = buf, pos = 0\<rparr> r = At_label label_done ?r3 (?p + length ds + length es + 4)"
    by (simp add: parse_loop_def)
  moreover have "request_start r2 = Some 0" "method_end r2 = Some (length m - 1)"
      "req_method r2 = method_of m (req_method r)" "uri_start r2 = Some (length m + 1)"
      "uri_end r2 = Some (length m + 2 + length u)"
    using arg_cong [OF 2(3), of request_start] arg_cong [OF 2(3), of method_end]
      arg_cong [OF 2(3), of req_method] arg_cong [OF 2(3), of uri_start] arg_cong [OF 2(3), of uri_end]
    by (simp_all add: uri_frame_def r1_def)
  moreover have "length line = ?p + length ds + length es + 3" by (simp add: line v)
  moreover have "slice line (length m + 1) (length m + 2 + length u) = str ''/'' @ u"
    by (simp add: line slice_def)
  ultimately show ?thesis
    unfolding ngx_http_parse_request_line_def buf_def [symmetric]
    by (simp add: rl_done_def Let_def ucast_word_of_nat_16 version_word)
qed

theorem request_line_wellformed_witness:
  "\<exists>r'. ngx_http_parse_request_line (fresh_request sw_start)
      \<lparr>data = str ''POST /a?b HTTP/1.1'' @ [CR, LF] @ str ''Host'', pos = 0\<rparr> =
      (NGX_OK, r', \<lparr>data = str ''POST /a?b HTTP/1.1'' @ [CR, LF] @ str ''Host'',
         pos = length (str ''POST /a?b HTTP/1.1'') + 2\<rparr>) \<and>
    req_method r' = 8 \<and> uri_start r' = Some (length (str ''POST'') + 1) \<and> http_version r' = 1001"
proof -
  have d: "dec_val (str ''1'') = 1" by (simp add: dec_val_def)
  have m: "method_of (str ''POST'') (req_method (fresh_request sw_start)) = 8"
    by (simp add: method_of_def method_table_def)
  show ?thesis
    using request_line_wellformed [of "str ''POST''" "str ''a?b''" "str ''1''" "str ''1''"
        "fresh_request sw_start" "str ''POST /a?b HTTP/1.1''" "str ''Host''"] d m
    by (auto simp: is_method_char_def uri_char_def is_digit_def fresh_request_def)
qed

text \<open>The version fields have 16 bits and the digits are not bounded, so that a version whose
  number wraps is taken for another one: \<open>HTTP/65537.1\<close> for HTTP/1.1.\<close>

lemma request_line_version_wraps:
  "\<exists>r' b'. ngx_http_parse_request_line (fresh_request sw_start)
      \<lparr>data = str ''GET / HTTP/65537.1'' @ [LF], pos = 0\<rparr> = (NGX_OK, r', b') \<and> http_version r' = 1001"
  by (simp add: rl_eval rl_done_def digit16_def)

section \<open>URIs that need no normalisation\<close>

text \<open>A path without an escape, a fragment, a doubled slash and a dot segment.\<close>

fun plain_path :: "u_char list \<Rightarrow> bool" where
  "plain_path [] = True"
| "plain_path [c] = (c \<noteq> chr CHR ''%'' \<and> c \<noteq> chr CHR ''#'')"
| "plain_path (c # d # s) = (c \<noteq> chr CHR ''%'' \<and> c \<noteq> chr CHR ''#'' \<and>
     \<not> (c = chr CHR ''/'' \<and> (d = chr CHR ''/'' \<or> d = chr CHR ''.'')) \<and> plain_path (d # s))"

definition unflagged :: "rl_request \<Rightarrow> bool" where
  "unflagged r = (\<not> complex_uri r \<and> \<not> quoted_uri r)"

text \<open>The path of the request when the URI ends at \<open>e\<close>: it stops before the \<open>?\<close>.\<close>

definition uri_ok :: "u_char list \<Rightarrow> rl_request \<Rightarrow> nat \<Rightarrow> bool" where
  "uri_ok buf r e = (case uri_start r of None \<Rightarrow> False | Some us \<Rightarrow> us < e \<and> buf ! us = chr CHR ''/'' \<and>
     (case args_start r of
        None \<Rightarrow> unflagged r \<longrightarrow> plain_path (slice buf us e)
      | Some a \<Rightarrow> us < a \<and> a \<le> e \<and> buf ! (a - 1) = chr CHR ''?'' \<and> (unflagged r \<longrightarrow> plain_path (slice buf us (a - 1)))))"

definition uri_ended :: "u_char list \<Rightarrow> rl_request \<Rightarrow> nat \<Rightarrow> bool" where
  "uri_ended buf r p = (case uri_end r of None \<Rightarrow> False | Some q \<Rightarrow> q \<le> p \<and> uri_ok buf r q)"

definition schema_slash :: "u_char list \<Rightarrow> rl_request \<Rightarrow> nat \<Rightarrow> bool" where
  "schema_slash buf r p = (case schema_end r of None \<Rightarrow> False
     | Some e \<Rightarrow> e + 2 \<le> p \<and> buf ! (e + 1) = chr CHR ''/'')"

definition rl_inv :: "u_char list \<Rightarrow> rl_request \<Rightarrow> nat \<Rightarrow> bool" where
  "rl_inv buf r p = (case state r of
      sw_start \<Rightarrow> args_start r = NULL
    | sw_method \<Rightarrow> args_start r = NULL
    | sw_spaces_before_uri \<Rightarrow> args_start r = NULL
    | sw_schema \<Rightarrow> args_start r = NULL
    | sw_schema_slash \<Rightarrow> args_start r = NULL \<and> (\<exists>e. schema_end r = Some e \<and> p = e + 1)
    | sw_schema_slash_slash \<Rightarrow> args_start r = NULL \<and> schema_slash buf r p
    | sw_host_start \<Rightarrow> args_start r = NULL \<and> schema_slash buf r p
    | sw_host \<Rightarrow> args_start r = NULL \<and> schema_slash buf r p
    | sw_host_end \<Rightarrow> args_start r = NULL \<and> schema_slash buf r p
    | sw_host_ip_literal \<Rightarrow> args_start r = NULL \<and> schema_slash buf r p
    | sw_port \<Rightarrow> args_start r = NULL \<and> schema_slash buf r p
    | sw_after_slash_in_uri \<Rightarrow> args_start r = NULL \<and> uri_ok buf r p
    | sw_check_uri \<Rightarrow> args_start r = NULL \<and> uri_ok buf r p \<and> buf ! (p - 1) \<noteq> chr CHR ''/''
    | sw_check_uri_http_09 \<Rightarrow> args_start r = NULL \<and> uri_ok buf r p \<and> buf ! (p - 1) \<noteq> chr CHR ''/'' \<and>
        uri_ended buf r p
    | sw_uri \<Rightarrow> uri_ok buf r p \<and> (args_start r = NULL \<longrightarrow> \<not> unflagged r)
    | sw_http_09 \<Rightarrow> uri_ok buf r p \<and> (args_start r = NULL \<longrightarrow> \<not> unflagged r) \<and> uri_ended buf r p
    | _ \<Rightarrow> uri_ended buf r p)"

lemma plain_path_snoc:
  "plain_path (s @ [c]) \<longleftrightarrow> plain_path s \<and> c \<noteq> chr CHR ''%'' \<and> c \<noteq> chr CHR ''#'' \<and>
     (s = [] \<or> last s \<noteq> chr CHR ''/'' \<or> c \<noteq> chr CHR ''/'' \<and> c \<noteq> chr CHR ''.'')"
  by (induction s rule: plain_path.induct) auto

lemma plain_path_step:
  assumes "i < p" "p < length buf"
  shows "plain_path (slice buf i (Suc p)) \<longleftrightarrow> plain_path (slice buf i p) \<and>
    buf ! p \<noteq> chr CHR ''%'' \<and> buf ! p \<noteq> chr CHR ''#'' \<and>
    (buf ! (p - 1) \<noteq> chr CHR ''/'' \<or> buf ! p \<noteq> chr CHR ''/'' \<and> buf ! p \<noteq> chr CHR ''.'')"
  using assms by (simp add: slice_snoc slice_last slice_not_Nil plain_path_snoc)

lemmas rl_inv_defs = rl_inv_def uri_ok_def uri_ended_def unflagged_def schema_slash_def

abbreviation (input) rl_keeps :: "u_char list \<Rightarrow> nat \<Rightarrow> rl_request outcome \<Rightarrow> bool" where
  "rl_keeps buf p out \<equiv> (case out of Next r' \<Rightarrow> rl_inv buf r' (Suc p)
     | Goto l r' \<Rightarrow> uri_ended buf r' p | Return rc r' \<Rightarrow> True)"

lemma rl_check_uri_inv:
  assumes "state r = sw_check_uri" "rl_inv buf r p" "p < length buf"
  shows "rl_keeps buf p (rl_check_uri r p (buf ! p))"
  using assms usual_bytes [of "buf ! p"]
  by (auto simp: rl_check_uri_def rl_inv_defs plain_path_step split: option.splits)

lemma rl_uri_inv:
  assumes "state r = sw_uri" "rl_inv buf r p" "p < length buf"
  shows "rl_keeps buf p (rl_uri r p (buf ! p))"
  using assms usual_bytes [of "buf ! p"]
  by (auto simp: rl_uri_def rl_inv_defs plain_path_step split: option.splits)

lemma rl_after_slash_inv:
  assumes "state r = sw_after_slash_in_uri" "rl_inv buf r p" "p < length buf"
  shows "rl_keeps buf p (rl_after_slash_in_uri r p (buf ! p))"
  using assms usual_bytes [of "buf ! p"]
  by (auto simp: rl_after_slash_in_uri_def rl_inv_defs plain_path_step split: option.splits)

lemma rl_check_uri_http_09_inv:
  assumes "state r = sw_check_uri_http_09" "rl_inv buf r p" "p < length buf"
  shows "rl_keeps buf p (rl_check_uri_http_09 r p (buf ! p))"
proof (cases "buf ! p \<in> set (CR # LF # str '' H'')")
  case True
  with assms show ?thesis
    by (auto simp: rl_check_uri_http_09_def rl_inv_defs plain_path_step split: option.splits)
next
  case False
  let ?r = "r\<lparr>space_in_uri := True, state := sw_check_uri\<rparr>"
  have "rl_inv buf ?r p" using assms(1,2) by (simp add: rl_inv_defs split: option.splits)
  with rl_check_uri_inv [of ?r buf p] assms(3) False show ?thesis
    by (simp add: rl_check_uri_http_09_def)
qed

lemma rl_http_09_inv:
  assumes "state r = sw_http_09" "rl_inv buf r p" "p < length buf"
  shows "rl_keeps buf p (rl_http_09 r p (buf ! p))"
proof (cases "buf ! p \<in> set (CR # LF # str '' H'')")
  case True
  with assms show ?thesis
    by (auto simp: rl_http_09_def rl_inv_defs split: option.splits)
next
  case False
  let ?r = "r\<lparr>space_in_uri := True, state := sw_uri\<rparr>"
  have "rl_inv buf ?r p" using assms(1,2) by (simp add: rl_inv_defs split: option.splits)
  with rl_uri_inv [of ?r buf p] assms(3) False show ?thesis
    by (simp add: rl_http_09_def)
qed

lemma plain_slash: "i < length buf \<Longrightarrow> buf ! i = chr CHR ''/'' \<Longrightarrow> plain_path (slice buf i (Suc i))"
  by (simp add: slice_single)

lemma rl_slash_of_schema_inv:
  assumes "args_start r = NULL" "schema_slash buf r p" "p < length buf"
  shows "rl_inv buf (rl_slash_of_schema r) (Suc p)"
  using assms plain_slash [of _ buf]
  by (auto simp: rl_slash_of_schema_def rl_inv_defs split: option.splits)

lemma rl_uri_start_inv:
  assumes "args_start r = NULL" "p < length buf" "buf ! p = chr CHR ''/''"
    "uri_start r = Some p" "state r = sw_after_slash_in_uri"
  shows "rl_inv buf r (Suc p)"
  using assms plain_slash [of p buf] by (simp add: rl_inv_defs)

lemma rl_host_end_inv:
  assumes "state r = sw_host \<or> state r = sw_host_end" "args_start r = NULL" "schema_slash buf r p" "p < length buf"
  shows "rl_keeps buf p (rl_host_end r p (buf ! p))"
  using assms rl_slash_of_schema_inv [of "r\<lparr>host_end := Some p\<rparr>" buf p]
    rl_uri_start_inv [of "r\<lparr>host_end := Some p, uri_start := Some p, state := sw_after_slash_in_uri\<rparr>" p buf]
  by (auto simp: rl_host_end_def Let_def rl_inv_def schema_slash_def split: option.splits)

lemma rl_host_inv:
  assumes "state r = sw_host" "args_start r = NULL" "schema_slash buf r p" "p < length buf"
  shows "rl_keeps buf p (rl_host r p (buf ! p))"
  using assms rl_host_end_inv [of r buf p]
  by (auto simp: rl_host_def rl_inv_def schema_slash_def split: option.splits)

lemma rl_host_start_inv:
  assumes "state r = sw_host_start" "args_start r = NULL" "schema_slash buf r p" "p < length buf"
  shows "rl_keeps buf p (rl_host_start r p (buf ! p))"
  using assms rl_host_inv [of "r\<lparr>host_start := Some p, state := sw_host\<rparr>" buf p]
  by (auto simp: rl_host_start_def Let_def rl_inv_def schema_slash_def split: option.splits)

lemma rl_port_inv:
  assumes "state r = sw_port" "args_start r = NULL" "schema_slash buf r p" "p < length buf"
  shows "rl_keeps buf p (rl_port r p (buf ! p))"
  using assms rl_slash_of_schema_inv [of "r\<lparr>port_end := Some p\<rparr>" buf p]
    rl_uri_start_inv [of "r\<lparr>port_end := Some p, uri_start := Some p, state := sw_after_slash_in_uri\<rparr>" p buf]
  by (auto simp: rl_port_def rl_inv_def schema_slash_def split: option.splits)

lemma rl_step_inv:
  assumes "rl_inv buf r p" "p < length buf"
  shows "rl_keeps buf p (rl_step buf r p (buf ! p))"
proof (cases "state r")
  case sw_spaces_before_uri
  with assms show ?thesis
    using rl_uri_start_inv [of "r\<lparr>uri_start := Some p, state := sw_after_slash_in_uri\<rparr>" p buf]
    by (auto simp: rl_step_def rl_spaces_before_uri_def rl_inv_def)
qed (use assms rl_check_uri_inv rl_uri_inv rl_after_slash_inv rl_check_uri_http_09_inv rl_http_09_inv
    rl_host_start_inv rl_host_inv rl_host_end_inv rl_port_inv in
  \<open>auto simp: rl_step_def rl_start_def rl_in_method_def rl_schema_def rl_expect_def
    rl_host_ip_literal_def rl_host_http_09_def rl_first_major_digit_def rl_major_digit_def
    rl_first_minor_digit_def rl_minor_digit_def rl_spaces_after_digit_def rl_almost_done_def Let_def
    rl_inv_defs split: option.splits\<close>)

interpretation rl_uri: invariant_parser rl_step rl_inv "\<lambda>_. uri_ended" "\<lambda>_. True"
  by unfold_locales (use rl_step_inv in simp)

lemma request_line_uri:
  assumes "pos b \<le> last_of b" "state r = sw_start" "args_start r = NULL"
    and "ngx_http_parse_request_line r b = (NGX_OK, r', b')"
  shows "\<exists>us ue. uri_start r' = Some us \<and> uri_end r' = Some ue \<and> us < ue \<and> ue < pos b' \<and> pos b' \<le> last_of b \<and>
    data b ! us = chr CHR ''/'' \<and>
    (case args_start r' of
       None \<Rightarrow> \<not> complex_uri r' \<and> \<not> quoted_uri r' \<longrightarrow> plain_path (slice (data b) us ue)
     | Some a \<Rightarrow> us < a \<and> a \<le> ue \<and> data b ! (a - 1) = chr CHR ''?'' \<and>
         (\<not> complex_uri r' \<and> \<not> quoted_uri r' \<longrightarrow> plain_path (slice (data b) us (a - 1))))"
proof -
  obtain l r1 p where l: "parse_loop rl_step b r = At_label l r1 p"
      and r': "snd (rl_done r1 p) = r'" "b' = b\<lparr>pos := p + 1\<rparr>"
    using assms(4) rl.loop_return_code [of b r]
    by (auto simp: ngx_http_parse_request_line_def split: loop_end.splits prod.splits)
  have "rl_inv (data b) r (pos b)" using assms(2,3) by (simp add: rl_inv_def)
  from rl_uri.loop_invariant [OF assms(1) this] l
  have p: "uri_ended (data b) r1 p" "p < last_of b" by simp_all
  have "uri_start r' = uri_start r1" "uri_end r' = uri_end r1" "args_start r' = args_start r1"
    "complex_uri r' = complex_uri r1" "quoted_uri r' = quoted_uri r1"
    using r'(1) by (auto simp: rl_done_def Let_def split: if_splits)
  with p r'(2) show ?thesis
    by (auto simp: uri_ended_def uri_ok_def unflagged_def split: option.splits)
qed

text \<open>C6: when the request line has been parsed, the pointers into it are in order (\<open>uri_start < uri_end\<close>, the
  URI starts with a slash, and a query starts between them behind a question mark), and a request that is neither flagged \<open>complex_uri\<close> nor
  \<open>quoted_uri\<close>, whose path is therefore used as it stands, has a path without \<open>%\<close>, \<open>#\<close>, \<open>//\<close> and
  \<open>/.\<close>, whatever spaces the line contains.\<close>

theorem request_line_unflagged_path:
  assumes "pos b \<le> last_of b" "state r = sw_start" "args_start r = NULL"
    and "ngx_http_parse_request_line r b = (NGX_OK, r', b')"
  shows "\<exists>us ue. uri_start r' = Some us \<and> uri_end r' = Some ue \<and> us < ue \<and> ue < pos b' \<and> pos b' \<le> last_of b \<and>
    data b ! us = chr CHR ''/'' \<and>
    (case args_start r' of
       None \<Rightarrow> \<not> complex_uri r' \<and> \<not> quoted_uri r' \<longrightarrow> plain_path (slice (data b) us ue)
     | Some a \<Rightarrow> us < a \<and> a \<le> ue \<and> data b ! (a - 1) = chr CHR ''?'' \<and>
         (\<not> complex_uri r' \<and> \<not> quoted_uri r' \<longrightarrow> plain_path (slice (data b) us (a - 1))))"
  by (rule request_line_uri [OF assms])

theorem request_line_unflagged_path_witness:
  "\<exists>r' b' us ue. ngx_http_parse_request_line (fresh_request sw_start)
      \<lparr>data = str ''GET /a .b'' @ [LF], pos = 0\<rparr> = (NGX_OK, r', b') \<and>
    uri_start r' = Some us \<and> uri_end r' = Some ue \<and> us < ue \<and>
    plain_path (slice (str ''GET /a .b'' @ [LF]) us ue)"
proof -
  let ?b = "\<lparr>data = str ''GET /a .b'' @ [LF], pos = 0\<rparr>"
  obtain r' b' where a: "ngx_http_parse_request_line (fresh_request sw_start) ?b = (NGX_OK, r', b')"
      "args_start r' = NULL \<and> \<not> complex_uri r' \<and> \<not> quoted_uri r'"
    by (simp add: rl_eval rl_done_def ngx_strXcmp_def rl_method_def slice_def)
  from request_line_unflagged_path [OF _ _ _ a(1)] a show ?thesis
    by (auto simp: fresh_request_def)
qed

end
