(* ===== verification/Http_Header.thy ===== *)
theory Http_Header
  imports Http_Core
begin

text \<open>
  \<open>ngx_http_parse_header_line\<close> and \<open>ngx_http_parse_multi_header_lines\<close> of
  \<^verbatim>\<open>src/nginx-1.4.4/src/http/ngx_http_parse.c\<close>. The header parser collects the lower-cased name, its
  hash and the pointers to name and value. The lemmas show that it does not depend on how the input
  is cut into reads, that it never writes outside \<open>lowcase_header\<close>, that it finds the name, the hash
  and the value of a well-formed line, and what it leaves of the previous header when a name starts
  with an invalid byte.
\<close>

section \<open>Definitions\<close>

datatype hl_state =
    sw_start | sw_name | sw_space_before_value | sw_value | sw_space_after_value | sw_ignore_line
  | sw_almost_done | sw_header_almost_done

type_synonym hl_request = "hl_state ngx_http_request_t"

definition lowcase :: "u_char list" where
  "lowcase = [
      0, 0, 0, 0, 0, 0, 0, 0, 0, 0, 0, 0, 0, 0, 0, 0,
      0, 0, 0, 0, 0, 0, 0, 0, 0, 0, 0, 0, 0, 0, 0, 0,
      0, 0, 0, 0, 0, 0, 0, 0, 0, 0, 0, 0, 0, 0x2d, 0, 0,
      0x30, 0x31, 0x32, 0x33, 0x34, 0x35, 0x36, 0x37, 0x38, 0x39, 0, 0, 0, 0, 0, 0,
      0, 0x61, 0x62, 0x63, 0x64, 0x65, 0x66, 0x67, 0x68, 0x69, 0x6a, 0x6b, 0x6c, 0x6d, 0x6e, 0x6f,
      0x70, 0x71, 0x72, 0x73, 0x74, 0x75, 0x76, 0x77, 0x78, 0x79, 0x7a, 0, 0, 0, 0, 0,
      0, 0x61, 0x62, 0x63, 0x64, 0x65, 0x66, 0x67, 0x68, 0x69, 0x6a, 0x6b, 0x6c, 0x6d, 0x6e, 0x6f,
      0x70, 0x71, 0x72, 0x73, 0x74, 0x75, 0x76, 0x77, 0x78, 0x79, 0x7a, 0, 0, 0, 0, 0,
      0, 0, 0, 0, 0, 0, 0, 0, 0, 0, 0, 0, 0, 0, 0, 0,
      0, 0, 0, 0, 0, 0, 0, 0, 0, 0, 0, 0, 0, 0, 0, 0,
      0, 0, 0, 0, 0, 0, 0, 0, 0, 0, 0, 0, 0, 0, 0, 0,
      0, 0, 0, 0, 0, 0, 0, 0, 0, 0, 0, 0, 0, 0, 0, 0,
      0, 0, 0, 0, 0, 0, 0, 0, 0, 0, 0, 0, 0, 0, 0, 0,
      0, 0, 0, 0, 0, 0, 0, 0, 0, 0, 0, 0, 0, 0, 0, 0,
      0, 0, 0, 0, 0, 0, 0, 0, 0, 0, 0, 0, 0, 0, 0, 0,
      0, 0, 0, 0, 0, 0, 0, 0, 0, 0, 0, 0, 0, 0, 0, 0]"

abbreviation (input) invalid_header_line :: "hl_request \<Rightarrow> hl_request outcome" where
  "invalid_header_line \<equiv> Return NGX_HTTP_PARSE_INVALID_HEADER"

text \<open>\<open>hash = ngx_hash(hash, c); r->lowcase_header[i++] = c; i &= NGX_HTTP_LC_HEADER_LEN - 1\<close>.\<close>

definition hl_name_char :: "hl_request \<Rightarrow> u_char \<Rightarrow> hl_request" where
  "hl_name_char r c = r\<lparr>header_hash := ngx_hash (header_hash r) c,
     lowcase_header := (lowcase_header r)[unat (lowcase_index r) := c],
     lowcase_index := (lowcase_index r + 1) AND 31\<rparr>"

definition hl_start :: "hl_request \<Rightarrow> nat \<Rightarrow> u_char \<Rightarrow> hl_request outcome" where
  "hl_start r p ch =
    (let r = r\<lparr>header_name_start := Some p, invalid_header := False\<rparr> in
     if ch = CR then Next (r\<lparr>header_end := Some p, state := sw_header_almost_done\<rparr>)
     else if ch = LF then Goto label_header_done (r\<lparr>header_end := Some p\<rparr>)
     else
       let r = r\<lparr>state := sw_name\<rparr>;
           c = lowcase ! unat ch
       in if c \<noteq> 0 then Next (r\<lparr>header_hash := ngx_hash 0 c,
              lowcase_header := (lowcase_header r)[0 := c], lowcase_index := 1\<rparr>)
          else if ch = 0 then invalid_header_line r
          else Next (r\<lparr>invalid_header := True\<rparr>))"

text \<open>\<open>p - r->header_name_start == 4 && ngx_strncmp(r->header_name_start, "HTTP", 4) == 0\<close>.\<close>

definition hl_http_prefix :: "u_char list \<Rightarrow> hl_request \<Rightarrow> nat \<Rightarrow> bool" where
  "hl_http_prefix buf r p = (case header_name_start r of None \<Rightarrow> False
     | Some s \<Rightarrow> p - s = 4 \<and> ngx_strncmp (slice buf s p) (str ''HTTP'') 4 = Some 0)"

definition hl_name :: "bool \<Rightarrow> u_char list \<Rightarrow> hl_request \<Rightarrow> nat \<Rightarrow> u_char \<Rightarrow> hl_request outcome" where
  "hl_name allow_underscores buf r p ch =
    (let c = lowcase ! unat ch in
     if c \<noteq> 0 then Next (hl_name_char r c)
     else if ch = chr CHR ''_'' then
       (if allow_underscores then Next (hl_name_char r ch) else Next (r\<lparr>invalid_header := True\<rparr>))
     else if ch = chr CHR '':'' then Next (r\<lparr>header_name_end := Some p, state := sw_space_before_value\<rparr>)
     else if ch = CR then
       Next (r\<lparr>header_name_end := Some p, header_start := Some p, header_end := Some p,
               state := sw_almost_done\<rparr>)
     else if ch = LF then
       Goto label_done (r\<lparr>header_name_end := Some p, header_start := Some p, header_end := Some p\<rparr>)
     else if ch = chr CHR ''/'' \<and> upstream r \<and> hl_http_prefix buf r p then Next (r\<lparr>state := sw_ignore_line\<rparr>)
     else if ch = 0 then invalid_header_line r
     else Next (r\<lparr>invalid_header := True\<rparr>))"

definition hl_space_before_value :: "hl_request \<Rightarrow> nat \<Rightarrow> u_char \<Rightarrow> hl_request outcome" where
  "hl_space_before_value r p ch =
    (if ch = chr CHR '' '' then Next r
     else if ch = CR then Next (r\<lparr>header_start := Some p, header_end := Some p, state := sw_almost_done\<rparr>)
     else if ch = LF then Goto label_done (r\<lparr>header_start := Some p, header_end := Some p\<rparr>)
     else if ch = 0 then invalid_header_line r
     else Next (r\<lparr>header_start := Some p, state := sw_value\<rparr>))"

definition hl_value :: "hl_request \<Rightarrow> nat \<Rightarrow> u_char \<Rightarrow> hl_request outcome" where
  "hl_value r p ch =
    (if ch = chr CHR '' '' then Next (r\<lparr>header_end := Some p, state := sw_space_after_value\<rparr>)
     else if ch = CR then Next (r\<lparr>header_end := Some p, state := sw_almost_done\<rparr>)
     else if ch = LF then Goto label_done (r\<lparr>header_end := Some p\<rparr>)
     else if ch = 0 then invalid_header_line r
     else Next r)"

definition hl_space_after_value :: "hl_request \<Rightarrow> u_char \<Rightarrow> hl_request outcome" where
  "hl_space_after_value r ch =
    (if ch = chr CHR '' '' then Next r
     else if ch = CR then Next (r\<lparr>state := sw_almost_done\<rparr>)
     else if ch = LF then Goto label_done r
     else if ch = 0 then invalid_header_line r
     else Next (r\<lparr>state := sw_value\<rparr>))"

definition hl_ignore_line :: "hl_request \<Rightarrow> u_char \<Rightarrow> hl_request outcome" where
  "hl_ignore_line r ch = (if ch = LF then Next (r\<lparr>state := sw_start\<rparr>) else Next r)"

definition hl_almost_done :: "hl_request \<Rightarrow> u_char \<Rightarrow> hl_request outcome" where
  "hl_almost_done r ch =
    (if ch = LF then Goto label_done r else if ch = CR then Next r else invalid_header_line r)"

definition hl_header_almost_done :: "hl_request \<Rightarrow> u_char \<Rightarrow> hl_request outcome" where
  "hl_header_almost_done r ch =
    (if ch = LF then Goto label_header_done r else invalid_header_line r)"

definition hl_step :: "bool \<Rightarrow> u_char list \<Rightarrow> hl_request \<Rightarrow> nat \<Rightarrow> u_char \<Rightarrow> hl_request outcome" where
  "hl_step allow_underscores buf r p ch = (case state r of
      sw_start \<Rightarrow> hl_start r p ch
    | sw_name \<Rightarrow> hl_name allow_underscores buf r p ch
    | sw_space_before_value \<Rightarrow> hl_space_before_value r p ch
    | sw_value \<Rightarrow> hl_value r p ch
    | sw_space_after_value \<Rightarrow> hl_space_after_value r ch
    | sw_ignore_line \<Rightarrow> hl_ignore_line r ch
    | sw_almost_done \<Rightarrow> hl_almost_done r ch
    | sw_header_almost_done \<Rightarrow> hl_header_almost_done r ch)"

text \<open>The request at the call is \<open>r0\<close>: behind \<open>header_done\<close> the locals \<open>hash\<close> and \<open>i\<close> are not stored.\<close>

definition hl_restore :: "hl_request \<Rightarrow> hl_request \<Rightarrow> hl_request" where
  "hl_restore r0 r = r\<lparr>header_hash := header_hash r0, lowcase_index := lowcase_index r0\<rparr>"

fun hl_finish :: "goto_label \<Rightarrow> hl_request \<Rightarrow> hl_request \<Rightarrow> nat \<Rightarrow> ngx_int_t \<times> hl_request" where
  "hl_finish label_header_done r0 r p = (NGX_HTTP_PARSE_HEADER_DONE, (hl_restore r0 r)\<lparr>state := sw_start\<rparr>)"
| "hl_finish _ r0 r p = (NGX_OK, r\<lparr>state := sw_start\<rparr>)"

definition ngx_http_parse_header_line ::
    "bool \<Rightarrow> hl_request \<Rightarrow> ngx_buf_t \<Rightarrow> ngx_int_t \<times> hl_request \<times> ngx_buf_t" where
  "ngx_http_parse_header_line allow_underscores r b = (case parse_loop (hl_step allow_underscores) b r of
      At_last r' \<Rightarrow> (NGX_AGAIN, r', b\<lparr>pos := last_of b\<rparr>)
    | At_label l r' p \<Rightarrow> (case hl_finish l r r' p of (rc, r'') \<Rightarrow> (rc, r'', b\<lparr>pos := p + 1\<rparr>))
    | Returned rc r' \<Rightarrow> (rc, (hl_restore r r')\<lparr>state := state r\<rparr>, b))"

section \<open>Resumption\<close>

lemmas hl_step_defs =
  hl_start_def hl_name_def hl_space_before_value_def hl_value_def hl_space_after_value_def
  hl_ignore_line_def hl_almost_done_def hl_header_almost_done_def

lemma hl_step_return:
  "case hl_step u buf r p ch of Next r' \<Rightarrow> True | Goto l r' \<Rightarrow> True
     | Return rc r' \<Rightarrow> rc = NGX_HTTP_PARSE_INVALID_HEADER"
  by (cases "state r") (simp_all add: hl_step_def hl_step_defs Let_def)

lemma hl_http_prefix_feed: "p < length buf \<Longrightarrow> hl_http_prefix (buf @ ext) r p = hl_http_prefix buf r p"
  by (simp add: hl_http_prefix_def slice_feed split: option.split)

lemma hl_step_looks_back: "p < length buf \<Longrightarrow> hl_step u (buf @ ext) r p c = hl_step u buf r p c"
  by (simp only: hl_step_def hl_name_def hl_http_prefix_feed)

interpretation hl: resumable_parser "hl_step u" "ngx_http_parse_header_line u" hl_finish
  "\<lambda>r r'. (hl_restore r r')\<lparr>state := state r\<rparr>"
  "\<lambda>r. r\<lparr>header_hash := 0, lowcase_index := 0, state := sw_start\<rparr>" for u
proof unfold_locales
  fix buf ext :: "u_char list" and r p c
  assume "p < length buf"
  then show "hl_step u (buf @ ext) r p c = hl_step u buf r p c" by (rule hl_step_looks_back)
next
  fix buf r p c rc r'
  assume "hl_step u buf r p c = Return rc r'"
  with hl_step_return [of u buf r p c] show "rc \<notin> {NGX_OK, NGX_AGAIN}" by simp
next
  fix r0 r r1 :: hl_request and p l
  show "fst (hl_finish l r0 r p) \<noteq> NGX_AGAIN" "fst (hl_finish l r0 r p) = fst (hl_finish l r1 r p)"
    "fst (hl_finish l r0 r p) = NGX_OK \<Longrightarrow> hl_finish l r0 r p = hl_finish l r1 r p"
    by (cases l; simp add: hl_restore_def)+
  show "(snd (hl_finish l r0 r p))\<lparr>header_hash := 0, lowcase_index := 0, state := sw_start\<rparr> =
      (snd (hl_finish l r1 r p))\<lparr>header_hash := 0, lowcase_index := 0, state := sw_start\<rparr>"
    by (cases l) (simp_all add: hl_restore_def)
qed (simp_all add: ngx_http_parse_header_line_def hl_restore_def)

text \<open>C10: a header line may arrive in any number of reads: resuming after \<open>NGX_AGAIN\<close> gives what one
  call on the whole buffer gives, up to the fields an unsuccessful or final call does not store, and
  a call that returns anything else has not looked at the bytes that follow.\<close>

theorem header_line_resume:
  assumes "pos b \<le> last_of b" "ngx_http_parse_header_line u r b = (rc, r', b')"
  shows "if rc = NGX_AGAIN
    then (\<exists>rc1 r1 b1 r2 b2.
        ngx_http_parse_header_line u r (feed b ext) = (rc1, r1, b1) \<and>
        ngx_http_parse_header_line u r' (feed b' ext) = (rc1, r2, b2) \<and>
        r1\<lparr>header_hash := 0, lowcase_index := 0, state := sw_start\<rparr> =
          r2\<lparr>header_hash := 0, lowcase_index := 0, state := sw_start\<rparr> \<and>
        (rc1 \<in> {NGX_OK, NGX_AGAIN} \<longrightarrow> r1 = r2 \<and> b1 = b2))
    else ngx_http_parse_header_line u r (feed b ext) = (rc, r', feed b' ext)"
  using assms by (rule hl.resume)

text \<open>The lower-case form of a byte that may occur in a header name, and 0 for the others.\<close>

definition name_lc :: "u_char \<Rightarrow> u_char" where
  "name_lc c = (if is_digit c \<or> c = chr CHR ''-'' then c else if is_alpha c then c OR 0x20 else 0)"

lemma lowcase_nth: "lowcase ! unat c = name_lc c"
  by (rule byte_ballI [where c = c]) (simp add: lowcase_def name_lc_def is_digit_def is_alpha_def)

lemmas hl_eval = ngx_http_parse_header_line_def parse_loop_def hl_step_def hl_step_defs hl_name_char_def
  hl_http_prefix_def lowcase_def fresh_request_def Let_def ngx_hash_def

theorem header_line_resume_witness:
  "\<exists>r' b'. ngx_http_parse_header_line False (fresh_request sw_start) \<lparr>data = str ''Ho'', pos = 0\<rparr> =
      (NGX_AGAIN, r', b') \<and>
    (\<exists>rc1 r1 b1 r2 b2.
        ngx_http_parse_header_line False (fresh_request sw_start)
          (feed \<lparr>data = str ''Ho'', pos = 0\<rparr> (str ''st: a'')) = (rc1, r1, b1) \<and>
        ngx_http_parse_header_line False r' (feed b' (str ''st: a'')) = (rc1, r2, b2))"
proof -
  obtain r' b' where a: "ngx_http_parse_header_line False (fresh_request sw_start)
      \<lparr>data = str ''Ho'', pos = 0\<rparr> = (NGX_AGAIN, r', b')"
    by (simp add: hl_eval)
  from header_line_resume [OF _ a, where ext = "str ''st: a''"] a show ?thesis by auto
qed

section \<open>Bounds\<close>

text \<open>The order of the pointers and the room in \<open>lowcase_header\<close>, state by state.\<close>

definition hl_named :: "hl_request \<Rightarrow> (nat \<Rightarrow> bool) \<Rightarrow> bool" where
  "hl_named r P = (\<exists>s e. header_name_start r = Some s \<and> header_name_end r = Some e \<and> s < e \<and> P e)"

definition hl_inv :: "u_char list \<Rightarrow> hl_request \<Rightarrow> nat \<Rightarrow> bool" where
  "hl_inv buf r p = (length (lowcase_header r) = 32 \<and> unat (lowcase_index r) < 32 \<and> (case state r of
      sw_name \<Rightarrow> \<exists>s. header_name_start r = Some s \<and> s < p
    | sw_space_before_value \<Rightarrow> hl_named r (\<lambda>e. e < p)
    | sw_value \<Rightarrow> hl_named r (\<lambda>e. \<exists>h. header_start r = Some h \<and> e \<le> h \<and> h < p)
    | sw_space_after_value \<Rightarrow> hl_named r (\<lambda>e. \<exists>h f. header_start r = Some h \<and> header_end r = Some f \<and> e \<le> h \<and> h \<le> f \<and> f < p)
    | sw_almost_done \<Rightarrow> hl_named r (\<lambda>e. \<exists>h f. header_start r = Some h \<and> header_end r = Some f \<and> e \<le> h \<and> h \<le> f \<and> f < p)
    | sw_header_almost_done \<Rightarrow> \<exists>f. header_end r = Some f \<and> f < p
    | _ \<Rightarrow> True))"

fun hl_out :: "goto_label \<Rightarrow> u_char list \<Rightarrow> hl_request \<Rightarrow> nat \<Rightarrow> bool" where
  "hl_out label_header_done buf r p = (length (lowcase_header r) = 32 \<and> (\<exists>f. header_end r = Some f \<and> f \<le> p))"
| "hl_out _ buf r p = (length (lowcase_header r) = 32 \<and> unat (lowcase_index r) < 32 \<and>
     hl_named r (\<lambda>e. \<exists>h f. header_start r = Some h \<and> header_end r = Some f \<and> e \<le> h \<and> h \<le> f \<and> f \<le> p))"

lemma and_31_less: "unat (w AND 31 :: ngx_uint_t) < 32"
proof -
  have "unat (w AND 31) \<le> unat (31 :: ngx_uint_t)"
    unfolding word_le_nat_alt [symmetric] by (rule word_and_le1)
  then show ?thesis by simp
qed

lemma hl_step_inv:
  assumes "hl_inv buf r p"
  shows "case hl_step u buf r p c of Next r' \<Rightarrow> hl_inv buf r' (Suc p) | Goto l r' \<Rightarrow> hl_out l buf r' p
    | Return rc r' \<Rightarrow> True"
  using assms
  by (cases "state r") (auto simp: hl_step_def hl_step_defs hl_inv_def hl_named_def hl_name_char_def Let_def
      and_31_less less_Suc_eq intro: less_imp_le)

interpretation hl_ptr: invariant_parser "hl_step u" hl_inv hl_out "\<lambda>_. True" for u
  by unfold_locales (use hl_step_inv in simp)

text \<open>C11: the header parser keeps \<open>lowcase_index\<close> within the 32 bytes of \<open>lowcase_header\<close>, whatever the
  length of the name, and returns pointers in order: the name is not empty, the value starts behind
  it and ends before \<open>b->pos\<close>. The invariant holds again when the call returns \<open>NGX_AGAIN\<close>.\<close>

theorem header_line_bounds:
  assumes "pos b \<le> last_of b" "hl_inv (data b) r (pos b)"
    and "ngx_http_parse_header_line u r b = (rc, r', b')"
  shows "(rc = NGX_AGAIN \<longrightarrow> hl_inv (data b') r' (pos b')) \<and>
    (rc = NGX_OK \<longrightarrow> length (lowcase_header r') = 32 \<and> unat (lowcase_index r') < 32 \<and>
      (\<exists>s e h f. header_name_start r' = Some s \<and> header_name_end r' = Some e \<and>
         header_start r' = Some h \<and> header_end r' = Some f \<and>
         s < e \<and> e \<le> h \<and> h \<le> f \<and> f < pos b' \<and> pos b' \<le> last_of b))"
proof (cases "parse_loop (hl_step u) b r")
  case (At_last r1)
  with hl_ptr.loop_invariant [OF assms(1,2), of u] assms(3) show ?thesis
    by (auto simp: ngx_http_parse_header_line_def)
next
  case (At_label l r1 p)
  with hl_ptr.loop_invariant [OF assms(1,2), of u] assms(3) show ?thesis
    by (cases l) (auto simp: ngx_http_parse_header_line_def hl_named_def less_Suc_eq_le)
next
  case (Returned rc1 r1)
  with hl.loop_return_code [OF Returned] assms(3) show ?thesis
    by (auto simp: ngx_http_parse_header_line_def)
qed

theorem header_line_bounds_witness:
  "\<exists>r' b'. ngx_http_parse_header_line False (fresh_request sw_start) \<lparr>data = str ''Host: a'' @ [LF], pos = 0\<rparr> =
      (NGX_OK, r', b') \<and> unat (lowcase_index r') < 32 \<and>
    (\<exists>s e h f. header_name_start r' = Some s \<and> header_name_end r' = Some e \<and>
         header_start r' = Some h \<and> header_end r' = Some f \<and> s < e \<and> e \<le> h \<and> h \<le> f)"
proof -
  let ?b = "\<lparr>data = str ''Host: a'' @ [LF], pos = 0\<rparr>"
  obtain r' b' where a: "ngx_http_parse_header_line False (fresh_request sw_start) ?b = (NGX_OK, r', b')"
    by (simp add: hl_eval)
  have "hl_inv (data ?b) (fresh_request sw_start) (pos ?b)" by (simp add: hl_inv_def fresh_request_def)
  from header_line_bounds [OF _ this a] a show ?thesis by auto
qed

section \<open>A well-formed header line\<close>

definition name_char :: "u_char \<Rightarrow> bool" where
  "name_char c = (name_lc c \<noteq> 0)"

definition value_char :: "u_char \<Rightarrow> bool" where
  "value_char c = (c \<notin> {CR, LF, 0})"

lemma name_char_bytes: "name_char c \<longrightarrow> c \<notin> set (CR # LF # 0 # str ''_:/ '')"
  by (rule byte_ballI [where c = c]) (simp add: name_char_def name_lc_def is_digit_def is_alpha_def)

lemma scan_name:
  assumes "state r = sw_name" "list_all name_char n"
  shows "scan (hl_step u buf) n r p = At_last (foldl (\<lambda>r c. hl_name_char r (name_lc c)) r n)"
  using assms
proof (induction n arbitrary: r p)
  case (Cons c n)
  then have "hl_step u buf r p c = Next (hl_name_char r (name_lc c))"
    by (simp add: hl_step_def hl_name_def lowcase_nth name_char_def)
  with Cons show ?case by (simp add: hl_name_char_def)
qed simp

lemma scan_value:
  assumes "state r = sw_value \<or> state r = sw_space_after_value" "list_all value_char v" "v \<noteq> []"
  shows "\<exists>f. scan (hl_step u buf) v r p = At_last (r\<lparr>header_end := f,
    state := if last v = chr CHR '' '' then sw_space_after_value else sw_value\<rparr>)"
  using assms
proof (induction v arbitrary: r p)
  case (Cons c v)
  let ?st = "if c = chr CHR '' '' then sw_space_after_value else sw_value"
  obtain f where f: "hl_step u buf r p c = Next (r\<lparr>header_end := f, state := ?st\<rparr>)"
  proof -
    have "\<exists>f. hl_step u buf r p c = Next (r\<lparr>header_end := f, state := ?st\<rparr>)"
      using Cons.prems(1,2)
      by (cases r) (auto simp: hl_step_def hl_value_def hl_space_after_value_def value_char_def)
    with that show thesis by blast
  qed
  show ?case
  proof (cases "v = []")
    case True
    with f show ?thesis by auto
  next
    case False
    with Cons.IH [of "r\<lparr>header_end := f, state := ?st\<rparr>" "Suc p"] Cons.prems(2) f
    show ?thesis by auto
  qed
qed simp

lemma and_31_self: "unat w < 32 \<Longrightarrow> w AND 31 = (w :: ngx_uint_t)"
proof -
  assume "unat w < 32"
  then have "unat (take_bit 5 w) = unat w"
    by (simp add: unsigned_take_bit_eq take_bit_nat_eq_self)
  then have "take_bit 5 w = w" by (simp add: word_unat_eq_iff)
  moreover have "take_bit 5 w = w AND 31" by (simp add: take_bit_eq_mask mask_eq_exp_minus_1)
  ultimately show ?thesis by simp
qed

lemma foldl_name_char:
  "foldl (\<lambda>r c. hl_name_char r (name_lc c)) r n =
    r\<lparr>header_hash := foldl ngx_hash (header_hash r) (map name_lc n),
      lowcase_header := lowcase_header (foldl (\<lambda>r c. hl_name_char r (name_lc c)) r n),
      lowcase_index := lowcase_index (foldl (\<lambda>r c. hl_name_char r (name_lc c)) r n)\<rparr>"
proof (induction n arbitrary: r)
  case (Cons c n)
  show ?case using Cons.IH [of "hl_name_char r (name_lc c)"] by (simp add: hl_name_char_def)
qed simp

lemma foldl_name_lowcase:
  assumes "unat (lowcase_index r) = i" "i + length n < 32" "length (lowcase_header r) = 32"
  shows "lowcase_header (foldl (\<lambda>r c. hl_name_char r (name_lc c)) r n) =
      take i (lowcase_header r) @ map name_lc n @ drop (i + length n) (lowcase_header r) \<and>
    unat (lowcase_index (foldl (\<lambda>r c. hl_name_char r (name_lc c)) r n)) = i + length n"
  using assms
proof (induction n arbitrary: r i)
  case (Cons c n)
  let ?r = "hl_name_char r (name_lc c)"
  have "unat (lowcase_index r + 1) = Suc i"
    using Cons.prems(1,2) by (simp add: unat_word_ariths)
  then have "unat (lowcase_index ?r) = Suc i"
    using Cons.prems(2) and_31_self [of "lowcase_index r + 1"] by (simp add: hl_name_char_def)
  moreover have "lowcase_header ?r = (lowcase_header r)[i := name_lc c]"
    using Cons.prems(1) by (simp add: hl_name_char_def)
  ultimately show ?case
    using Cons.IH [of ?r "Suc i"] Cons.prems
    by (simp add: take_Suc_conv_app_nth)
qed simp

lemma name_lc_tolower: "name_char c \<longrightarrow> name_lc c = ngx_tolower c"
  by (rule byte_ballI [where c = c])
    (simp add: name_char_def name_lc_def is_digit_def is_alpha_def ngx_tolower_def)

lemma map_name_lc: "list_all name_char n \<Longrightarrow> map name_lc n = ngx_strlow n"
  using name_lc_tolower by (auto simp: ngx_strlow_eq_map list_all_iff)

lemma hl_start_name:
  assumes "state r = sw_start" "name_char c"
  shows "hl_step u buf r p c = Next (hl_name_char
    (r\<lparr>header_name_start := Some p, invalid_header := False, header_hash := 0, lowcase_index := 0, state := sw_name\<rparr>) (name_lc c))"
  using assms name_char_bytes [of c]
  by (simp add: hl_step_def hl_start_def hl_name_char_def lowcase_nth name_char_def Let_def)

lemma scan_value_rest:
  assumes "state r = sw_value" "list_all value_char v" "v = [] \<or> last v \<noteq> chr CHR '' ''"
  shows "\<exists>f. scan (hl_step u buf) v r p = At_last (r\<lparr>header_end := f\<rparr>)"
proof (cases "v = []")
  case True
  then show ?thesis by (auto intro: exI [of _ "header_end r"])
next
  case False
  with scan_value [of r v u buf p] assms show ?thesis by (cases r) auto
qed

text \<open>C12: on a line made of a name of letters, digits and hyphens, a colon, a space and a value
  without control separators that neither starts nor ends with a space, the parser consumes the
  line, points at exactly the name and the value, accepts the name, and leaves the lower-cased name
  and its hash where the caller looks the header up: the hash is the one of \<open>ngx_hash_key_lc\<close>.\<close>

theorem header_line_wellformed:
  assumes "n \<noteq> []" "list_all name_char n" "length n < 32"
    and "v \<noteq> []" "list_all value_char v" "hd v \<noteq> chr CHR '' ''" "last v \<noteq> chr CHR '' ''"
    and "state r = sw_start" "length (lowcase_header r) = 32"
    and b: "b = \<lparr>data = pre @ n @ str '': '' @ v @ [CR, LF] @ rest, pos = length pre\<rparr>"
  shows "\<exists>r'. ngx_http_parse_header_line u r b =
      (NGX_OK, r', b\<lparr>pos := length pre + length n + length v + 4\<rparr>) \<and>
    state r' = sw_start \<and> \<not> invalid_header r' \<and> header_hash r' = ngx_hash_key_lc n \<and>
    unat (lowcase_index r') = length n \<and> take (length n) (lowcase_header r') = ngx_strlow n \<and>
    header_name_start r' = Some (length pre) \<and> header_name_end r' = Some (length pre + length n) \<and>
    header_start r' = Some (length pre + length n + 2) \<and>
    header_end r' = Some (length pre + length n + 2 + length v) \<and>
    slice (data b) (length pre + length n + 2) (length pre + length n + 2 + length v) = v"
proof -
  obtain c cs where n: "n = c # cs" using assms(1) by (cases n) auto
  obtain d ds where v: "v = d # ds" using assms(4) by (cases v) auto
  define r0 where "r0 = r\<lparr>header_name_start := Some (length pre), invalid_header := False,
      header_hash := 0, lowcase_index := 0, state := sw_name\<rparr>"
  define r1 where "r1 = foldl (\<lambda>r c. hl_name_char r (name_lc c)) r0 n"
  let ?f = "hl_step u (data b)" and ?p = "length pre + length n"
  have lc: "lowcase_header r1 = map name_lc n @ drop (length n) (lowcase_header r0)"
    "unat (lowcase_index r1) = length n"
    using foldl_name_lowcase [of r0 0 n] assms(3,9) by (simp_all add: r0_def r1_def)
  note r1 = foldl_name_char [of r0 n, folded r1_def]
  have st: "state r1 = sw_name" by (subst r1) (simp add: r0_def)
  define r2 where "r2 = r1\<lparr>header_name_end := Some ?p, header_start := Some (?p + 2), state := sw_value\<rparr>"
  have 1: "scan ?f n r (length pre) = At_last r1"
    using hl_start_name [OF assms(8), of c] scan_name [of "hl_name_char r0 (name_lc c)" cs] assms(2)
    by (simp add: n r1_def r0_def hl_name_char_def)
  have 2: "scan ?f (str '': '' @ [d]) r1 ?p = At_last r2"
    using assms(5,6) st by (simp add: v r2_def hl_step_def hl_name_def hl_space_before_value_def lowcase_nth
        name_lc_def is_digit_def is_alpha_def value_char_def Let_def lowcase_def)
  have "state r2 = sw_value" "list_all value_char ds" "ds = [] \<or> last ds \<noteq> chr CHR '' ''"
    using assms(5,7) by (simp_all add: r2_def v split: if_splits)
  then obtain f where 3: "scan ?f ds r2 (?p + 3) = At_last (r2\<lparr>header_end := f\<rparr>)"
    using scan_value_rest by blast
  let ?r3 = "r2\<lparr>header_end := Some (?p + 2 + length v), state := sw_almost_done\<rparr>"
  have 4: "scan ?f ([CR, LF] @ rest) (r2\<lparr>header_end := f\<rparr>) (?p + 3 + length ds) =
      At_label label_done ?r3 (?p + 3 + length v)"
    by (simp add: v r2_def hl_step_def hl_value_def hl_almost_done_def)
  have "scan ?f (n @ (str '': '' @ [d]) @ ds @ [CR, LF] @ rest) r (length pre) =
      scan ?f ((str '': '' @ [d]) @ ds @ [CR, LF] @ rest) r1 ?p"
    by (rule scan_chain [OF 1])
  also have "\<dots> = scan ?f (ds @ [CR, LF] @ rest) r2 (?p + length (str '': '' @ [d]))"
    by (rule scan_chain [OF 2])
  also have "?p + length (str '': '' @ [d]) = ?p + 3" by simp
  also have "scan ?f (ds @ [CR, LF] @ rest) r2 (?p + 3) = scan ?f ([CR, LF] @ rest) (r2\<lparr>header_end := f\<rparr>) (?p + 3 + length ds)"
    by (rule scan_chain [OF 3])
  also note 4
  finally have "parse_loop (hl_step u) b r = At_label label_done ?r3 (?p + 3 + length v)"
    by (simp add: parse_loop_def b v)
  moreover have "header_hash r1 = ngx_hash_key_lc n" "invalid_header r1 = False"
    "header_name_start r1 = Some (length pre)"
    by (subst r1, simp add: r0_def map_name_lc [OF assms(2)] hash_key_lc_strlow ngx_hash_key_def)+
  ultimately show ?thesis
    using lc by (simp add: ngx_http_parse_header_line_def map_name_lc [OF assms(2)] ngx_strlow_eq_map slice_def r2_def b)
qed

theorem header_line_wellformed_witness:
  "\<exists>r'. ngx_http_parse_header_line False (fresh_request sw_start)
      \<lparr>data = [] @ str ''Host'' @ str '': '' @ str ''a b'' @ [CR, LF] @ [], pos = length ([] :: u_char list)\<rparr> =
      (NGX_OK, r', \<lparr>data = [] @ str ''Host'' @ str '': '' @ str ''a b'' @ [CR, LF] @ [],
         pos = length ([] :: u_char list) + length (str ''Host'') + length (str ''a b'') + 4\<rparr>) \<and>
    header_hash r' = ngx_hash_key_lc (str ''Host'') \<and> header_start r' = Some (length (str ''Host'') + 2)"
  using header_line_wellformed [of "str ''Host''" "str ''a b''" "fresh_request sw_start" _ "[]" "[]" False, OF _ _ _ _ _ _ _ _ _ refl]
  by (auto simp: name_char_def name_lc_def is_digit_def is_alpha_def value_char_def fresh_request_def)

lemma replicate_32: "replicate 32 (0 :: u_char) = [0, 0, 0, 0, 0, 0, 0, 0, 0, 0, 0, 0, 0, 0, 0, 0,
    0, 0, 0, 0, 0, 0, 0, 0, 0, 0, 0, 0, 0, 0, 0, 0]"
  by (simp add: numeral_eq_Suc)

text \<open>When the first byte of a name is invalid, neither the hash nor the lower-case index is reset.
  The line \<open>((((: y\<close> behind \<open>Host: x\<close> leaves the hash, the index and the lower-cased name of
  \<open>Host\<close>, so that a caller that keeps invalid headers finds \<open>host\<close> again.\<close>

lemma header_line_stale_name:
  "\<exists>r1 b1 r2 b2.
    ngx_http_parse_header_line False (fresh_request sw_start)
      \<lparr>data = str ''Host: x'' @ [LF] @ str ''((((: y'' @ [LF], pos = 0\<rparr> = (NGX_OK, r1, b1) \<and>
    ngx_http_parse_header_line False r1 b1 = (NGX_OK, r2, b2) \<and>
    header_hash r2 = ngx_hash_key (str ''host'') \<and> unat (lowcase_index r2) = length (str ''(((('') \<and>
    take 4 (lowcase_header r2) = str ''host'' \<and> invalid_header r2"
  by (simp add: hl_eval ngx_hash_key_def replicate_32)

end
