(* ===== verification/Http_Response.thy ===== *)
theory Http_Response
  imports Http_Core
begin

text \<open>
  \<open>ngx_http_parse_status_line\<close> and \<open>ngx_http_parse_chunked\<close> of
  \<^verbatim>\<open>src/nginx-1.4.4/src/http/ngx_http_parse.c\<close>: the first line of a response of an upstream server, and
  the framing of a chunked body, of which the caller reads \<open>ctx->size\<close> bytes between two calls.
\<close>

section \<open>The status line\<close>

datatype sl_state =
    sw_start | sw_H | sw_HT | sw_HTT | sw_HTTP
  | sw_first_major_digit | sw_major_digit | sw_first_minor_digit | sw_minor_digit
  | sw_status | sw_space_after_status | sw_status_text | sw_almost_done

record ngx_http_status_t =
  status_http_version :: ngx_uint_t
  status_code :: ngx_uint_t
  status_count :: ngx_uint_t
  status_start :: ptr
  status_end :: ptr

type_synonym sl_request = "sl_state ngx_http_request_t \<times> ngx_http_status_t"

text \<open>A state that expects one byte and moves on.\<close>

fun sl_expect :: "u_char \<Rightarrow> sl_state \<Rightarrow> sl_request \<Rightarrow> u_char \<Rightarrow> sl_request outcome" where
  "sl_expect c next (r, s) ch = (if ch = c then Next (r\<lparr>state := next\<rparr>, s) else Return NGX_ERROR (r, s))"

fun sl_version :: "sl_request \<Rightarrow> u_char \<Rightarrow> sl_request outcome" where
  "sl_version (r, s) ch = (case state r of
      sw_first_major_digit \<Rightarrow>
        if ch < chr CHR ''1'' \<or> ch > chr CHR ''9'' then Return NGX_ERROR (r, s)
        else Next (r\<lparr>http_major := ucast ch - 0x30, state := sw_major_digit\<rparr>, s)
    | sw_major_digit \<Rightarrow>
        if ch = chr CHR ''.'' then Next (r\<lparr>state := sw_first_minor_digit\<rparr>, s)
        else if \<not> is_digit ch then Return NGX_ERROR (r, s)
        else Next (r\<lparr>http_major := digit16 (http_major r) ch\<rparr>, s)
    | sw_first_minor_digit \<Rightarrow>
        if \<not> is_digit ch then Return NGX_ERROR (r, s)
        else Next (r\<lparr>http_minor := ucast ch - 0x30, state := sw_minor_digit\<rparr>, s)
    | _ \<Rightarrow> \<comment> \<open>\<open>sw_minor_digit\<close>\<close>
        if ch = chr CHR '' '' then Next (r\<lparr>state := sw_status\<rparr>, s)
        else if \<not> is_digit ch then Return NGX_ERROR (r, s)
        else Next (r\<lparr>http_minor := digit16 (http_minor r) ch\<rparr>, s))"

fun sl_status :: "sl_request \<Rightarrow> nat \<Rightarrow> u_char \<Rightarrow> sl_request outcome" where
  "sl_status (r, s) p ch =
    (if ch = chr CHR '' '' then Next (r, s)
     else if \<not> is_digit ch then Return NGX_ERROR (r, s)
     else
       let s = s\<lparr>status_code := status_code s * 10 + ucast ch - 0x30, status_count := status_count s + 1\<rparr>
       in if status_count s = 3 then Next (r\<lparr>state := sw_space_after_status\<rparr>, s\<lparr>status_start := Some (p - 2)\<rparr>)
          else Next (r, s))"

fun sl_space_after_status :: "sl_request \<Rightarrow> u_char \<Rightarrow> sl_request outcome" where
  "sl_space_after_status (r, s) ch =
    (if ch = chr CHR '' '' then Next (r\<lparr>state := sw_status_text\<rparr>, s)
     else if ch = chr CHR ''.'' then Next (r\<lparr>state := sw_status_text\<rparr>, s)
     else if ch = CR then Next (r\<lparr>state := sw_almost_done\<rparr>, s)
     else if ch = LF then Goto label_done (r, s)
     else Return NGX_ERROR (r, s))"

fun sl_status_text :: "sl_request \<Rightarrow> u_char \<Rightarrow> sl_request outcome" where
  "sl_status_text (r, s) ch =
    (if ch = CR then Next (r\<lparr>state := sw_almost_done\<rparr>, s)
     else if ch = LF then Goto label_done (r, s)
     else Next (r, s))"

fun sl_almost_done :: "sl_request \<Rightarrow> nat \<Rightarrow> u_char \<Rightarrow> sl_request outcome" where
  "sl_almost_done (r, s) p ch =
    (let s = s\<lparr>status_end := Some (p - 1)\<rparr> in
     if ch = LF then Goto label_done (r, s) else Return NGX_ERROR (r, s))"

definition sl_step :: "u_char list \<Rightarrow> sl_request \<Rightarrow> nat \<Rightarrow> u_char \<Rightarrow> sl_request outcome" where
  "sl_step buf rs p ch = (case state (fst rs) of
      sw_start \<Rightarrow> sl_expect (chr CHR ''H'') sw_H rs ch
    | sw_H \<Rightarrow> sl_expect (chr CHR ''T'') sw_HT rs ch
    | sw_HT \<Rightarrow> sl_expect (chr CHR ''T'') sw_HTT rs ch
    | sw_HTT \<Rightarrow> sl_expect (chr CHR ''P'') sw_HTTP rs ch
    | sw_HTTP \<Rightarrow> sl_expect (chr CHR ''/'') sw_first_major_digit rs ch
    | sw_first_major_digit \<Rightarrow> sl_version rs ch
    | sw_major_digit \<Rightarrow> sl_version rs ch
    | sw_first_minor_digit \<Rightarrow> sl_version rs ch
    | sw_minor_digit \<Rightarrow> sl_version rs ch
    | sw_status \<Rightarrow> sl_status rs p ch
    | sw_space_after_status \<Rightarrow> sl_space_after_status rs ch
    | sw_status_text \<Rightarrow> sl_status_text rs ch
    | sw_almost_done \<Rightarrow> sl_almost_done rs p ch)"

fun sl_done :: "sl_request \<Rightarrow> nat \<Rightarrow> ngx_int_t \<times> sl_request" where
  "sl_done (r, s) p =
    (let s = (if status_end s = NULL then s\<lparr>status_end := Some p\<rparr> else s)
     in (NGX_OK, r\<lparr>state := sw_start\<rparr>,
         s\<lparr>status_http_version := ucast (http_major r) * 1000 + ucast (http_minor r)\<rparr>))"

definition ngx_http_parse_status_line :: "sl_request \<Rightarrow> ngx_buf_t \<Rightarrow> ngx_int_t \<times> sl_request \<times> ngx_buf_t" where
  "ngx_http_parse_status_line rs b = (case parse_loop sl_step b rs of
      At_last rs' \<Rightarrow> (NGX_AGAIN, rs', b\<lparr>pos := last_of b\<rparr>)
    | At_label _ rs' p \<Rightarrow> (let (rc, rs'') = sl_done rs' p in (rc, rs'', b\<lparr>pos := p + 1\<rparr>))
    | Returned rc (r', s') \<Rightarrow> (rc, (r'\<lparr>state := state (fst rs)\<rparr>, s'), b))"

section \<open>Chunked bodies\<close>

datatype chunk_state =
    sw_chunk_start | sw_chunk_size | sw_chunk_extension | sw_chunk_extension_almost_done
  | sw_chunk_data | sw_after_data | sw_after_data_almost_done
  | sw_last_chunk_extension | sw_last_chunk_extension_almost_done
  | sw_trailer | sw_trailer_almost_done | sw_trailer_header | sw_trailer_header_almost_done

text \<open>\<open>size\<close> and \<open>length\<close> are \<open>off_t\<close>; the arithmetic wraps at 64 bits.\<close>

record ngx_http_chunked_t =
  chunk_state :: chunk_state
  size_of_chunk :: ngx_int_t
  length_of_rest :: ngx_int_t

abbreviation (input) TAB :: u_char where "TAB \<equiv> 0x09"

text \<open>The value of a hexadecimal digit, as in \<open>sw_chunk_start\<close> and \<open>sw_chunk_size\<close>.\<close>

definition chunk_digit :: "u_char \<Rightarrow> ngx_int_t option" where
  "chunk_digit ch =
    (if is_digit ch then Some (ucast (ch - chr CHR ''0''))
     else let c = ch OR 0x20 in
       if chr CHR ''a'' \<le> c \<and> c \<le> chr CHR ''f'' then Some (ucast (c - chr CHR ''a'' + 10)) else None)"

definition ch_start :: "ngx_http_chunked_t \<Rightarrow> u_char \<Rightarrow> ngx_http_chunked_t outcome" where
  "ch_start ctx ch = (case chunk_digit ch of
      Some d \<Rightarrow> Next (ctx\<lparr>chunk_state := sw_chunk_size, size_of_chunk := d\<rparr>)
    | None \<Rightarrow> Return NGX_ERROR ctx)"

definition ch_size :: "ngx_http_chunked_t \<Rightarrow> u_char \<Rightarrow> ngx_http_chunked_t outcome" where
  "ch_size ctx ch = (case chunk_digit ch of
      Some d \<Rightarrow> Next (ctx\<lparr>size_of_chunk := size_of_chunk ctx * 16 + d\<rparr>)
    | None \<Rightarrow>
        if size_of_chunk ctx = 0 then
          (if ch = CR then Next (ctx\<lparr>chunk_state := sw_last_chunk_extension_almost_done\<rparr>)
           else if ch = LF then Next (ctx\<lparr>chunk_state := sw_trailer\<rparr>)
           else if ch = chr CHR '';'' \<or> ch = chr CHR '' '' \<or> ch = TAB then
             Next (ctx\<lparr>chunk_state := sw_last_chunk_extension\<rparr>)
           else Return NGX_ERROR ctx)
        else
          (if ch = CR then Next (ctx\<lparr>chunk_state := sw_chunk_extension_almost_done\<rparr>)
           else if ch = LF then Next (ctx\<lparr>chunk_state := sw_chunk_data\<rparr>)
           else if ch = chr CHR '';'' \<or> ch = chr CHR '' '' \<or> ch = TAB then
             Next (ctx\<lparr>chunk_state := sw_chunk_extension\<rparr>)
           else Return NGX_ERROR ctx))"

text \<open>A state that skips to the end of the line, and one that expects the line feed.\<close>

definition ch_skip_line :: "chunk_state \<Rightarrow> chunk_state \<Rightarrow> ngx_http_chunked_t \<Rightarrow> u_char \<Rightarrow> ngx_http_chunked_t outcome" where
  "ch_skip_line on_cr on_lf ctx ch =
    (if ch = CR then Next (ctx\<lparr>chunk_state := on_cr\<rparr>)
     else if ch = LF then Next (ctx\<lparr>chunk_state := on_lf\<rparr>)
     else Next ctx)"

definition ch_expect_lf :: "chunk_state \<Rightarrow> ngx_http_chunked_t \<Rightarrow> u_char \<Rightarrow> ngx_http_chunked_t outcome" where
  "ch_expect_lf next ctx ch =
    (if ch = LF then Next (ctx\<lparr>chunk_state := next\<rparr>) else Return NGX_ERROR ctx)"

definition ch_trailer :: "ngx_http_chunked_t \<Rightarrow> u_char \<Rightarrow> ngx_http_chunked_t outcome" where
  "ch_trailer ctx ch =
    (if ch = CR then Next (ctx\<lparr>chunk_state := sw_trailer_almost_done\<rparr>)
     else if ch = LF then Goto label_done ctx
     else Next (ctx\<lparr>chunk_state := sw_trailer_header\<rparr>))"

definition ch_trailer_almost_done :: "ngx_http_chunked_t \<Rightarrow> u_char \<Rightarrow> ngx_http_chunked_t outcome" where
  "ch_trailer_almost_done ctx ch = (if ch = LF then Goto label_done ctx else Return NGX_ERROR ctx)"

definition chunked_step :: "u_char list \<Rightarrow> ngx_http_chunked_t \<Rightarrow> nat \<Rightarrow> u_char \<Rightarrow> ngx_http_chunked_t outcome" where
  "chunked_step buf ctx p ch = (case chunk_state ctx of
      sw_chunk_start \<Rightarrow> ch_start ctx ch
    | sw_chunk_size \<Rightarrow> ch_size ctx ch
    | sw_chunk_extension \<Rightarrow> ch_skip_line sw_chunk_extension_almost_done sw_chunk_data ctx ch
    | sw_chunk_extension_almost_done \<Rightarrow> ch_expect_lf sw_chunk_data ctx ch
    | sw_chunk_data \<Rightarrow> Goto label_data ctx
    | sw_after_data \<Rightarrow> ch_skip_line sw_after_data_almost_done sw_chunk_start ctx ch
    | sw_after_data_almost_done \<Rightarrow> ch_expect_lf sw_chunk_start ctx ch
    | sw_last_chunk_extension \<Rightarrow> ch_skip_line sw_last_chunk_extension_almost_done sw_trailer ctx ch
    | sw_last_chunk_extension_almost_done \<Rightarrow> ch_expect_lf sw_trailer ctx ch
    | sw_trailer \<Rightarrow> ch_trailer ctx ch
    | sw_trailer_almost_done \<Rightarrow> ch_trailer_almost_done ctx ch
    | sw_trailer_header \<Rightarrow> ch_skip_line sw_trailer_header_almost_done sw_trailer ctx ch
    | sw_trailer_header_almost_done \<Rightarrow> ch_expect_lf sw_trailer ctx ch)"

text \<open>The least number of bytes the rest of the body has, as computed behind \<open>data\<close>.\<close>

definition chunk_length :: "ngx_http_chunked_t \<Rightarrow> ngx_int_t" where
  "chunk_length ctx = (case chunk_state ctx of
      sw_chunk_start \<Rightarrow> 3
    | sw_chunk_size \<Rightarrow> 2 + (if size_of_chunk ctx \<noteq> 0 then size_of_chunk ctx + 4 else 0)
    | sw_chunk_extension \<Rightarrow> 1 + size_of_chunk ctx + 4
    | sw_chunk_extension_almost_done \<Rightarrow> 1 + size_of_chunk ctx + 4
    | sw_chunk_data \<Rightarrow> size_of_chunk ctx + 4
    | sw_after_data \<Rightarrow> 4
    | sw_after_data_almost_done \<Rightarrow> 4
    | sw_last_chunk_extension \<Rightarrow> 2
    | sw_last_chunk_extension_almost_done \<Rightarrow> 2
    | sw_trailer \<Rightarrow> 1
    | sw_trailer_almost_done \<Rightarrow> 1
    | sw_trailer_header \<Rightarrow> 2
    | sw_trailer_header_almost_done \<Rightarrow> 2)"

text \<open>The code behind \<open>data\<close>, reached with \<open>rc\<close> at the end of the buffer or in front of chunk data.\<close>

definition chunked_data :: "ngx_int_t \<Rightarrow> ngx_http_chunked_t \<Rightarrow> ngx_int_t \<times> ngx_http_chunked_t" where
  "chunked_data rc ctx =
    (let ctx = ctx\<lparr>length_of_rest := chunk_length ctx\<rparr> in
     (if size_of_chunk ctx <s 0 \<or> length_of_rest ctx <s 0 then NGX_ERROR else rc, ctx))"

definition chunked_enter :: "ngx_http_chunked_t \<Rightarrow> ngx_http_chunked_t" where
  "chunked_enter ctx =
    (if chunk_state ctx = sw_chunk_data \<and> size_of_chunk ctx = 0 then ctx\<lparr>chunk_state := sw_after_data\<rparr>
     else ctx)"

definition ngx_http_parse_chunked ::
    "ngx_http_chunked_t \<Rightarrow> ngx_buf_t \<Rightarrow> ngx_int_t \<times> ngx_http_chunked_t \<times> ngx_buf_t" where
  "ngx_http_parse_chunked ctx b = (case parse_loop chunked_step b (chunked_enter ctx) of
      At_last ctx' \<Rightarrow> (let (rc, c) = chunked_data NGX_AGAIN ctx' in (rc, c, b\<lparr>pos := last_of b\<rparr>))
    | At_label label_data ctx' p \<Rightarrow> (let (rc, c) = chunked_data NGX_OK ctx' in (rc, c, b\<lparr>pos := p\<rparr>))
    | At_label _ ctx' p \<Rightarrow> (NGX_DONE, ctx'\<lparr>chunk_state := sw_chunk_start\<rparr>, b\<lparr>pos := p + 1\<rparr>)
    | Returned rc ctx' \<Rightarrow> (rc, ctx'\<lparr>chunk_state := chunk_state ctx\<rparr>, b))"

section \<open>The status line: lemmas\<close>

lemma first_digit_bytes: "is_digit d \<and> d \<noteq> chr CHR ''0'' \<longrightarrow> \<not> d < chr CHR ''1'' \<and> \<not> chr CHR ''9'' < d"
  by (rule byte_ballI [where c = d]) (simp add: is_digit_def)

lemma sl_step_return:
  "case sl_step buf rs p ch of Next _ \<Rightarrow> True | Goto l _ \<Rightarrow> True | Return rc _ \<Rightarrow> rc = NGX_ERROR"
  by (cases rs; cases "state (fst rs)") (simp_all add: sl_step_def Let_def)

interpretation sl: resumable_parser sl_step ngx_http_parse_status_line "\<lambda>_ _. sl_done"
  "\<lambda>(r, _) (r', s'). (r'\<lparr>state := state r\<rparr>, s')" "\<lambda>(r, s). (r\<lparr>state := sw_start\<rparr>, s)"
proof unfold_locales
  fix buf rs p c rc rs'
  assume "sl_step buf rs p c = Return rc rs'"
  with sl_step_return [of buf rs p c] show "rc \<notin> {NGX_OK, NGX_AGAIN}" by simp
next
  fix rs rs' :: sl_request and p
  show "fst (sl_done rs' p) \<noteq> NGX_AGAIN" by (cases rs') (simp add: Let_def)
qed (auto simp: ngx_http_parse_status_line_def sl_step_def split: loop_end.split)

text \<open>A status line may arrive in any number of reads; resuming after \<open>NGX_AGAIN\<close> gives what one
  call on the whole buffer gives.\<close>

lemma status_line_resume:
  assumes "pos b \<le> last_of b" "ngx_http_parse_status_line rs b = (rc, rs', b')"
  shows "if rc = NGX_AGAIN
    then (\<exists>rc1 rs1 b1 rs2 b2.
        ngx_http_parse_status_line rs (feed b ext) = (rc1, rs1, b1) \<and>
        ngx_http_parse_status_line rs' (feed b' ext) = (rc1, rs2, b2) \<and>
        (case rs1 of (r, s) \<Rightarrow> (r\<lparr>state := sw_start\<rparr>, s)) = (case rs2 of (r, s) \<Rightarrow> (r\<lparr>state := sw_start\<rparr>, s)) \<and>
        (rc1 \<in> {NGX_OK, NGX_AGAIN} \<longrightarrow> rs1 = rs2 \<and> b1 = b2))
    else ngx_http_parse_status_line rs (feed b ext) = (rc, rs', feed b' ext)"
  using assms by (rule sl.resume)

definition fresh_status :: ngx_http_status_t where
  "fresh_status = \<lparr>status_http_version = 0, status_code = 0, status_count = 0, status_start = NULL, status_end = NULL\<rparr>"

lemma scan_sl_digits:
  assumes "list_all is_digit ds"
  shows "state r = sw_major_digit \<Longrightarrow>
      scan (sl_step buf) ds (r, s) p = At_last (r\<lparr>http_major := foldl digit16 (http_major r) ds\<rparr>, s)"
    and "state r = sw_minor_digit \<Longrightarrow>
      scan (sl_step buf) ds (r, s) p = At_last (r\<lparr>http_minor := foldl digit16 (http_minor r) ds\<rparr>, s)"
  using assms
proof (induction ds arbitrary: r p)
  case (Cons d ds)
  {
    case 1
    then have "sl_step buf (r, s) p d = Next (r\<lparr>http_major := digit16 (http_major r) d\<rparr>, s)"
      using digit_bytes [of d] by (simp add: sl_step_def)
    with 1 Cons.IH(1) show ?case by simp
  next
    case 2
    then have "sl_step buf (r, s) p d = Next (r\<lparr>http_minor := digit16 (http_minor r) d\<rparr>, s)"
      using digit_bytes [of d] by (simp add: sl_step_def)
    with 2 Cons.IH(2) show ?case by simp
  }
qed simp_all

lemma scan_status_text:
  assumes "state r = sw_status_text" "list_all (\<lambda>c. c \<noteq> CR \<and> c \<noteq> LF) t"
  shows "scan (sl_step buf) t (r, s) p = At_last (r, s)"
  using assms by (induction t arbitrary: p) (simp_all add: sl_step_def)

lemma scan_sl_version:
  assumes "state r = sw_start" "list_all is_digit (d # ds)" "d \<noteq> chr CHR ''0''" "list_all is_digit (e # es)"
  shows "scan (sl_step buf) (str ''HTTP/'' @ (d # ds) @ str ''.'' @ (e # es) @ str '' '') (r, s) p =
    At_last (r\<lparr>http_major := word_of_nat (dec_val (d # ds)), http_minor := word_of_nat (dec_val (e # es)),
        state := sw_status\<rparr>, s)"
proof -
  have d: "\<not> d < chr CHR ''1''" "\<not> chr CHR ''9'' < d"
    using first_digit_bytes [of d] assms(2,3) by simp_all
  let ?r1 = "r\<lparr>http_major := word_of_nat (dec_val (d # ds)), state := sw_major_digit\<rparr>"
  let ?r2 = "?r1\<lparr>http_minor := word_of_nat (dec_val (e # es)), state := sw_minor_digit\<rparr>"
  have 1: "scan (sl_step buf) (str ''HTTP/'' @ d # ds) (r, s) p = At_last (?r1, s)"
    using assms d digits16_dec_val [of d ds] by (simp add: sl_step_def scan_sl_digits)
  have 2: "scan (sl_step buf) (str ''.'' @ e # es) (?r1, s) (p + length (str ''HTTP/'' @ d # ds)) = At_last (?r2, s)"
    using assms digits16_dec_val [of e es] by (simp add: sl_step_def scan_sl_digits)
  have "scan (sl_step buf) ((str ''HTTP/'' @ d # ds) @ (str ''.'' @ e # es) @ str '' '') (r, s) p =
      scan (sl_step buf) (str '' '') (?r2, s) (p + length (str ''HTTP/'' @ d # ds) + length (str ''.'' @ e # es))"
    using scan_chain [OF 1] scan_chain [OF 2] by simp
  then show ?thesis by (simp add: sl_step_def)
qed

lemma scan_sl_code:
  assumes "state r = sw_status" "status_code s = 0" "status_count s = 0" "list_all is_digit [x, y, z]"
  shows "scan (sl_step buf) ([x, y, z] @ str '' '') (r, s) p =
    At_last (r\<lparr>state := sw_status_text\<rparr>, s\<lparr>status_code := word_of_nat (dec_val [x, y, z]), status_count := 3,
      status_start := Some p\<rparr>)"
proof -
  have digit: "(ucast c :: ngx_uint_t) = ucast (c - chr CHR ''0'') + 0x30" if "is_digit c" for c
  proof -
    have "48 \<le> unat c" using that by (simp add: is_digit_def word_le_nat_alt)
    moreover have "unat (c - chr CHR ''0'') = unat c - 48"
      using calculation by (simp add: unat_sub word_le_nat_alt)
    ultimately have "unat c = unat (c - chr CHR ''0'') + 48" by simp
    then have "(word_of_nat (unat c) :: ngx_uint_t) = word_of_nat (unat (c - chr CHR ''0'') + 48)" by simp
    then show ?thesis by simp
  qed
  show ?thesis
    using assms digit_bytes [of x] digit_bytes [of y] digit_bytes [of z]
    by (simp add: sl_step_def dec_val_def digit [of x] digit [of y] digit [of z] Let_def)
qed

text \<open>C13: a status line made of an HTTP version, three digits and a reason phrase is consumed, the code
  and the version are computed from the digits, and \<open>start\<close> and \<open>end\<close> delimit the code and the
  phrase.\<close>

theorem status_line_wellformed:
  assumes "state r = sw_start" "s = fresh_status"
    and "list_all is_digit maj" "maj \<noteq> []" "hd maj \<noteq> chr CHR ''0''" "list_all is_digit mnr" "mnr \<noteq> []"
    and "list_all is_digit [x, y, z]" "list_all (\<lambda>c. c \<noteq> CR \<and> c \<noteq> LF) text"
    and head: "head = str ''HTTP/'' @ maj @ str ''.'' @ mnr @ str '' ''"
    and line: "line = [x, y, z] @ str '' '' @ text"
  shows "\<exists>r' s'. ngx_http_parse_status_line (r, s) \<lparr>data = head @ line @ [CR, LF] @ rest, pos = 0\<rparr> =
      (NGX_OK, (r', s'), \<lparr>data = head @ line @ [CR, LF] @ rest, pos = length head + length line + 2\<rparr>) \<and>
    status_code s' = word_of_nat (dec_val [x, y, z]) \<and> state r' = sw_start \<and>
    status_http_version s' = word_of_nat (dec_val maj mod 65536 * 1000 + dec_val mnr mod 65536) \<and>
    status_start s' = Some (length head) \<and> status_end s' = Some (length head + length line)"
proof -
  obtain d ds e es where v: "maj = d # ds" "mnr = e # es" using assms(4,7) by (cases maj; cases mnr) auto
  define buf where "buf = head @ line @ [CR, LF] @ rest"
  let ?r1 = "r\<lparr>http_major := word_of_nat (dec_val maj), http_minor := word_of_nat (dec_val mnr), state := sw_status\<rparr>"
  let ?r2 = "?r1\<lparr>state := sw_status_text\<rparr>"
  let ?s2 = "s\<lparr>status_code := word_of_nat (dec_val [x, y, z]), status_count := 3, status_start := Some (length head)\<rparr>"
  have 1: "scan (sl_step buf) head (r, s) 0 = At_last (?r1, s)"
    unfolding head v by (rule scan_sl_version) (use assms(1,3,5,6) v in simp_all)
  have 2: "scan (sl_step buf) ([x, y, z] @ str '' '') (?r1, s) (length head) = At_last (?r2, ?s2)"
    using scan_sl_code [of ?r1 s x y z] assms(2,8) by (simp add: fresh_status_def)
  have 3: "scan (sl_step buf) text (?r2, ?s2) (length head + 4) = At_last (?r2, ?s2)"
    by (rule scan_status_text) (use assms(9) in simp_all)
  have 4: "scan (sl_step buf) ([CR, LF] @ rest) (?r2, ?s2) (length head + 4 + length text) =
      At_label label_done (?r2\<lparr>state := sw_almost_done\<rparr>, ?s2\<lparr>status_end := Some (length head + length line)\<rparr>)
        (length head + length line + 1)"
    by (simp add: sl_step_def line)
  have "scan (sl_step buf) (head @ ([x, y, z] @ str '' '') @ text @ [CR, LF] @ rest) (r, s) 0 =
      scan (sl_step buf) (([x, y, z] @ str '' '') @ text @ [CR, LF] @ rest) (?r1, s) (0 + length head)"
    by (rule scan_chain [OF 1])
  also have "0 + length head = length head" by simp
  also have "scan (sl_step buf) (([x, y, z] @ str '' '') @ text @ [CR, LF] @ rest) (?r1, s) (length head) =
      scan (sl_step buf) (text @ [CR, LF] @ rest) (?r2, ?s2) (length head + length ([x, y, z] @ str '' ''))"
    by (rule scan_chain [OF 2])
  also have "length head + length ([x, y, z] @ str '' '') = length head + 4" by simp
  also have "scan (sl_step buf) (text @ [CR, LF] @ rest) (?r2, ?s2) (length head + 4) =
      scan (sl_step buf) ([CR, LF] @ rest) (?r2, ?s2) (length head + 4 + length text)"
    by (rule scan_chain [OF 3])
  also note 4
  finally have "parse_loop sl_step \<lparr>data = buf, pos = 0\<rparr> (r, s) =
      At_label label_done (?r2\<lparr>state := sw_almost_done\<rparr>, ?s2\<lparr>status_end := Some (length head + length line)\<rparr>)
        (length head + length line + 1)"
    by (simp add: parse_loop_def buf_def line)
  then show ?thesis
    unfolding ngx_http_parse_status_line_def buf_def [symmetric]
    by (simp add: ucast_word_of_nat_16 line)
qed

theorem status_line_wellformed_witness:
  "\<exists>r' s' b'. ngx_http_parse_status_line (fresh_request sw_start, fresh_status)
      \<lparr>data = str ''HTTP/1.1 '' @ str ''404 Not Found'' @ [CR, LF] @ [], pos = 0\<rparr> = (NGX_OK, (r', s'), b') \<and>
    status_code s' = 404 \<and> status_http_version s' = 1001"
proof -
  have d: "dec_val (str ''1'') = 1" by (simp add: dec_val_def)
  show ?thesis
    using status_line_wellformed [of "fresh_request sw_start" fresh_status "str ''1''" "str ''1''"
        "chr CHR ''4''" "chr CHR ''0''" "chr CHR ''4''" "str ''Not Found''" "str ''HTTP/1.1 ''"
        "str ''404 Not Found''" "[]"] d
    by (auto simp: is_digit_def fresh_request_def dec_val_def)
qed

section \<open>Chunked bodies: lemmas\<close>

text \<open>The value of a string of hexadecimal digits.\<close>

definition hex_val :: "ngx_str \<Rightarrow> nat" where
  "hex_val s = foldl (\<lambda>v c. v * 16 + (case chunk_digit c of Some d \<Rightarrow> unat d | None \<Rightarrow> 0)) 0 s"

definition is_hex :: "u_char \<Rightarrow> bool" where
  "is_hex c = (chunk_digit c \<noteq> None)"

text \<open>In the states between the size and the data the size is not zero.\<close>

definition chunk_inv :: "u_char list \<Rightarrow> ngx_http_chunked_t \<Rightarrow> nat \<Rightarrow> bool" where
  "chunk_inv buf ctx p = (chunk_state ctx \<in> {sw_chunk_extension, sw_chunk_extension_almost_done, sw_chunk_data} \<longrightarrow>
     size_of_chunk ctx \<noteq> 0)"

fun chunk_out :: "goto_label \<Rightarrow> u_char list \<Rightarrow> ngx_http_chunked_t \<Rightarrow> nat \<Rightarrow> bool" where
  "chunk_out label_data buf ctx p = (chunk_state ctx = sw_chunk_data \<and> size_of_chunk ctx \<noteq> 0)"
| "chunk_out _ buf ctx p = True"

lemmas chunk_defs = ch_start_def ch_size_def ch_skip_line_def ch_expect_lf_def ch_trailer_def
  ch_trailer_almost_done_def

lemma chunked_step_inv:
  assumes "chunk_inv buf ctx p"
  shows "case chunked_step buf ctx p c of Next ctx' \<Rightarrow> chunk_inv buf ctx' (Suc p)
    | Goto l ctx' \<Rightarrow> chunk_out l buf ctx' p | Return rc ctx' \<Rightarrow> rc = NGX_ERROR"
  using assms
  by (cases "chunk_state ctx") (auto simp: chunked_step_def chunk_defs chunk_inv_def split: option.split)

interpretation chunked: invariant_parser chunked_step chunk_inv chunk_out "\<lambda>rc. rc = NGX_ERROR"
  by unfold_locales (simp add: chunked_step_def, use chunked_step_inv in blast)

lemma chunk_inv_enter: "chunk_inv buf ctx p \<or> chunk_state ctx = sw_chunk_data \<Longrightarrow> chunk_inv buf (chunked_enter ctx) p"
  by (auto simp: chunk_inv_def chunked_enter_def)

text \<open>\<open>length\<close> is an output: the loop does not read it.\<close>

lemma chunked_step_length:
  "chunked_step buf (ctx\<lparr>length_of_rest := l\<rparr>) p c =
    map_outcome (\<lambda>ctx. ctx\<lparr>length_of_rest := l\<rparr>) (chunked_step buf ctx p c)"
  by (cases "chunk_state ctx") (simp_all add: chunked_step_def chunk_defs split: option.split)

lemma scan_length:
  "scan (chunked_step buf) xs (ctx\<lparr>length_of_rest := l\<rparr>) p =
    map_loop_end (\<lambda>ctx. ctx\<lparr>length_of_rest := l\<rparr>) (scan (chunked_step buf) xs ctx p)"
  by (induction xs arbitrary: ctx p) (auto simp: chunked_step_length split: outcome.split)

lemma chunk_digits_scan:
  assumes "list_all is_hex hs" "chunk_state ctx = sw_chunk_size" "size_of_chunk ctx = word_of_nat n"
  shows "scan (chunked_step buf) hs ctx p = At_last (ctx\<lparr>size_of_chunk :=
    word_of_nat (foldl (\<lambda>v c. v * 16 + (case chunk_digit c of Some d \<Rightarrow> unat d | None \<Rightarrow> 0)) n hs)\<rparr>)"
  using assms
proof (induction hs arbitrary: ctx p n)
  case (Cons c hs)
  then obtain d where d: "chunk_digit c = Some d" by (auto simp: is_hex_def)
  have "chunked_step buf ctx p c = Next (ctx\<lparr>size_of_chunk := word_of_nat (n * 16 + unat d)\<rparr>)"
    using Cons.prems(2,3) d by (simp add: chunked_step_def ch_size_def)
  then show ?case
    using Cons.IH [of "ctx\<lparr>size_of_chunk := word_of_nat (n * 16 + unat d)\<rparr>" "n * 16 + unat d" "Suc p"]
      Cons.prems(1,2) d by simp
qed simp

lemma chunk_size_scan:
  assumes "list_all is_hex hs" "hs \<noteq> []" "chunk_state ctx = sw_chunk_start"
  shows "scan (chunked_step buf) hs ctx p =
    At_last (ctx\<lparr>chunk_state := sw_chunk_size, size_of_chunk := word_of_nat (hex_val hs)\<rparr>)"
proof -
  obtain c cs where hs: "hs = c # cs" using assms(2) by (cases hs) auto
  then obtain d where d: "chunk_digit c = Some d" using assms(1) by (auto simp: is_hex_def)
  let ?ctx = "ctx\<lparr>chunk_state := sw_chunk_size, size_of_chunk := d\<rparr>"
  have "chunked_step buf ctx p c = Next ?ctx"
    using assms(3) d by (simp add: chunked_step_def ch_start_def)
  moreover have "scan (chunked_step buf) cs ?ctx (Suc p) = At_last (?ctx\<lparr>size_of_chunk := word_of_nat (hex_val hs)\<rparr>)"
    using chunk_digits_scan [of cs ?ctx "unat d" buf "Suc p"] assms(1) d by (simp add: hs hex_val_def)
  ultimately show ?thesis by (simp add: hs)
qed

end
