(* ===== verification/Http_Body.thy ===== *)
theory Http_Body
  imports Http_Response
begin

text \<open>
  Request and response bodies: \<open>ngx_http_request_body_length_filter\<close> and
  \<open>ngx_http_request_body_chunked_filter\<close> of \<^verbatim>\<open>src/nginx-1.4.4/src/http/ngx_http_request_body.c\<close>, which
  cut a body out of the buffers read from the client, and \<open>ngx_http_chunked_body_filter\<close> of
  \<^verbatim>\<open>src/nginx-1.4.4/src/http/modules/ngx_http_chunked_filter_module.c\<close>, which writes a response in
  chunks. The allocation of chain links and buffer headers is taken to succeed, and the call of the
  next filter with the resulting chain is the caller's.
\<close>

section \<open>Cutting the body out of the buffers read\<close>

text \<open>An output buffer: its bytes and the flag \<open>last_buf\<close>.\<close>

record body_buf =
  buf_bytes :: "u_char list"
  buf_last :: bool

text \<open>The fields of \<open>r->request_body\<close> and \<open>r->headers_in\<close> the filters use.\<close>

record request_body =
  rb_rest :: ngx_int_t
  rb_chunked :: ngx_http_chunked_t
  content_length_n :: ngx_int_t
  lingering_close :: bool

definition fresh_chunked :: ngx_http_chunked_t where
  "fresh_chunked = \<lparr>chunk_state = sw_chunk_start, size_of_chunk = 0, length_of_rest = 0\<rparr>"

abbreviation unread :: "ngx_buf_t \<Rightarrow> u_char list" where
  "unread b \<equiv> drop (pos b) (data b)"




text \<open>What a successful call of \<open>ngx_http_parse_chunked\<close> in front of chunk data consumes: the data of the
  chunk, or as much of it as there is.\<close>

definition take_chunk_data :: "request_body \<Rightarrow> ngx_buf_t \<Rightarrow> request_body \<times> ngx_buf_t \<times> body_buf" where
  "take_chunk_data rb b =
    (let size = last_of b - pos b; ctx = rb_chunked rb in
     if int size > sint (size_of_chunk ctx) then
       let n = nat (sint (size_of_chunk ctx)) in
       (rb\<lparr>rb_chunked := ctx\<lparr>size_of_chunk := 0\<rparr>, content_length_n := content_length_n rb + size_of_chunk ctx\<rparr>,
        b\<lparr>pos := pos b + n\<rparr>, \<lparr>buf_bytes = take n (unread b), buf_last = False\<rparr>)
     else
       (rb\<lparr>rb_chunked := ctx\<lparr>size_of_chunk := size_of_chunk ctx - word_of_nat size\<rparr>,
           content_length_n := content_length_n rb + word_of_nat size\<rparr>,
        b\<lparr>pos := last_of b\<rparr>, \<lparr>buf_bytes = unread b, buf_last = False\<rparr>))"

abbreviation (input) NGX_HTTP_BAD_REQUEST :: ngx_int_t where "NGX_HTTP_BAD_REQUEST \<equiv> 400"
abbreviation (input) NGX_HTTP_REQUEST_ENTITY_TOO_LARGE :: ngx_int_t where
  "NGX_HTTP_REQUEST_ENTITY_TOO_LARGE \<equiv> 413"

text \<open>Progress of the inner loop: a chunk is found behind the position, or data is taken.\<close>

lemma scan_label_pos:
  assumes "scan f xs s p = At_label l s' q"
  shows "p \<le> q \<and> q < p + length xs \<and> (q = p \<longrightarrow> f s p (hd xs) = Goto l s')"
  using assms
proof (induction xs arbitrary: s p)
  case (Cons x xs)
  then show ?case by (force split: outcome.splits)
qed simp

lemma scan_chunked_return: "scan (chunked_step buf) xs ctx p = Returned rc ctx' \<Longrightarrow> rc = NGX_ERROR"
proof (induction xs arbitrary: ctx p)
  case (Cons x xs)
  have "chunked_step buf ctx p x = Return rc' ctx'' \<Longrightarrow> rc' = NGX_ERROR" for rc' ctx''
    by (cases "chunk_state ctx") (auto simp: chunked_step_def chunk_defs split: option.splits if_splits)
  with Cons show ?case by (auto split: outcome.splits)
qed simp

lemma chunked_ok_cases:
  assumes "ngx_http_parse_chunked ctx b = (NGX_OK, ctx', b')"
  obtains ctx1 p where "parse_loop chunked_step b (chunked_enter ctx) = At_label label_data ctx1 p"
    "ctx' = ctx1\<lparr>length_of_rest := chunk_length ctx1\<rparr>" "b' = b\<lparr>pos := p\<rparr>"
    "\<not> size_of_chunk ctx1 <s 0"
proof (cases "parse_loop chunked_step b (chunked_enter ctx)")
  case (At_last ctx1)
  with assms show thesis by (simp add: ngx_http_parse_chunked_def chunked_data_def Let_def split: if_splits)
next
  case (At_label l ctx1 p)
  with assms that show thesis
    by (cases l) (auto simp: ngx_http_parse_chunked_def chunked_data_def Let_def split: if_splits)
next
  case (Returned rc ctx1)
  with assms show thesis
    using scan_chunked_return [of "data b"] by (force simp: ngx_http_parse_chunked_def parse_loop_def)
qed

lemma chunked_ok_progress:
  assumes "ngx_http_parse_chunked ctx b = (NGX_OK, ctx', b')"
  shows "pos b \<le> pos b' \<and> pos b' < last_of b' \<and> data b' = data b \<and>
    (pos b < pos b' \<or> 0 < sint (size_of_chunk ctx'))"
proof -
  obtain ctx1 p where l: "parse_loop chunked_step b (chunked_enter ctx) = At_label label_data ctx1 p"
    and c: "ctx' = ctx1\<lparr>length_of_rest := chunk_length ctx1\<rparr>" "b' = b\<lparr>pos := p\<rparr>" "\<not> size_of_chunk ctx1 <s 0"
    using chunked_ok_cases [OF assms] by blast
  have s: "pos b \<le> p \<and> p < pos b + length (unread b)"
    "p = pos b \<Longrightarrow> chunked_step (data b) (chunked_enter ctx) p (hd (unread b)) = Goto label_data ctx1"
    using scan_label_pos [of _ "unread b" "chunked_enter ctx" "pos b"] l by (auto simp: parse_loop_def)
  have "0 < sint (size_of_chunk ctx1)" if "p = pos b"
  proof -
    from s(2) [OF that] have "chunk_state (chunked_enter ctx) = sw_chunk_data \<and> ctx1 = chunked_enter ctx"
      by (cases "chunk_state (chunked_enter ctx)")
        (auto simp: chunked_step_def chunk_defs split: option.splits if_splits)
    then have "size_of_chunk ctx1 \<noteq> 0" by (auto simp: chunked_enter_def split: if_splits)
    with c(3) show ?thesis by (simp add: word_sless_alt signed_eq_0_iff order_less_le)
  qed
  with s(1) c show ?thesis by (cases "p = pos b") auto
qed

lemma take_chunk_data_pos:
  assumes "take_chunk_data rb b = (rb', b', out)" "pos b < last_of b"
  shows "data b' = data b \<and> pos b \<le> pos b' \<and> pos b' \<le> last_of b \<and>
    (0 < sint (size_of_chunk (rb_chunked rb)) \<longrightarrow> pos b < pos b')"
  using assms by (auto simp: take_chunk_data_def Let_def split: if_splits)

text \<open>The inner loop over one buffer of the chain. The result is the code the filter returns at once, if
  any, the state, the buffer and what was appended to \<open>out\<close>.\<close>

function chunked_filter_buf ::
    "ngx_int_t \<Rightarrow> request_body \<Rightarrow> ngx_buf_t \<Rightarrow> ngx_int_t option \<times> request_body \<times> ngx_buf_t \<times> body_buf list" where
  "chunked_filter_buf client_max_body_size rb b =
    (case ngx_http_parse_chunked (rb_chunked rb) b of (rc, ctx, b1) \<Rightarrow>
      let rb1 = rb\<lparr>rb_chunked := ctx\<rparr> in
      if rc = NGX_OK then
        if client_max_body_size \<noteq> 0 \<and> client_max_body_size <s content_length_n rb1 + size_of_chunk ctx
        then (Some NGX_HTTP_REQUEST_ENTITY_TOO_LARGE, rb1\<lparr>lingering_close := True\<rparr>, b1, [])
        else
          (case take_chunk_data rb1 b1 of (rb2, b2, out) \<Rightarrow>
            case chunked_filter_buf client_max_body_size rb2 b2 of (e, rb3, b3, outs) \<Rightarrow>
              (e, rb3, b3, out # outs))
      else if rc = NGX_DONE then
        (None, rb1\<lparr>rb_rest := 0\<rparr>, b1, [\<lparr>buf_bytes = [], buf_last = True\<rparr>])
      else if rc = NGX_AGAIN then (None, rb1\<lparr>rb_rest := length_of_rest ctx\<rparr>, b1, [])
      else (Some NGX_HTTP_BAD_REQUEST, rb1, b1, []))"
  by pat_completeness auto
termination
proof (relation "measure (\<lambda>(m, rb, b). last_of b - pos b)", simp, clarsimp simp: Let_def)
  fix rb b ctx b1 rb2 b2 out
  assume p: "(NGX_OK, ctx, b1) = ngx_http_parse_chunked (rb_chunked rb) b"
    and t: "(rb2, b2, out) = take_chunk_data (rb\<lparr>rb_chunked := ctx\<rparr>) b1"
  from chunked_ok_progress [OF p [symmetric]] take_chunk_data_pos [OF t [symmetric]]
  show "last_of b2 - pos b2 < last_of b - pos b" by auto
qed

declare chunked_filter_buf.simps [simp del]

primrec chunked_filter_loop ::
    "ngx_int_t \<Rightarrow> request_body \<Rightarrow> ngx_buf_t list \<Rightarrow> ngx_int_t option \<times> request_body \<times> body_buf list" where
  "chunked_filter_loop m rb [] = (None, rb, [])"
| "chunked_filter_loop m rb (b # bs) =
    (case chunked_filter_buf m rb b of (e, rb1, b1, out) \<Rightarrow>
      case e of Some rc \<Rightarrow> (Some rc, rb1, out)
      | None \<Rightarrow> (case chunked_filter_loop m rb1 bs of (e', rb2, outs) \<Rightarrow> (e', rb2, out @ outs)))"

definition ngx_http_request_body_chunked_filter ::
    "ngx_int_t \<Rightarrow> request_body \<Rightarrow> ngx_buf_t list \<Rightarrow> ngx_int_t option \<times> request_body \<times> body_buf list" where
  "ngx_http_request_body_chunked_filter m rb bs =
    chunked_filter_loop m
      (if rb_rest rb = - 1 then rb\<lparr>rb_chunked := fresh_chunked, content_length_n := 0, rb_rest := 3\<rparr> else rb) bs"

section \<open>Writing a response in chunks\<close>

text \<open>The fields of the request that decide whether the response is chunked. The response filters after these
  two are called by whoever composes them.\<close>

record response =
  resp_status :: ngx_uint_t
  resp_is_main :: bool
  resp_method :: ngx_uint_t
  resp_content_length :: ngx_int_t
  resp_http_version :: ngx_uint_t
  resp_keepalive :: bool
  resp_chunked :: bool
  resp_header_only :: bool

definition ngx_http_chunked_header_filter :: "bool \<Rightarrow> response \<Rightarrow> response" where
  "ngx_http_chunked_header_filter chunked_transfer_encoding r =
    (if resp_status r = 304 \<or> resp_status r = 204 \<or> resp_status r < 200 \<or> \<not> resp_is_main r \<or>
        resp_method r AND 4 \<noteq> 0
     then r
     else if resp_content_length r = - 1 then
       if resp_http_version r < 1001 then r\<lparr>resp_keepalive := False\<rparr>
       else if chunked_transfer_encoding then r\<lparr>resp_chunked := True\<rparr>
       else r\<lparr>resp_keepalive := False\<rparr>
     else r)"

text \<open>A buffer of the response: its contents, in memory or in a file, and its flags.\<close>

record out_buf =
  contents :: "u_char list"
  in_memory :: bool
  in_file :: bool
  flush :: bool
  sync :: bool
  last_buf :: bool

definition ngx_buf_size :: "out_buf \<Rightarrow> nat" where
  "ngx_buf_size b = length (contents b)"

definition memory_buf :: "u_char list \<Rightarrow> bool \<Rightarrow> out_buf" where
  "memory_buf s l = \<lparr>contents = s, in_memory = True, in_file = False, flush = False, sync = False, last_buf = l\<rparr>"

text \<open>The flag \<open>last_buf\<close> of the last input buffer, which is shared with the output, is cleared.\<close>

definition clear_last :: "out_buf list \<Rightarrow> out_buf list" where
  "clear_last bs = butlast bs @ [(last bs)\<lparr>last_buf := False\<rparr>]"

definition chunked_links :: "out_buf list \<Rightarrow> out_buf list" where
  "chunked_links bs = filter (\<lambda>b. flush b \<or> sync b \<or> in_memory b \<or> in_file b) bs"

text \<open>\<open>sprintf("%xO" CRLF, size)\<close>, in a buffer for 16 digits and the line end.\<close>

definition chunk_head :: "nat \<Rightarrow> u_char list" where
  "chunk_head n = ngx_sprintf_num 16 (word_of_nat n) 0 1 0 @ [CR, LF]"

definition ngx_http_chunked_body_filter :: "response \<Rightarrow> out_buf list \<Rightarrow> out_buf list" where
  "ngx_http_chunked_body_filter r bs =
    (if bs = [] \<or> \<not> resp_chunked r \<or> resp_header_only r then bs
     else
       let size = sum_list (map ngx_buf_size bs);
           out = (if size \<noteq> 0 then [memory_buf (chunk_head size) False] else [])
       in if last_buf (last bs) then
            out @ chunked_links (clear_last bs) @
              [memory_buf (if size = 0 then str ''0'' @ [CR, LF, CR, LF]
                           else [CR, LF] @ str ''0'' @ [CR, LF, CR, LF]) True]
          else if size > 0 then out @ chunked_links bs @ [memory_buf [CR, LF] False]
          else out @ chunked_links bs)"

section \<open>Chunked bodies byte by byte\<close>

text \<open>The specification of the chunked filter: a transducer that takes one byte at a time and yields the
  bytes of the body and whether the body is complete. It fails as soon as the size, or the rest computed
  from it, would be negative.\<close>

definition chunk_sane :: "ngx_http_chunked_t \<Rightarrow> bool" where
  "chunk_sane ctx = (\<not> size_of_chunk ctx <s 0 \<and> \<not> chunk_length ctx <s 0)"

definition chunk_byte :: "ngx_http_chunked_t \<Rightarrow> u_char \<Rightarrow> (ngx_http_chunked_t \<times> u_char list \<times> bool) option" where
  "chunk_byte ctx c =
    (let ctx = chunked_enter ctx in
     if chunk_state ctx = sw_chunk_data then Some (ctx\<lparr>size_of_chunk := size_of_chunk ctx - 1\<rparr>, [c], False)
     else (case chunked_step [] ctx 0 c of
        Next ctx' \<Rightarrow> if chunk_sane ctx' then Some (ctx', [], False) else None
      | Goto _ ctx' \<Rightarrow> Some (ctx'\<lparr>chunk_state := sw_chunk_start\<rparr>, [], True)
      | Return _ _ \<Rightarrow> None))"

text \<open>A run over some bytes: the state, the bytes of the body, and, when the body is complete, the bytes that
  follow it.\<close>

primrec chunk_run ::
    "ngx_http_chunked_t \<Rightarrow> u_char list \<Rightarrow> (ngx_http_chunked_t \<times> u_char list \<times> u_char list option) option" where
  "chunk_run ctx [] = Some (ctx, [], None)"
| "chunk_run ctx (c # cs) = (case chunk_byte ctx c of None \<Rightarrow> None
    | Some (ctx', out, True) \<Rightarrow> Some (ctx', out, Some cs)
    | Some (ctx', out, False) \<Rightarrow>
        (case chunk_run ctx' cs of None \<Rightarrow> None | Some (ctx'', out', left) \<Rightarrow> Some (ctx'', out @ out', left)))"

lemma chunk_run_append:
  "chunk_run ctx (xs @ ys) = (case chunk_run ctx xs of None \<Rightarrow> None
    | Some (ctx', out, Some left) \<Rightarrow> Some (ctx', out, Some (left @ ys))
    | Some (ctx', out, None) \<Rightarrow>
        (case chunk_run ctx' ys of None \<Rightarrow> None | Some (ctx'', out', left) \<Rightarrow> Some (ctx'', out @ out', left)))"
  by (induction xs arbitrary: ctx) (auto split: option.split prod.split bool.split)

lemma chunked_step_local: "chunked_step buf ctx p c = chunked_step [] ctx 0 c"
  by (simp add: chunked_step_def)

text \<open>What the end of the loop over \<open>xs\<close>, from \<open>ctx\<close> at \<open>p\<close>, says of the transducer.\<close>

fun run_end :: "ngx_http_chunked_t \<Rightarrow> u_char list \<Rightarrow> nat \<Rightarrow> ngx_http_chunked_t loop_end \<Rightarrow> bool" where
  "run_end ctx xs p (At_last ctx') \<longleftrightarrow>
     chunk_run ctx xs = Some (ctx', [], None) \<and> chunk_inv [] ctx' 0 \<and> (xs \<noteq> [] \<longrightarrow> chunk_sane ctx')"
| "run_end ctx xs p (At_label label_data ctx' q) \<longleftrightarrow>
     chunk_run ctx xs = chunk_run ctx' (drop (q - p) xs) \<and> chunk_state ctx' = sw_chunk_data \<and>
     size_of_chunk ctx' \<noteq> 0 \<and> (p < q \<longrightarrow> chunk_sane ctx') \<and> (p = q \<longrightarrow> ctx' = ctx)"
| "run_end ctx xs p (At_label _ ctx' q) \<longleftrightarrow>
     chunk_run ctx xs = Some (ctx'\<lparr>chunk_state := sw_chunk_start\<rparr>, [], Some (drop (Suc q - p) xs))"
| "run_end ctx xs p (Returned _ _) \<longleftrightarrow> False"

lemma run_end_Next:
  assumes "run_end ctx1 xs (Suc p) e" "e = scan f xs ctx1 (Suc p)"
    "chunk_sane ctx1" "chunk_run ctx (x # xs) = chunk_run ctx1 xs"
  shows "run_end ctx (x # xs) p e"
proof (cases e)
  case (At_last ctx')
  then have r: "chunk_run ctx1 xs = Some (ctx', [], None)" "chunk_inv [] ctx' 0" "xs \<noteq> [] \<longrightarrow> chunk_sane ctx'"
    using assms(1) by simp_all
  then have "chunk_sane ctx'" using assms(3) by (cases "xs = []") simp_all
  with r At_last assms(4) show ?thesis by (simp del: chunk_run.simps)
next
  case (At_label l ctx' q)
  with scan_label_pos [of f xs ctx1 "Suc p" l ctx' q] assms(2) have "Suc p \<le> q" by simp
  then have d: "drop (q - p) (x # xs) = drop (q - Suc p) xs" "drop (Suc q - p) (x # xs) = drop (Suc q - Suc p) xs"
    by (simp_all add: drop_Cons' Suc_diff_le)
  have r: "run_end ctx1 xs (Suc p) (At_label l ctx' q)" using assms(1) At_label by simp
  show ?thesis
  proof (cases "l = label_data")
    case True
    have "chunk_run ctx1 xs = chunk_run ctx' (drop (q - Suc p) xs)" "chunk_state ctx' = sw_chunk_data"
      "size_of_chunk ctx' \<noteq> 0" "chunk_sane ctx'"
      using r assms(3) \<open>Suc p \<le> q\<close> by (auto simp: True)
    then show ?thesis
      using \<open>Suc p \<le> q\<close> assms(4) by (simp only: At_label True run_end.simps d) simp
  next
    case False
    then show ?thesis
      using r assms(4) by (cases l) (simp_all only: At_label run_end.simps d goto_label.distinct simp_thms)
  qed
qed (use assms in simp)

lemma chunk_goto_done:
  "chunked_step [] ctx 0 x = Goto l ctx1 \<Longrightarrow> chunk_state ctx \<noteq> sw_chunk_data \<Longrightarrow> l = label_done"
  by (cases "chunk_state ctx") (auto simp: chunked_step_def chunk_defs split: option.splits if_splits)

lemma scan_chunk_run:
  assumes "chunk_inv [] ctx 0" "chunk_run ctx xs \<noteq> None"
  shows "run_end ctx xs p (scan (chunked_step buf) xs ctx p)"
  using assms
proof (induction xs arbitrary: ctx p)
  case (Cons x xs)
  have e: "chunked_enter ctx = ctx"
    using Cons.prems(1) by (auto simp: chunked_enter_def chunk_inv_def)
  note loc = chunked_step_local [of buf ctx p x]
  show ?case
  proof (cases "chunk_state ctx = sw_chunk_data")
    case True
    with Cons.prems(1) show ?thesis by (simp add: chunked_step_def chunk_inv_def)
  next
    case nd: False
    show ?thesis
    proof (cases "chunked_step [] ctx 0 x")
      case (Next ctx1)
      have i: "chunk_inv [] ctx1 0"
        using chunked_step_inv [OF Cons.prems(1), of x] Next by (simp add: chunk_inv_def)
      have s: "chunk_sane ctx1" "chunk_run ctx (x # xs) = chunk_run ctx1 xs"
        using Cons.prems(2) Next nd by (auto simp: chunk_byte_def e split: if_splits option.splits)
      with Cons.prems(2) Cons.IH [OF i] have "run_end ctx1 xs (Suc p) (scan (chunked_step buf) xs ctx1 (Suc p))" by simp
      with run_end_Next [OF _ refl s] show ?thesis by (simp add: loc Next)
    next
      case (Goto l ctx1)
      with chunk_goto_done nd have "l = label_done" by blast
      then show ?thesis
        using Goto Cons.prems(2) nd by (auto simp: loc chunk_byte_def e split: option.splits)
    next
      case (Return rc ctx1)
      with Cons.prems(2) nd show ?thesis by (simp add: chunk_byte_def e)
    qed
  qed
qed simp

lemma chunk_run_data:
  assumes "chunk_state ctx = sw_chunk_data" "size_of_chunk ctx = word_of_nat n" "length ys \<le> n" "n < 2 ^ 63"
  shows "chunk_run ctx (ys @ zs) =
    (case chunk_run (ctx\<lparr>size_of_chunk := word_of_nat (n - length ys)\<rparr>) zs of None \<Rightarrow> None
     | Some (c, out, left) \<Rightarrow> Some (c, ys @ out, left))"
  using assms
proof (induction ys arbitrary: ctx n)
  case Nil
  then have "ctx\<lparr>size_of_chunk := word_of_nat n\<rparr> = ctx" by simp
  then show ?case by (simp split: option.split prod.split)
next
  case (Cons y ys)
  obtain m where n: "n = Suc m" using Cons.prems(3) by (cases n) auto
  have "size_of_chunk ctx \<noteq> 0"
    using unat_word_of_nat_64 [OF Cons.prems(4)] Cons.prems(2) n by auto
  then have "chunk_byte ctx y = Some (ctx\<lparr>size_of_chunk := word_of_nat m\<rparr>, [y], False)"
    using Cons.prems(1,2) by (simp add: chunk_byte_def chunked_enter_def n)
  moreover have "chunk_run (ctx\<lparr>size_of_chunk := word_of_nat m\<rparr>) (ys @ zs) =
    (case chunk_run (ctx\<lparr>size_of_chunk := word_of_nat (m - length ys)\<rparr>) zs of None \<Rightarrow> None
     | Some (c, out, left) \<Rightarrow> Some (c, ys @ out, left))"
    using Cons.IH [of "ctx\<lparr>size_of_chunk := word_of_nat m\<rparr>" m] Cons.prems n by simp
  ultimately show ?case by (simp add: n split: option.split prod.split)
qed

text \<open>Two states are alike when they only differ in \<open>length\<close>, or in whether the end of the data has been
  noticed.\<close>

definition canon :: "ngx_http_chunked_t \<Rightarrow> ngx_http_chunked_t" where
  "canon ctx = chunked_enter (ctx\<lparr>length_of_rest := 0\<rparr>)"

definition view :: "(ngx_http_chunked_t \<times> 'a) option \<Rightarrow> (ngx_http_chunked_t \<times> 'a) option" where
  "view = map_option (\<lambda>(c, x). (canon c, x))"

lemma enter_length: "chunked_enter (ctx\<lparr>length_of_rest := l\<rparr>) = (chunked_enter ctx)\<lparr>length_of_rest := l\<rparr>"
  by (simp add: chunked_enter_def)

lemma enter_enter [simp]: "chunked_enter (chunked_enter ctx) = chunked_enter ctx"
  by (simp add: chunked_enter_def)

lemma canon_canon [simp]: "canon (canon ctx) = canon ctx"
  by (simp add: canon_def enter_length)

lemma canon_length [simp]: "canon (ctx\<lparr>length_of_rest := l\<rparr>) = canon ctx"
  by (simp add: canon_def)

lemma canon_enter [simp]: "canon (chunked_enter ctx) = canon ctx"
  by (simp add: canon_def enter_length)

lemma chunk_sane_length [simp]: "chunk_sane (ctx\<lparr>length_of_rest := l\<rparr>) = chunk_sane ctx"
  by (cases "chunk_state ctx") (simp_all add: chunk_sane_def chunk_length_def)

lemma chunk_inv_length [simp]: "chunk_inv buf (ctx\<lparr>length_of_rest := l\<rparr>) p = chunk_inv buf ctx p"
  by (simp add: chunk_inv_def)

lemma chunk_byte_length:
  "chunk_byte (ctx\<lparr>length_of_rest := l\<rparr>) c = map_option (\<lambda>(x, y). (x\<lparr>length_of_rest := l\<rparr>, y)) (chunk_byte ctx c)"
  by (simp add: chunk_byte_def enter_length chunked_step_length Let_def split: outcome.split)

lemma chunk_run_length:
  "chunk_run (ctx\<lparr>length_of_rest := l\<rparr>) xs = map_option (\<lambda>(x, y). (x\<lparr>length_of_rest := l\<rparr>, y)) (chunk_run ctx xs)"
  by (induction xs arbitrary: ctx) (auto simp: chunk_byte_length split: option.split bool.split)

lemma chunk_byte_enter: "chunk_byte (chunked_enter ctx) c = chunk_byte ctx c"
  by (simp add: chunk_byte_def)

lemma chunk_run_canon: "view (chunk_run (canon ctx) xs) = view (chunk_run ctx xs)"
proof (cases xs)
  case (Cons c cs)
  then have "chunk_run (canon ctx) xs = chunk_run (ctx\<lparr>length_of_rest := 0\<rparr>) xs"
    by (simp add: canon_def chunk_byte_enter)
  then show ?thesis
    by (cases "chunk_run ctx xs") (auto simp: chunk_run_length view_def)
qed (simp add: view_def)

lemma chunk_run_alike:
  assumes "canon ctx1 = canon ctx2" "chunk_run ctx1 xs = Some (c1, x)"
  obtains c2 where "chunk_run ctx2 xs = Some (c2, x)" "canon c2 = canon c1"
proof -
  have "view (chunk_run ctx2 xs) = view (chunk_run ctx1 xs)"
    using chunk_run_canon [of ctx1 xs] chunk_run_canon [of ctx2 xs] assms(1) by simp
  then have "view (chunk_run ctx2 xs) = Some (canon c1, x)"
    by (simp add: assms(2)) (simp add: view_def)
  with that show thesis by (auto simp: view_def)
qed

definition chunk_ok :: "ngx_http_chunked_t \<Rightarrow> bool" where
  "chunk_ok ctx = (chunk_inv [] (canon ctx) 0 \<and> chunk_sane (canon ctx))"

lemma chunk_ok_canon [simp]: "chunk_ok (canon ctx) = chunk_ok ctx"
  by (simp add: chunk_ok_def)

lemma sane_data:
  assumes "chunk_state ctx = sw_chunk_data" "chunk_sane ctx"
  obtains n where "size_of_chunk ctx = word_of_nat n" "n + 4 < 2 ^ 63"
proof -
  define n where "n = unat (size_of_chunk ctx)"
  have n: "n < 2 ^ 63" using assms(2) by (simp add: n_def chunk_sane_def sless_zero_64)
  have "\<not> size_of_chunk ctx + 4 <s 0" using assms by (simp add: chunk_sane_def chunk_length_def)
  moreover have "unat (size_of_chunk ctx + 4) = n + 4"
    using n by (simp add: unat_word_ariths n_def)
  ultimately have "n + 4 < 2 ^ 63" by (simp add: sless_zero_64)
  moreover have "size_of_chunk ctx = word_of_nat n" by (simp add: n_def)
  ultimately show thesis using that by blast
qed

lemma data_sane:
  assumes "chunk_state ctx = sw_chunk_data" "size_of_chunk ctx = word_of_nat n" "n + 4 < 2 ^ 63"
  shows "chunk_ok ctx"
proof (cases "n = 0")
  case True
  then show ?thesis
    using assms by (simp add: chunk_ok_def canon_def chunked_enter_def chunk_inv_def chunk_sane_def
        chunk_length_def sless_zero_64)
next
  case False
  have u: "unat (size_of_chunk ctx) = n"
    using assms(2,3) unat_word_of_nat_64 [of n] by simp
  then have "size_of_chunk ctx \<noteq> 0" using False by auto
  moreover have "unat (size_of_chunk ctx + 4) = n + 4"
    using u assms(3) by (simp add: unat_word_ariths)
  ultimately show ?thesis
    using assms u by (simp add: chunk_ok_def canon_def chunked_enter_def chunk_inv_def chunk_sane_def
        chunk_length_def sless_zero_64 del: word_of_nat_eq_0_iff)
qed

text \<open>What the filter makes of one buffer: the result of the transducer on its unread bytes.\<close>

definition filter_result ::
    "request_body \<Rightarrow> ngx_http_chunked_t \<Rightarrow> u_char list \<Rightarrow> u_char list option \<Rightarrow>
     ngx_int_t option \<times> request_body \<times> ngx_buf_t \<times> body_buf list \<Rightarrow> bool" where
  "filter_result rb c out left res = (case res of (e, rb', b', outs) \<Rightarrow>
     e = None \<and> canon (rb_chunked rb') = canon c \<and> concat (map buf_bytes outs) = out \<and>
     unread b' = (case left of None \<Rightarrow> [] | Some l \<Rightarrow> l) \<and>
     content_length_n rb' = content_length_n rb + word_of_nat (length out) \<and>
     filter buf_last outs = (case left of None \<Rightarrow> [] | Some _ \<Rightarrow> [\<lparr>buf_bytes = [], buf_last = True\<rparr>]) \<and>
     (left \<noteq> None \<longrightarrow> rb_rest rb' = 0))"

lemma chunk_ok_enter: "chunk_ok ctx \<Longrightarrow> chunk_inv [] (chunked_enter ctx) 0 \<and> chunk_sane (chunked_enter ctx)"
  by (simp add: chunk_ok_def canon_def enter_length)

lemma sint_word_of_nat_64: "n < 2 ^ 63 \<Longrightarrow> sint (word_of_nat n :: 64 word) = int n"
  by (simp add: signed_of_nat signed_take_bit_int_eq_self)

lemma take_chunk_data_nat:
  assumes "size_of_chunk (rb_chunked rb) = word_of_nat n" "n < 2 ^ 63" "pos b \<le> last_of b"
    and k: "k = min n (last_of b - pos b)"
  shows "take_chunk_data rb b =
    (rb\<lparr>rb_chunked := (rb_chunked rb)\<lparr>size_of_chunk := word_of_nat (n - k)\<rparr>,
        content_length_n := content_length_n rb + word_of_nat k\<rparr>,
     b\<lparr>pos := pos b + k\<rparr>, \<lparr>buf_bytes = take k (unread b), buf_last = False\<rparr>)"
proof -
  note s = sint_word_of_nat_64 [OF assms(2)]
  show ?thesis
    using assms(1,3) k by (auto simp: take_chunk_data_def Let_def s min_def of_nat_diff)
qed

text \<open>One call of the parser, seen by the transducer: the bytes run out, data follows, or the body ends.\<close>

lemma parse_chunked_run:
  assumes "chunk_ok ctx" "pos b \<le> last_of b" "chunk_run ctx (unread b) = Some (c, out, left)"
  obtains (again) c1 where "ngx_http_parse_chunked ctx b = (NGX_AGAIN, c1, b\<lparr>pos := last_of b\<rparr>)"
      "canon c1 = canon c" "out = []" "left = None"
  | (chunk) c1 c2 q n where "ngx_http_parse_chunked ctx b = (NGX_OK, c1, b\<lparr>pos := q\<rparr>)" "pos b \<le> q" "q < last_of b"
      "chunk_state c1 = sw_chunk_data" "size_of_chunk c1 = word_of_nat n" "0 < n" "n + 4 < 2 ^ 63"
      "chunk_run c1 (drop q (data b)) = Some (c2, out, left)" "canon c2 = canon c"
  | (complete) c1 q where "ngx_http_parse_chunked ctx b = (NGX_DONE, c1, b\<lparr>pos := Suc q\<rparr>)"
      "canon c1 = canon c" "out = []" "left = Some (drop (Suc q) (data b))"
proof -
  let ?ctx = "chunked_enter ctx"
  have ok: "chunk_inv [] ?ctx 0" "chunk_sane ?ctx" using chunk_ok_enter [OF assms(1)] by simp_all
  obtain c0 where run: "chunk_run ?ctx (unread b) = Some (c0, out, left)" and c0: "canon c0 = canon c"
    by (rule chunk_run_alike [OF canon_enter [symmetric] assms(3)])
  have e: "run_end ?ctx (unread b) (pos b) (parse_loop chunked_step b ?ctx)"
    unfolding parse_loop_def using ok(1) run by (intro scan_chunk_run) simp_all
  show thesis
  proof (cases "parse_loop chunked_step b ?ctx")
    case (At_last c1)
    with e run have c1: "c0 = c1" "out = []" "left = None" "unread b \<noteq> [] \<longrightarrow> chunk_sane c1" by auto
    then have "chunk_sane c1" using ok(2) run by (cases "unread b = []") auto
    then have "ngx_http_parse_chunked ctx b =
        (NGX_AGAIN, c1\<lparr>length_of_rest := chunk_length c1\<rparr>, b\<lparr>pos := last_of b\<rparr>)"
      by (simp add: ngx_http_parse_chunked_def At_last chunked_data_def chunk_sane_def)
    with again c1 c0 show thesis by simp
  next
    case (At_label l c1 q)
    with scan_label_pos [of "chunked_step (data b)" "unread b" ?ctx "pos b" l c1 q]
    have q: "pos b \<le> q" "q < last_of b" using assms(2) by (simp_all add: parse_loop_def)
    show thesis
    proof (cases "l = label_data")
      case True
      have "run_end ?ctx (unread b) (pos b) (At_label label_data c1 q)" using e At_label True by (simp only:)
      then have r: "chunk_run ?ctx (unread b) = chunk_run c1 (drop (q - pos b) (unread b))"
          "chunk_state c1 = sw_chunk_data" "size_of_chunk c1 \<noteq> 0"
        and s: "pos b < q \<longrightarrow> chunk_sane c1" "pos b = q \<longrightarrow> c1 = ?ctx"
        unfolding run_end.simps by blast+
      have sane: "chunk_sane c1" using s ok(2) q(1) by (cases "pos b = q") auto
      from sane_data [OF r(2) sane] obtain n where n: "size_of_chunk c1 = word_of_nat n" "n + 4 < 2 ^ 63" .
      with r(3) have "0 < n" by (cases n) auto
      have p: "ngx_http_parse_chunked ctx b = (NGX_OK, c1\<lparr>length_of_rest := chunk_length c1\<rparr>, b\<lparr>pos := q\<rparr>)"
        using sane by (simp add: ngx_http_parse_chunked_def At_label True chunked_data_def chunk_sane_def)
      have d: "drop (q - pos b) (unread b) = drop q (data b)" using q(1) by simp
      have "chunk_run (c1\<lparr>length_of_rest := chunk_length c1\<rparr>) (drop q (data b)) =
          Some (c0\<lparr>length_of_rest := chunk_length c1\<rparr>, out, left)"
        using run unfolding chunk_run_length r(1) d by simp
      from chunk [OF p q _ _ \<open>0 < n\<close> n(2) this] r(2) n(1) c0 show thesis by simp
    next
      case False
      then have "ngx_http_parse_chunked ctx b = (NGX_DONE, c1\<lparr>chunk_state := sw_chunk_start\<rparr>, b\<lparr>pos := Suc q\<rparr>)"
        by (cases l) (simp_all add: ngx_http_parse_chunked_def At_label)
      moreover have "c0 = c1\<lparr>chunk_state := sw_chunk_start\<rparr>" "out = []" "left = Some (drop (Suc q) (data b))"
        using False e run q(1) by (cases l; simp add: At_label)+
      ultimately show thesis using complete c0 by simp
    qed
  next
    case (Returned rc c1)
    with e show thesis by simp
  qed
qed

lemma chunked_filter_buf_run:
  assumes "pos b \<le> last_of b" "chunk_ok (rb_chunked rb)" "chunk_run (rb_chunked rb) (unread b) = Some (c, out, left)"
  shows "filter_result rb c out left (chunked_filter_buf 0 rb b)"
  using assms
proof (induction "last_of b - pos b" arbitrary: rb b c out left rule: less_induct)
  case less
  from less.prems(2,1,3) show ?case
  proof (cases rule: parse_chunked_run)
    case (again c1)
    then show ?thesis by (simp add: chunked_filter_buf.simps [of 0 rb b] filter_result_def)
  next
    case (complete c1 q)
    then show ?thesis by (simp add: chunked_filter_buf.simps [of 0 rb b] filter_result_def)
  next
    case (chunk c1 c2 q n)
    define k where "k = min n (last_of b - q)"
    let ?X = "drop q (data b)"
    let ?rb = "rb\<lparr>rb_chunked := c1\<lparr>size_of_chunk := word_of_nat (n - k)\<rparr>,
        content_length_n := content_length_n rb + word_of_nat k\<rparr>"
    let ?b = "b\<lparr>pos := q + k\<rparr>"
    have t: "take_chunk_data (rb\<lparr>rb_chunked := c1\<rparr>) (b\<lparr>pos := q\<rparr>) =
        (?rb, ?b, \<lparr>buf_bytes = take k ?X, buf_last = False\<rparr>)"
      using chunk take_chunk_data_nat [of "rb\<lparr>rb_chunked := c1\<rparr>" n "b\<lparr>pos := q\<rparr>" k]
      by (simp add: k_def)
    have kl: "length (take k ?X) = k" by (simp add: k_def)
    then have "chunk_run c1 ?X =
      (case chunk_run (c1\<lparr>size_of_chunk := word_of_nat (n - k)\<rparr>) (drop k ?X) of None \<Rightarrow> None
       | Some (c, o', l) \<Rightarrow> Some (c, take k ?X @ o', l))"
      using chunk_run_data [of c1 n "take k ?X" "drop k ?X", unfolded append_take_drop_id] chunk
      by (simp add: k_def)
    with chunk(8) obtain out' where out': "chunk_run (rb_chunked ?rb) (unread ?b) = Some (c2, out', left)"
        "out = take k ?X @ out'"
      by (auto simp: add.commute split: option.splits)
    have "chunk_ok (rb_chunked ?rb)"
      using chunk by (intro data_sane [of _ "n - k"]) simp_all
    moreover have "last_of ?b - pos ?b < last_of b - pos b" "pos ?b \<le> last_of ?b"
      using chunk by (auto simp: k_def)
    ultimately have "filter_result ?rb c2 out' left (chunked_filter_buf 0 ?rb ?b)"
      using less.hyps [of ?b ?rb] out'(1) by blast
    then show ?thesis
      using chunk(1,9) out'(2) kl
      by (auto simp: chunked_filter_buf.simps [of 0 rb b] t filter_result_def split: prod.split)
  qed
qed

lemma chunk_byte_ok:
  assumes "chunk_ok ctx" "chunk_byte ctx x = Some (c, y)"
  shows "chunk_ok c"
proof -
  let ?ctx = "chunked_enter ctx"
  have ok: "chunk_inv [] ?ctx 0" "chunk_sane ?ctx" using chunk_ok_enter [OF assms(1)] by simp_all
  show ?thesis
  proof (cases "chunk_state ?ctx = sw_chunk_data")
    case True
    obtain n where n: "size_of_chunk ?ctx = word_of_nat n" "n + 4 < 2 ^ 63" by (rule sane_data [OF True ok(2)])
    then have "0 < n" using ok(1) True by (cases n) (auto simp: chunk_inv_def)
    with n True assms(2) show ?thesis
      by (intro data_sane [of _ "n - 1"]) (auto simp: chunk_byte_def of_nat_diff)
  next
    case False
    then consider (Next) "chunked_step [] ?ctx 0 x = Next c" "chunk_sane c"
      | (Goto) l c1 where "chunked_step [] ?ctx 0 x = Goto l c1" "c = c1\<lparr>chunk_state := sw_chunk_start\<rparr>"
      using assms(2) by (auto simp: chunk_byte_def split: outcome.splits if_splits)
    then show ?thesis
    proof cases
      case Next
      then have "chunk_inv [] c 0" using chunked_step_inv [OF ok(1), of x] by (simp add: chunk_inv_def)
      moreover from this have "chunked_enter c = c" by (auto simp: chunked_enter_def chunk_inv_def)
      ultimately show ?thesis using Next by (simp add: chunk_ok_def canon_def enter_length)
    next
      case Goto
      then have "c1 = ?ctx"
        by (cases "chunk_state ?ctx") (auto simp: chunked_step_def chunk_defs split: option.splits if_splits)
      with Goto(2) ok(2) show ?thesis
        by (simp add: chunk_ok_def canon_def chunked_enter_def [of "_\<lparr>length_of_rest := 0\<rparr>"]
            chunk_inv_def chunk_sane_def chunk_length_def sless_zero_64)
    qed
  qed
qed

lemma chunk_run_ok: "chunk_ok ctx \<Longrightarrow> chunk_run ctx xs = Some (c, y) \<Longrightarrow> chunk_ok c"
proof (induction xs arbitrary: ctx y)
  case (Cons x xs)
  then obtain c1 o1 e where b: "chunk_byte ctx x = Some (c1, o1, e)" by (auto split: option.splits)
  have "chunk_ok c1" by (rule chunk_byte_ok [OF Cons.prems(1) b])
  with Cons.IH [of c1] Cons.prems(2) b show ?case by (cases e) (auto split: option.splits)
qed simp

lemma chunk_ok_alike: "canon c = canon c' \<Longrightarrow> chunk_ok c = chunk_ok c'"
  by (metis chunk_ok_canon)

text \<open>The chain of buffers: the body may end in the last buffer only.\<close>

lemma chunked_filter_loop_run:
  assumes "\<forall>b \<in> set bs. pos b \<le> last_of b" "chunk_ok (rb_chunked rb)"
    and "chunk_run (rb_chunked rb) (concat (map unread bs)) = Some (c, out, left)"
    and "\<forall>l. left = Some l \<longrightarrow> bs \<noteq> [] \<and> length l < length (unread (last bs))"
  shows "\<exists>rb' outs. chunked_filter_loop 0 rb bs = (None, rb', outs) \<and> canon (rb_chunked rb') = canon c \<and>
    concat (map buf_bytes outs) = out \<and> content_length_n rb' = content_length_n rb + word_of_nat (length out) \<and>
    filter buf_last outs = (case left of None \<Rightarrow> [] | Some _ \<Rightarrow> [\<lparr>buf_bytes = [], buf_last = True\<rparr>]) \<and>
    (left \<noteq> None \<longrightarrow> rb_rest rb' = 0)"
  using assms
proof (induction bs arbitrary: rb c out)
  case (Cons b bs)
  obtain c1 out1 left1 where r1: "chunk_run (rb_chunked rb) (unread b) = Some (c1, out1, left1)"
    using Cons.prems(3) by (auto simp: chunk_run_append split: option.splits)
  obtain rb1 b1 outs1 where f: "chunked_filter_buf 0 rb b = (None, rb1, b1, outs1)"
      "canon (rb_chunked rb1) = canon c1" "concat (map buf_bytes outs1) = out1"
      "content_length_n rb1 = content_length_n rb + word_of_nat (length out1)"
      "filter buf_last outs1 = (case left1 of None \<Rightarrow> [] | Some _ \<Rightarrow> [\<lparr>buf_bytes = [], buf_last = True\<rparr>])"
      "left1 \<noteq> None \<longrightarrow> rb_rest rb1 = 0"
    using chunked_filter_buf_run [OF _ Cons.prems(2) r1] Cons.prems(1)
    by (auto simp: filter_result_def split: prod.splits)
  show ?case
  proof (cases "bs = []")
    case True
    with Cons.prems(3) r1 f show ?thesis by auto
  next
    case False
    then have "left1 = None"
    proof (cases left1)
      case (Some l)
      then have "left = Some (l @ concat (map unread bs))"
        using Cons.prems(3) r1 by (simp add: chunk_run_append)
      moreover have "length (unread (last bs)) \<le> length (concat (map unread bs))"
        using False by (cases bs rule: rev_cases) auto
      ultimately show ?thesis using Cons.prems(4) False by fastforce
    qed simp
    then obtain out2 where r2: "chunk_run c1 (concat (map unread bs)) = Some (c, out2, left)" "out = out1 @ out2"
      using Cons.prems(3) r1 by (auto simp: chunk_run_append split: option.splits)
    obtain c2 where c2: "chunk_run (rb_chunked rb1) (concat (map unread bs)) = Some (c2, out2, left)" "canon c2 = canon c"
      by (rule chunk_run_alike [OF f(2) [symmetric] r2(1)])
    have "chunk_ok (rb_chunked rb1)"
      using chunk_run_ok [OF Cons.prems(2) r1] chunk_ok_alike [OF f(2)] by simp
    with Cons.IH [of rb1 c2 out2] c2(1) Cons.prems(1,4) False obtain rb2 outs2 where
      "chunked_filter_loop 0 rb1 bs = (None, rb2, outs2)" "canon (rb_chunked rb2) = canon c2"
      "concat (map buf_bytes outs2) = out2" "content_length_n rb2 = content_length_n rb1 + word_of_nat (length out2)"
      "filter buf_last outs2 = (case left of None \<Rightarrow> [] | Some _ \<Rightarrow> [\<lparr>buf_bytes = [], buf_last = True\<rparr>])"
      "left \<noteq> None \<longrightarrow> rb_rest rb2 = 0"
      by auto
    then show ?thesis
      using f r2(2) c2(2) \<open>left1 = None\<close> by simp
  qed
qed simp

section \<open>What the chunked filter writes\<close>

abbreviation (input) hex_step :: "nat \<Rightarrow> u_char \<Rightarrow> nat" where
  "hex_step v c \<equiv> v * 16 + (case chunk_digit c of Some d \<Rightarrow> unat d | None \<Rightarrow> 0)"

lemma chunk_digit_hex: "n < 16 \<Longrightarrow> chunk_digit (hex ! n) = Some (word_of_nat n)"
proof -
  have "list_all (\<lambda>n. chunk_digit (hex ! n) = Some (word_of_nat n)) [0..<16]"
    by (simp add: upt_conv_Cons chunk_digit_def hex_def is_digit_def)
  moreover assume "n < 16"
  then have "n \<in> set [0..<16]" by simp
  ultimately show ?thesis unfolding list_all_iff by blast
qed

lemma hex_digit_step:
  "unat (w AND 15 :: uint64) < 16" "unat (drop_bit 4 w) * 16 + unat (w AND 15) = unat (w :: uint64)"
proof -
  have m: "w AND 15 = take_bit 4 w" by (simp add: take_bit_eq_mask mask_eq_exp_minus_1)
  have a: "unat (w AND 15) = unat w mod 16"
    unfolding m unsigned_take_bit_eq by (simp add: take_bit_eq_mod)
  have b: "unat (drop_bit 4 w) = unat w div 16"
    by (simp only: unat_drop_bit_eq) (simp add: drop_bit_eq_div)
  show "unat (w AND 15) < 16" using a by simp
  show "unat (drop_bit 4 w) * 16 + unat (w AND 15) = unat w" unfolding a b by simp
qed

lemma sprintf_hex_digits:
  "(list_all is_hex acc \<longrightarrow> list_all is_hex (sprintf_hex hex w acc)) \<and>
   foldl hex_step 0 (sprintf_hex hex w acc) = foldl hex_step (unat w) acc \<and> sprintf_hex hex w acc \<noteq> []"
proof (induction "unat w" arbitrary: w acc rule: less_induct)
  case less
  let ?d = "unat (w AND 0xf)" and ?w = "drop_bit 4 w"
  have d: "chunk_digit (hex ! ?d) = Some (word_of_nat ?d)" by (rule chunk_digit_hex [OF hex_digit_step(1)])
  have u: "unat (word_of_nat ?d :: ngx_int_t) = ?d" by simp
  note s = hex_digit_step(2) [of w]
  show ?case
  proof (cases "?w = 0")
    case True
    with s d u show ?thesis by (simp add: sprintf_hex.simps [of hex w] Let_def is_hex_def)
  next
    case False
    then have "0 < unat ?w" by (simp add: unat_gt_0)
    then have "unat ?w < unat w" using s by linarith
    from less [OF this, of "hex ! ?d # acc"] False s d u show ?thesis
      by (simp add: sprintf_hex.simps [of hex w] Let_def is_hex_def)
  qed
qed

lemma sprintf_hex_length:
  "unat w < 16 ^ Suc k \<Longrightarrow> length (sprintf_hex tab w acc) \<le> length acc + Suc k"
proof (induction k arbitrary: w acc)
  case 0
  then have "unat w < 16" by simp
  then have "unat (drop_bit 4 w) = 0" using hex_digit_step(2) [of w] by linarith
  then have "drop_bit 4 w = 0" by (simp add: unat_eq_0)
  then show ?case by (simp add: sprintf_hex.simps [of tab w] Let_def)
next
  case (Suc k)
  then have "unat (drop_bit 4 w) < 16 ^ Suc k" using hex_digit_step(2) [of w] by simp
  with Suc.IH [of "drop_bit 4 w" "tab ! unat (w AND 0xf) # acc"] show ?case
    by (simp add: sprintf_hex.simps [of tab w] Let_def)
qed

lemma chunk_head_eq:
  assumes "n < 2 ^ 63"
  obtains hs where "chunk_head n = hs @ [CR, LF]" "hs \<noteq> []" "list_all is_hex hs" "hex_val hs = n"
proof -
  let ?hs = "sprintf_hex hex (word_of_nat n) []"
  have "unat (word_of_nat n :: uint64) < 2 ^ LENGTH(64)" by (rule unsigned_less)
  then have "length ?hs \<le> 16" using sprintf_hex_length [of "word_of_nat n" 15 hex "[]"] by simp
  then have "chunk_head n = ?hs @ [CR, LF]"
    by (simp add: chunk_head_def ngx_sprintf_num_def pad_loop_0)
  moreover have "hex_val ?hs = n"
    using sprintf_hex_digits [of "[]" "word_of_nat n"] unat_word_of_nat_64 [OF assms] by (simp add: hex_val_def)
  ultimately show thesis using that sprintf_hex_digits [of "[]" "word_of_nat n"] by simp
qed

lemma hex_step_mono: "v \<le> foldl hex_step v hs"
proof (induction hs arbitrary: v)
  case (Cons c hs)
  show ?case using Cons.IH [of "hex_step v c"] by simp
qed simp

lemma small_not_sless:
  "\<not> (1 :: ngx_int_t) <s 0" "\<not> (2 :: ngx_int_t) <s 0" "\<not> (3 :: ngx_int_t) <s 0"
  "\<not> (4 :: ngx_int_t) <s 0" "\<not> (5 :: ngx_int_t) <s 0"
  by (simp_all add: word_sless_alt)

lemma sane_small:
  assumes "size_of_chunk ctx = word_of_nat n" "n + 6 < 2 ^ 63"
  shows "chunk_sane ctx"
proof -
  have w: "unat (word_of_nat (n + k) :: ngx_int_t) = n + k" if "k \<le> 6" for k
    using assms(2) that by (intro unat_word_of_nat_64) simp
  have "\<not> (word_of_nat n :: ngx_int_t) <s 0" "\<not> (4 + word_of_nat n :: ngx_int_t) <s 0"
    "\<not> (5 + word_of_nat n :: ngx_int_t) <s 0" "\<not> (6 + word_of_nat n :: ngx_int_t) <s 0"
    using w [of 0] w [of 4] w [of 5] w [of 6] assms(2) by (simp_all add: sless_zero_64 add.commute)
  then show ?thesis
    using assms(1)
    by (cases "chunk_state ctx") (simp_all add: chunk_sane_def chunk_length_def small_not_sless add.commute)
qed

lemma run_digits:
  assumes "list_all is_hex hs" "chunk_state ctx = sw_chunk_size" "size_of_chunk ctx = word_of_nat v"
    "foldl hex_step v hs + 6 < 2 ^ 63"
  shows "chunk_run ctx hs = Some (ctx\<lparr>size_of_chunk := word_of_nat (foldl hex_step v hs)\<rparr>, [], None)"
  using assms
proof (induction hs arbitrary: ctx v)
  case (Cons c hs)
  then obtain d where d: "chunk_digit c = Some d" by (auto simp: is_hex_def)
  let ?ctx = "ctx\<lparr>size_of_chunk := word_of_nat (hex_step v c)\<rparr>"
  have "chunked_step [] ctx 0 c = Next ?ctx"
    using Cons.prems(2,3) d by (simp add: chunked_step_def ch_size_def)
  moreover have "chunk_sane ?ctx"
    using hex_step_mono [of "hex_step v c" hs] Cons.prems(4) by (intro sane_small [of _ "hex_step v c"]) simp_all
  ultimately have "chunk_byte ctx c = Some (?ctx, [], False)"
    using Cons.prems(2) by (simp add: chunk_byte_def chunked_enter_def)
  with Cons.IH [of ?ctx "hex_step v c"] Cons.prems show ?case by simp
qed simp

lemma run_size:
  assumes "list_all is_hex hs" "hs \<noteq> []" "chunk_state ctx = sw_chunk_start" "hex_val hs + 6 < 2 ^ 63"
  shows "chunk_run ctx hs = Some (ctx\<lparr>chunk_state := sw_chunk_size, size_of_chunk := word_of_nat (hex_val hs)\<rparr>, [], None)"
proof -
  obtain c cs where hs: "hs = c # cs" using assms(2) by (cases hs) auto
  then obtain d where d: "chunk_digit c = Some d" using assms(1) by (auto simp: is_hex_def)
  let ?ctx = "ctx\<lparr>chunk_state := sw_chunk_size, size_of_chunk := d\<rparr>"
  have v: "hex_val hs = foldl hex_step (unat d) cs" by (simp add: hs hex_val_def d)
  have "chunked_step [] ctx 0 c = Next ?ctx" using assms(3) d by (simp add: chunked_step_def ch_start_def)
  moreover have "chunk_sane ?ctx"
    using hex_step_mono [of "unat d" cs] assms(4) v by (intro sane_small [of _ "unat d"]) simp_all
  ultimately have "chunk_byte ctx c = Some (?ctx, [], False)"
    using assms(3) by (simp add: chunk_byte_def chunked_enter_def)
  with run_digits [of cs ?ctx "unat d"] assms(1,4) v show ?thesis by (simp add: hs)
qed

lemma run_chunk:
  assumes "chunk_state ctx = sw_chunk_start" "d \<noteq> []" "length d + 6 < 2 ^ 63"
  shows "chunk_run ctx (chunk_head (length d) @ d @ [CR, LF]) =
    Some (ctx\<lparr>chunk_state := sw_chunk_start, size_of_chunk := 0\<rparr>, d, None)"
proof -
  define n where "n = length d"
  have n: "n + 6 < 2 ^ 63" "0 < n" using assms by (simp_all add: n_def)
  obtain hs where hs: "chunk_head n = hs @ [CR, LF]" "hs \<noteq> []" "list_all is_hex hs" "hex_val hs = n"
    by (rule chunk_head_eq [of n]) (use n in simp_all)
  let ?c0 = "ctx\<lparr>chunk_state := sw_chunk_size, size_of_chunk := word_of_nat n\<rparr>"
  let ?c1 = "ctx\<lparr>chunk_state := sw_chunk_data, size_of_chunk := word_of_nat n\<rparr>"
  have "(word_of_nat n :: ngx_int_t) \<noteq> 0"
    using unat_word_of_nat_64 [of n] n by (metis add_lessD1 less_not_refl unat_0)
  then have "chunk_run ?c0 [CR, LF] = Some (?c1, [], None)"
    using sane_small [of "ctx\<lparr>size_of_chunk := word_of_nat n, chunk_state := sw_chunk_extension_almost_done\<rparr>" n]
      sane_small [of "ctx\<lparr>size_of_chunk := word_of_nat n, chunk_state := sw_chunk_data\<rparr>" n] n(1)
    by (simp add: chunk_byte_def chunked_enter_def chunked_step_def ch_size_def ch_expect_lf_def chunk_digit_def is_digit_def)
  moreover have "chunk_run ctx hs = Some (?c0, [], None)"
    using run_size [OF hs(3,2) assms(1)] hs(4) n(1) by simp
  ultimately have h: "chunk_run ctx (chunk_head n) = Some (?c1, [], None)"
    by (simp add: hs(1) chunk_run_append del: chunk_run.simps)
  let ?c2 = "ctx\<lparr>chunk_state := sw_chunk_data, size_of_chunk := 0\<rparr>"
  have "chunk_run ?c1 (d @ [CR, LF]) = (case chunk_run ?c2 [CR, LF] of None \<Rightarrow> None
      | Some (c, out, left) \<Rightarrow> Some (c, d @ out, left))"
    using chunk_run_data [of ?c1 n d "[CR, LF]"] n by (simp add: n_def del: chunk_run.simps)
  also have "chunk_run ?c2 [CR, LF] = Some (ctx\<lparr>chunk_state := sw_chunk_start, size_of_chunk := 0\<rparr>, [], None)"
    by (simp add: chunk_byte_def chunked_enter_def chunked_step_def ch_skip_line_def ch_expect_lf_def
        chunk_sane_def chunk_length_def small_not_sless)
  finally show ?thesis
    using h by (simp add: n_def chunk_run_append del: chunk_run.simps)
qed

lemma run_last:
  assumes "chunk_state ctx = sw_chunk_start"
  shows "chunk_run ctx (str ''0'' @ [CR, LF, CR, LF]) =
    Some (ctx\<lparr>chunk_state := sw_chunk_start, size_of_chunk := 0\<rparr>, [], Some [])"
  using assms
  by (simp add: chunk_byte_def chunked_enter_def chunked_step_def chunk_defs chunk_digit_def is_digit_def
      chunk_sane_def chunk_length_def small_not_sless)

text \<open>What one call puts on the wire, and its data.\<close>

definition wire :: "response \<Rightarrow> out_buf list \<Rightarrow> u_char list" where
  "wire r bs = concat (map contents (ngx_http_chunked_body_filter r bs))"

abbreviation body_data :: "out_buf list \<Rightarrow> u_char list" where
  "body_data bs \<equiv> concat (map contents bs)"

definition buf_proper :: "out_buf \<Rightarrow> bool" where
  "buf_proper b = (contents b \<noteq> [] \<longrightarrow> in_memory b \<or> in_file b)"

lemma sum_buf_size: "sum_list (map ngx_buf_size bs) = length (body_data bs)"
  by (induction bs) (simp_all add: ngx_buf_size_def)

lemma chunked_links_data: "list_all buf_proper bs \<Longrightarrow> body_data (chunked_links bs) = body_data bs"
  by (induction bs) (auto simp: chunked_links_def buf_proper_def)

lemma clear_last_data:
  assumes "bs \<noteq> []" "list_all buf_proper bs"
  shows "body_data (chunked_links (clear_last bs)) = body_data bs"
proof -
  obtain cs b where bs: "bs = cs @ [b]" using assms(1) by (metis append_butlast_last_id)
  then have "list_all buf_proper (clear_last bs)" "body_data (clear_last bs) = body_data bs"
    using assms(2) by (simp_all add: clear_last_def buf_proper_def)
  then show ?thesis by (simp add: chunked_links_data)
qed

lemma wire_eq:
  assumes "resp_chunked r" "\<not> resp_header_only r" "bs \<noteq> []" "list_all buf_proper bs"
  defines "d \<equiv> body_data bs"
  shows "wire r bs = (if d = [] then [] else chunk_head (length d) @ d @ [CR, LF]) @
    (if last_buf (last bs) then str ''0'' @ [CR, LF, CR, LF] else [])"
  using assms(1-4) chunked_links_data [OF assms(4)] clear_last_data [OF assms(3,4)]
  by (simp add: wire_def ngx_http_chunked_body_filter_def Let_def sum_buf_size memory_buf_def d_def)

abbreviation chunk_restart :: "ngx_http_chunked_t \<Rightarrow> ngx_http_chunked_t" where
  "chunk_restart ctx \<equiv> ctx\<lparr>chunk_state := sw_chunk_start, size_of_chunk := 0\<rparr>"

lemma run_wire:
  assumes "resp_chunked r" "\<not> resp_header_only r" "bs \<noteq> []" "list_all buf_proper bs"
    and "length (body_data bs) + 6 < 2 ^ 63"
  shows "chunk_run (chunk_restart ctx) (wire r bs) =
    Some (chunk_restart ctx, body_data bs, if last_buf (last bs) then Some [] else None)"
proof -
  let ?c = "chunk_restart ctx" and ?d = "body_data bs"
  have "chunk_run ?c (if ?d = [] then [] else chunk_head (length ?d) @ ?d @ [CR, LF]) = Some (?c, ?d, None)"
    using run_chunk [of ?c ?d] assms(5) by auto
  then show ?thesis
    unfolding wire_eq [OF assms(1-4)] chunk_run_append [of _ _ "if _ then _ else _"]
    using run_last [of ?c] by simp
qed

text \<open>A sequence of calls, the last of which ends the response.\<close>

lemma run_wires:
  assumes "resp_chunked r" "\<not> resp_header_only r"
    and "list_all (\<lambda>bs. bs \<noteq> [] \<and> list_all buf_proper bs \<and> \<not> last_buf (last bs)) calls"
    and "length (concat (map body_data calls)) + 6 < 2 ^ 63"
  shows "chunk_run (chunk_restart ctx) (concat (map (wire r) calls)) =
    Some (chunk_restart ctx, concat (map body_data calls), None)"
  using assms(3,4)
proof (induction calls)
  case (Cons bs calls)
  have "chunk_run (chunk_restart ctx) (wire r bs) = Some (chunk_restart ctx, body_data bs, None)"
    using run_wire [OF assms(1,2), of bs ctx] Cons.prems by simp
  with Cons show ?case by (simp add: chunk_run_append)
qed simp

definition calls_end :: "out_buf list list \<Rightarrow> bool" where
  "calls_end calls = (calls \<noteq> [] \<and> list_all (\<lambda>bs. bs \<noteq> [] \<and> list_all buf_proper bs) calls \<and>
    list_all (\<lambda>bs. \<not> last_buf (last bs)) (butlast calls) \<and> last_buf (last (last calls)))"

lemma run_calls:
  assumes "resp_chunked r" "\<not> resp_header_only r" "calls_end calls"
    and "length (concat (map body_data calls)) + 6 < 2 ^ 63"
  shows "chunk_run (chunk_restart ctx) (concat (map (wire r) calls)) =
    Some (chunk_restart ctx, concat (map body_data calls), Some [])"
proof -
  obtain init fin where c: "calls = init @ [fin]"
    using assms(3) by (metis append_butlast_last_id calls_end_def)
  have l: "length (concat (map body_data init)) + 6 < 2 ^ 63" "length (body_data fin) + 6 < 2 ^ 63"
    using assms(4) by (simp_all add: c)
  have w: "list_all (\<lambda>bs. bs \<noteq> [] \<and> list_all buf_proper bs \<and> \<not> last_buf (last bs)) init"
    "fin \<noteq> []" "list_all buf_proper fin" "last_buf (last fin)"
    using assms(3) by (auto simp: calls_end_def c list_all_iff)
  show ?thesis
    using run_wires [OF assms(1,2) w(1) l(1), of ctx] run_wire [OF assms(1,2) w(2,3) l(2), of ctx] w(4)
    by (simp add: c chunk_run_append)
qed

lemma fresh_ok: "chunk_ok fresh_chunked"
  by (simp add: chunk_ok_def canon_def chunked_enter_def fresh_chunked_def chunk_inv_def chunk_sane_def
      chunk_length_def small_not_sless)

text \<open>C9: what \<open>ngx_http_chunked_body_filter\<close> writes, over any sequence of calls of which the last one carries
  \<open>last_buf\<close>, is read back by \<open>ngx_http_request_body_chunked_filter\<close>, however the bytes are cut into buffers: the
  filter accepts them, its output buffers hold the same data, exactly one of them, the empty one that ends the
  body, is marked last, nothing more is expected and the length found is that of the data.\<close>

theorem chunked_roundtrip:
  assumes "resp_chunked r" "\<not> resp_header_only r" "calls_end calls"
    and "length (concat (map body_data calls)) + 6 < 2 ^ 63"
    and "list_all (\<lambda>b. pos b \<le> last_of b) bufs" "bufs \<noteq> []" "unread (last bufs) \<noteq> []"
    and "concat (map unread bufs) = concat (map (wire r) calls)" "rb_rest rb = - 1"
  shows "\<exists>rb' outs. ngx_http_request_body_chunked_filter 0 rb bufs = (None, rb', outs) \<and>
    concat (map buf_bytes outs) = concat (map body_data calls) \<and>
    filter buf_last outs = [\<lparr>buf_bytes = [], buf_last = True\<rparr>] \<and> rb_rest rb' = 0 \<and>
    content_length_n rb' = word_of_nat (length (concat (map body_data calls)))"
proof -
  let ?rb = "rb\<lparr>rb_chunked := fresh_chunked, content_length_n := 0, rb_rest := 3\<rparr>"
  have "chunk_run (rb_chunked ?rb) (concat (map unread bufs)) =
      Some (fresh_chunked, concat (map body_data calls), Some [])"
    using run_calls [OF assms(1-4), of fresh_chunked] assms(8) by (simp add: fresh_chunked_def)
  from chunked_filter_loop_run [OF _ _ this] show ?thesis
    using assms(5-7,9) fresh_ok by (auto simp: ngx_http_request_body_chunked_filter_def list_all_iff)
qed

definition reply_bufs :: "out_buf list list" where
  "reply_bufs = [[memory_buf (str ''nginx'') False], [memory_buf (str ''!'') False, (memory_buf [] True)]]"

definition reply :: response where
  "reply = \<lparr>resp_status = 200, resp_is_main = True, resp_method = 2, resp_content_length = - 1, resp_http_version = 1001,
    resp_keepalive = True, resp_chunked = False, resp_header_only = False\<rparr>"

theorem chunked_roundtrip_witness:
  "\<exists>rb' outs. ngx_http_request_body_chunked_filter 0 \<lparr>rb_rest = - 1, rb_chunked = fresh_chunked, content_length_n = - 1, lingering_close = False\<rparr>
     [\<lparr>data = str ''5'' @ [CR, LF] @ str ''ngi'', pos = 0\<rparr>,
      \<lparr>data = str ''nx'' @ [CR, LF] @ str ''1'' @ [CR, LF] @ str ''!'' @ [CR, LF] @ str ''0'' @ [CR, LF, CR, LF], pos = 0\<rparr>]
     = (None, rb', outs) \<and> concat (map buf_bytes outs) = str ''nginx!'' \<and> rb_rest rb' = 0"
  using chunked_roundtrip [of "ngx_http_chunked_header_filter True reply" reply_bufs
    "[\<lparr>data = str ''5'' @ [CR, LF] @ str ''ngi'', pos = 0\<rparr>,
      \<lparr>data = str ''nx'' @ [CR, LF] @ str ''1'' @ [CR, LF] @ str ''!'' @ [CR, LF] @ str ''0'' @ [CR, LF, CR, LF], pos = 0\<rparr>]"
    "\<lparr>rb_rest = - 1, rb_chunked = fresh_chunked, content_length_n = - 1, lingering_close = False\<rparr>"]
  by (auto simp: reply_bufs_def reply_def ngx_http_chunked_header_filter_def calls_end_def buf_proper_def
      memory_buf_def wire_eq chunk_head_def ngx_sprintf_num_def sprintf_hex.simps hex_def)

section \<open>Bodies with a length\<close>





section \<open>The size of a chunk\<close>

text \<open>C36: the size in front of a chunk is taken modulo $2^{64}$: the parser stops in front of the data with
  \<open>NGX_OK\<close> when the value read that way leaves room for the four bytes that follow the data, and with
  \<open>NGX_ERROR\<close> otherwise. A size of seventeen digits such as \<open>10000000000000005\<close> is accepted as 5.\<close>

theorem chunk_size_modulo:
  assumes "list_all is_hex hs" "hs \<noteq> []" "n = hex_val hs mod 2 ^ 64" "n \<noteq> 0"
  shows "ngx_http_parse_chunked fresh_chunked \<lparr>data = hs @ [CR, LF] @ x # rest, pos = 0\<rparr> =
    (if n + 4 < 2 ^ 63 then NGX_OK else NGX_ERROR,
     \<lparr>chunk_state = sw_chunk_data, size_of_chunk = word_of_nat n, length_of_rest = word_of_nat (n + 4)\<rparr>,
     \<lparr>data = hs @ [CR, LF] @ x # rest, pos = length hs + 2\<rparr>)"
proof -
  let ?c = "fresh_chunked\<lparr>chunk_state := sw_chunk_size, size_of_chunk := word_of_nat n\<rparr>"
  let ?buf = "hs @ [CR, LF] @ x # rest"
  have w: "(word_of_nat (hex_val hs) :: ngx_int_t) = word_of_nat n"
    by (simp add: assms(3) word_unat_eq_iff unat_of_nat)
  have u: "unat (word_of_nat n :: ngx_int_t) = n" using assms(3) by (simp add: unat_of_nat)
  then have z: "(word_of_nat n :: ngx_int_t) \<noteq> 0" using assms(4) by (metis unat_0)
  have "scan (chunked_step ?buf) (hs @ [CR, LF] @ x # rest) fresh_chunked 0 =
      scan (chunked_step ?buf) ([CR, LF] @ x # rest) ?c (length hs)"
    using chunk_size_scan [OF assms(1,2), of fresh_chunked ?buf 0] w by (simp add: scan_append fresh_chunked_def)
  also have "\<dots> = At_label label_data (?c\<lparr>chunk_state := sw_chunk_data\<rparr>) (length hs + 2)"
    using z by (simp add: chunked_step_def ch_size_def ch_expect_lf_def chunk_digit_def is_digit_def)
  finally have "parse_loop chunked_step \<lparr>data = ?buf, pos = 0\<rparr> (chunked_enter fresh_chunked) =
      At_label label_data (?c\<lparr>chunk_state := sw_chunk_data\<rparr>) (length hs + 2)"
    by (simp add: parse_loop_def chunked_enter_def fresh_chunked_def)
  moreover have "\<not> (word_of_nat n :: ngx_int_t) <s 0 \<and> \<not> (word_of_nat n + 4 :: ngx_int_t) <s 0 \<longleftrightarrow> n + 4 < 2 ^ 63"
  proof (cases "n < 2 ^ 63")
    case True
    then have "unat (word_of_nat (n + 4) :: ngx_int_t) = n + 4" by (subst unat_of_nat) simp
    moreover have "(word_of_nat n + 4 :: ngx_int_t) = word_of_nat (n + 4)" by simp
    ultimately show ?thesis using True u by (simp only: sless_zero_64 not_le simp_thms)
  next
    case False
    with u show ?thesis by (simp add: sless_zero_64)
  qed
  ultimately show ?thesis
    by (auto simp: ngx_http_parse_chunked_def chunked_data_def chunk_length_def fresh_chunked_def add.commute)
qed

theorem chunk_size_modulo_witness:
  "ngx_http_parse_chunked fresh_chunked \<lparr>data = str ''10000000000000005'' @ [CR, LF] @ str ''hello'', pos = 0\<rparr> =
    (NGX_OK, \<lparr>chunk_state = sw_chunk_data, size_of_chunk = 5, length_of_rest = 9\<rparr>,
     \<lparr>data = str ''10000000000000005'' @ [CR, LF] @ str ''hello'', pos = 19\<rparr>)"
proof -
  let ?hs = "str ''10000000000000005''"
  have h: "list_all is_hex ?hs" by (simp add: is_hex_def chunk_digit_def is_digit_def)
  have "hex_val ?hs = 18446744073709551621" by (simp add: hex_val_def chunk_digit_def is_digit_def)
  then show ?thesis using chunk_size_modulo [OF h, of 5 "chr CHR ''h''" "str ''ello''"] by simp
qed

end
