(* ===== verification/Http_Uri.thy ===== *)
theory Http_Uri
  imports Http_Core
begin

text \<open>
  The URI functions of \<^verbatim>\<open>src/nginx-1.4.4/src/http/ngx_http_parse.c\<close>: \<open>ngx_http_parse_uri\<close>, which sets the
  flags of a URI that did not come in a request line, \<open>ngx_http_parse_complex_uri\<close>, which decodes and
  normalises the path, \<open>ngx_http_parse_unsafe_uri\<close>, \<open>ngx_http_arg\<close>, \<open>ngx_http_split_args\<close> and
  \<open>ngx_http_parse_multi_header_lines\<close>. The code is that of a Unix platform: a path separator is a slash.

  \<open>ngx_http_parse_complex_uri\<close> writes to the memory behind \<open>r->uri.data\<close>, reads back from it, and reads one
  byte behind the URI. Both accesses are checked in the model: an access outside is \<open>Fault\<close>, and the
  theorems show that there is none.
\<close>

section \<open>Flags of a URI\<close>

datatype uri_state = sw_start | sw_after_slash_in_uri | sw_check_uri | sw_uri

definition pu_after_slash_in_uri ::
    "uri_state \<times> 'st ngx_http_request_t \<Rightarrow> nat \<Rightarrow> u_char \<Rightarrow> (uri_state \<times> 'st ngx_http_request_t) outcome" where
  "pu_after_slash_in_uri = (\<lambda>(st, r) p ch.
     if tbl_bit usual ch then Next (sw_check_uri, r)
     else if ch = chr CHR '' '' then Next (sw_check_uri, r\<lparr>space_in_uri := True\<rparr>)
     else if ch = chr CHR ''.'' then Next (sw_uri, r\<lparr>complex_uri := True\<rparr>)
     else if ch = chr CHR ''%'' then Next (sw_uri, r\<lparr>quoted_uri := True\<rparr>)
     else if ch = chr CHR ''/'' then Next (sw_uri, r\<lparr>complex_uri := True\<rparr>)
     else if ch = chr CHR ''?'' then Next (sw_uri, r\<lparr>args_start := Some (p + 1)\<rparr>)
     else if ch = chr CHR ''#'' then Next (sw_uri, r\<lparr>complex_uri := True\<rparr>)
     else if ch = chr CHR ''+'' then Next (st, r\<lparr>plus_in_uri := True\<rparr>)
     else Next (sw_check_uri, r))"

definition pu_check_uri ::
    "uri_state \<times> 'st ngx_http_request_t \<Rightarrow> nat \<Rightarrow> u_char \<Rightarrow> (uri_state \<times> 'st ngx_http_request_t) outcome" where
  "pu_check_uri = (\<lambda>(st, r) p ch.
     if tbl_bit usual ch then Next (st, r)
     else if ch = chr CHR ''/'' then Next (sw_after_slash_in_uri, r\<lparr>uri_ext := NULL\<rparr>)
     else if ch = chr CHR ''.'' then Next (st, r\<lparr>uri_ext := Some (p + 1)\<rparr>)
     else if ch = chr CHR '' '' then Next (st, r\<lparr>space_in_uri := True\<rparr>)
     else if ch = chr CHR ''%'' then Next (sw_uri, r\<lparr>quoted_uri := True\<rparr>)
     else if ch = chr CHR ''?'' then Next (sw_uri, r\<lparr>args_start := Some (p + 1)\<rparr>)
     else if ch = chr CHR ''#'' then Next (sw_uri, r\<lparr>complex_uri := True\<rparr>)
     else if ch = chr CHR ''+'' then Next (st, r\<lparr>plus_in_uri := True\<rparr>)
     else Next (st, r))"

definition pu_uri ::
    "uri_state \<times> 'st ngx_http_request_t \<Rightarrow> u_char \<Rightarrow> (uri_state \<times> 'st ngx_http_request_t) outcome" where
  "pu_uri = (\<lambda>(st, r) ch.
     if tbl_bit usual ch then Next (st, r)
     else if ch = chr CHR '' '' then Next (st, r\<lparr>space_in_uri := True\<rparr>)
     else if ch = chr CHR ''#'' then Next (st, r\<lparr>complex_uri := True\<rparr>)
     else Next (st, r))"

definition pu_step ::
    "uri_state \<times> 'st ngx_http_request_t \<Rightarrow> nat \<Rightarrow> u_char \<Rightarrow> (uri_state \<times> 'st ngx_http_request_t) outcome" where
  "pu_step sr p ch = (case fst sr of
      sw_start \<Rightarrow> if ch \<noteq> chr CHR ''/'' then Return NGX_ERROR sr else Next (sw_after_slash_in_uri, snd sr)
    | sw_after_slash_in_uri \<Rightarrow> pu_after_slash_in_uri sr p ch
    | sw_check_uri \<Rightarrow> pu_check_uri sr p ch
    | sw_uri \<Rightarrow> pu_uri sr ch)"

text \<open>The local variable \<open>state\<close> is paired with the request. The URI goes from \<open>uri_start\<close> up to
  \<open>uri_end\<close>, and is empty when both are \<open>NULL\<close>.\<close>

definition ngx_http_parse_uri :: "u_char list \<Rightarrow> 'st ngx_http_request_t \<Rightarrow> ngx_int_t \<times> 'st ngx_http_request_t" where
  "ngx_http_parse_uri buf r =
    (let us = (case uri_start r of Some p \<Rightarrow> p | None \<Rightarrow> 0);
         ue = (case uri_end r of Some p \<Rightarrow> p | None \<Rightarrow> 0)
     in case scan pu_step (slice buf us ue) (sw_start, r) us of
          Returned rc (st, r') \<Rightarrow> (rc, r')
        | At_last (st, r') \<Rightarrow> (NGX_OK, r')
        | At_label _ (st, r') _ \<Rightarrow> (NGX_OK, r'))"

section \<open>Decoding and normalising a path\<close>

datatype cu_state = sw_usual | sw_slash | sw_dot | sw_dot_dot | sw_quoted | sw_quoted_second

text \<open>The local variables \<open>state\<close>, \<open>quoted_state\<close>, \<open>decoded\<close> and \<open>u\<close> (as an offset from
  \<open>r->uri.data\<close>), the memory behind \<open>r->uri.data\<close>, and the fields of the request that are written.
  \<open>r->uri_ext\<close> is an offset from \<open>r->uri.data\<close> here.\<close>

record cu_locals =
  cu_state :: cu_state
  quoted_state :: cu_state
  decoded :: u_char
  uri_data :: "u_char list"
  u :: nat
  cu_uri_ext :: ptr
  cu_args_start :: ptr
  cu_plus_in_uri :: bool
  cu_quoted_uri :: bool

datatype cu_outcome = Step cu_locals | Args cu_locals | Done cu_locals | Invalid cu_locals | Fault

text \<open>\<open>*u++ = ch\<close>\<close>

definition put :: "u_char \<Rightarrow> cu_locals \<Rightarrow> cu_outcome" where
  "put ch s = (if u s < length (uri_data s) then Step (s\<lparr>uri_data := (uri_data s)[u s := ch], u := Suc (u s)\<rparr>)
     else Fault)"

definition cu_usual :: "cu_locals \<Rightarrow> nat \<Rightarrow> u_char \<Rightarrow> cu_outcome" where
  "cu_usual s p ch =
    (if tbl_bit usual ch then put ch s
     else if ch = chr CHR ''/'' then put ch (s\<lparr>cu_uri_ext := NULL, cu_state := sw_slash\<rparr>)
     else if ch = chr CHR ''%'' then Step (s\<lparr>quoted_state := cu_state s, cu_state := sw_quoted\<rparr>)
     else if ch = chr CHR ''?'' then Args (s\<lparr>cu_args_start := Some p\<rparr>)
     else if ch = chr CHR ''#'' then Done s
     else if ch = chr CHR ''.'' then put ch (s\<lparr>cu_uri_ext := Some (u s + 1)\<rparr>)
     else if ch = chr CHR ''+'' then put ch (s\<lparr>cu_plus_in_uri := True\<rparr>)
     else put ch s)"

definition cu_slash :: "bool \<Rightarrow> cu_locals \<Rightarrow> nat \<Rightarrow> u_char \<Rightarrow> cu_outcome" where
  "cu_slash merge_slashes s p ch =
    (if tbl_bit usual ch then put ch (s\<lparr>cu_state := sw_usual\<rparr>)
     else if ch = chr CHR ''/'' then (if \<not> merge_slashes then put ch s else Step s)
     else if ch = chr CHR ''.'' then put ch (s\<lparr>cu_state := sw_dot\<rparr>)
     else if ch = chr CHR ''%'' then Step (s\<lparr>quoted_state := cu_state s, cu_state := sw_quoted\<rparr>)
     else if ch = chr CHR ''?'' then Args (s\<lparr>cu_args_start := Some p\<rparr>)
     else if ch = chr CHR ''#'' then Done s
     else if ch = chr CHR ''+'' then put ch (s\<lparr>cu_plus_in_uri := True, cu_state := sw_usual\<rparr>)
     else put ch (s\<lparr>cu_state := sw_usual\<rparr>))"

definition cu_dot :: "cu_locals \<Rightarrow> nat \<Rightarrow> u_char \<Rightarrow> cu_outcome" where
  "cu_dot s p ch =
    (if tbl_bit usual ch then put ch (s\<lparr>cu_state := sw_usual\<rparr>)
     else if ch = chr CHR ''/'' then Step (s\<lparr>cu_state := sw_slash, u := u s - 1\<rparr>)
     else if ch = chr CHR ''.'' then put ch (s\<lparr>cu_state := sw_dot_dot\<rparr>)
     else if ch = chr CHR ''%'' then Step (s\<lparr>quoted_state := cu_state s, cu_state := sw_quoted\<rparr>)
     else if ch = chr CHR ''?'' then Args (s\<lparr>cu_args_start := Some p\<rparr>)
     else if ch = chr CHR ''#'' then Done s
     else if ch = chr CHR ''+'' then put ch (s\<lparr>cu_plus_in_uri := True, cu_state := sw_usual\<rparr>)
     else put ch (s\<lparr>cu_state := sw_usual\<rparr>))"

text \<open>The loop that looks for the slash before the segment to remove. The argument is \<open>u + 1 - r->uri.data\<close>,
  so that 0 is the case \<open>u < r->uri.data\<close>; the result is \<open>u\<close> behind the slash.\<close>

primrec segment_start :: "u_char list \<Rightarrow> nat \<Rightarrow> nat option" where
  "segment_start m 0 = None"
| "segment_start m (Suc k) = (if m ! k = chr CHR ''/'' then Some (Suc k) else segment_start m k)"

definition cu_dot_dot :: "cu_locals \<Rightarrow> nat \<Rightarrow> u_char \<Rightarrow> cu_outcome" where
  "cu_dot_dot s p ch =
    (if tbl_bit usual ch then put ch (s\<lparr>cu_state := sw_usual\<rparr>)
     else if ch = chr CHR ''/'' then
       (case segment_start (uri_data s) (u s + 1 - 5) of
          None \<Rightarrow> Invalid s
        | Some v \<Rightarrow> Step (s\<lparr>cu_state := sw_slash, u := v\<rparr>))
     else if ch = chr CHR ''%'' then Step (s\<lparr>quoted_state := cu_state s, cu_state := sw_quoted\<rparr>)
     else if ch = chr CHR ''?'' then Args (s\<lparr>cu_args_start := Some p\<rparr>)
     else if ch = chr CHR ''#'' then Done s
     else if ch = chr CHR ''+'' then put ch (s\<lparr>cu_plus_in_uri := True, cu_state := sw_usual\<rparr>)
     else put ch (s\<lparr>cu_state := sw_usual\<rparr>))"

text \<open>The states outside an escape. \<open>quoted_state\<close> is only ever set to one of these.\<close>

definition cu_plain :: "bool \<Rightarrow> cu_locals \<Rightarrow> nat \<Rightarrow> u_char \<Rightarrow> cu_outcome" where
  "cu_plain merge_slashes s p ch = (case cu_state s of
      sw_usual \<Rightarrow> cu_usual s p ch
    | sw_slash \<Rightarrow> cu_slash merge_slashes s p ch
    | sw_dot \<Rightarrow> cu_dot s p ch
    | sw_dot_dot \<Rightarrow> cu_dot_dot s p ch
    | _ \<Rightarrow> Fault)"

definition cu_quoted :: "cu_locals \<Rightarrow> u_char \<Rightarrow> cu_outcome" where
  "cu_quoted s ch =
    (let s = s\<lparr>cu_quoted_uri := True\<rparr> in
     if is_digit ch then Step (s\<lparr>decoded := ch - chr CHR ''0'', cu_state := sw_quoted_second\<rparr>)
     else let c = ch OR 0x20 in
       if chr CHR ''a'' \<le> c \<and> c \<le> chr CHR ''f'' then
         Step (s\<lparr>decoded := c - chr CHR ''a'' + 10, cu_state := sw_quoted_second\<rparr>)
       else Invalid s)"

text \<open>A decoded byte is handled in the state before the escape, without reading another one.\<close>

definition cu_quoted_second :: "bool \<Rightarrow> cu_locals \<Rightarrow> nat \<Rightarrow> u_char \<Rightarrow> cu_outcome" where
  "cu_quoted_second merge_slashes s p ch =
    (if is_digit ch then
       let ch = push_bit 4 (decoded s) + ch - chr CHR ''0'' in
       if ch = chr CHR ''%'' \<or> ch = chr CHR ''#'' then put ch (s\<lparr>cu_state := sw_usual\<rparr>)
       else if ch = 0 then Invalid s
       else cu_plain merge_slashes (s\<lparr>cu_state := quoted_state s\<rparr>) p ch
     else let c = ch OR 0x20 in
       if chr CHR ''a'' \<le> c \<and> c \<le> chr CHR ''f'' then
         let ch = push_bit 4 (decoded s) + c - chr CHR ''a'' + 10 in
         if ch = chr CHR ''?'' then put ch (s\<lparr>cu_state := sw_usual\<rparr>)
         else
           let s = (if ch = chr CHR ''+'' then s\<lparr>cu_plus_in_uri := True\<rparr> else s) in
           cu_plain merge_slashes (s\<lparr>cu_state := quoted_state s\<rparr>) p ch
       else Invalid s)"

definition cu_step :: "bool \<Rightarrow> cu_locals \<Rightarrow> nat \<Rightarrow> u_char \<Rightarrow> cu_outcome" where
  "cu_step merge_slashes s p ch = (case cu_state s of
      sw_quoted \<Rightarrow> cu_quoted s ch
    | sw_quoted_second \<Rightarrow> cu_quoted_second merge_slashes s p ch
    | _ \<Rightarrow> cu_plain merge_slashes s p ch)"

text \<open>The loop, with \<open>ch\<close> read and \<open>p\<close> behind it. Every branch that goes on ends in \<open>ch = *p++\<close>. The
  result also has the value of \<open>p\<close> when the loop is left.\<close>

function cu_loop :: "bool \<Rightarrow> u_char list \<Rightarrow> nat \<Rightarrow> cu_locals \<Rightarrow> nat \<Rightarrow> u_char \<Rightarrow> cu_outcome \<times> nat" where
  "cu_loop merge_slashes buf ue s p ch =
    (if p \<le> ue then
       (case cu_step merge_slashes s p ch of
          Step s' \<Rightarrow> if p < length buf then cu_loop merge_slashes buf ue s' (Suc p) (buf ! p) else (Fault, p)
        | res \<Rightarrow> (res, p))
     else (Done s, p))"
  by pat_completeness auto
termination by (relation "measure (\<lambda>(m, buf, ue, s, p, ch). Suc ue - p)") auto

declare cu_loop.simps [simp del]

text \<open>The loop behind \<open>args\<close>: where the first \<open>#\<close> is.\<close>

primrec args_hash :: "u_char list \<Rightarrow> nat \<Rightarrow> nat option" where
  "args_hash [] p = None"
| "args_hash (c # cs) p = (if c \<noteq> chr CHR ''#'' then args_hash cs (Suc p) else Some p)"

text \<open>The strings of the request that the URI is cut into.\<close>

record request_uri =
  uri :: ngx_str
  exten :: ngx_str
  args :: ngx_str
  unparsed_uri :: ngx_str
  valid_unparsed_uri :: bool

text \<open>What is left in the flags of the request. After an error \<open>r->uri_ext\<close> may point into \<open>r->uri.data\<close>; it is
  \<open>NULL\<close> here.\<close>

definition cu_flags :: "cu_locals \<Rightarrow> 'st ngx_http_request_t \<Rightarrow> 'st ngx_http_request_t" where
  "cu_flags s r = r\<lparr>quoted_uri := cu_quoted_uri s, plus_in_uri := cu_plus_in_uri s, args_start := cu_args_start s,
     uri_ext := NULL\<rparr>"

text \<open>The common end of the labels \<open>done\<close> and \<open>args\<close>.\<close>

definition cu_finish :: "cu_locals \<Rightarrow> 'st ngx_http_request_t \<Rightarrow> request_uri \<Rightarrow> 'st ngx_http_request_t \<times> request_uri" where
  "cu_finish s r q =
    (cu_flags s r,
     q\<lparr>uri := take (u s) (uri_data s),
       exten := (case cu_uri_ext s of None \<Rightarrow> exten q | Some e \<Rightarrow> slice (uri_data s) e (u s))\<rparr>)"

text \<open>\<open>mem\<close> is the memory \<open>r->uri.data\<close> points to. The result is \<open>None\<close> if an access is outside of it
  or of \<open>buf\<close>.\<close>

definition ngx_http_parse_complex_uri ::
    "bool \<Rightarrow> u_char list \<Rightarrow> u_char list \<Rightarrow> 'st ngx_http_request_t \<Rightarrow> request_uri \<Rightarrow>
     (ngx_int_t \<times> 'st ngx_http_request_t \<times> request_uri) option" where
  "ngx_http_parse_complex_uri merge_slashes buf mem r q =
    (case (uri_start r, uri_end r) of
       (Some us, Some ue) \<Rightarrow>
         if us < length buf then
           let s = \<lparr>cu_state = sw_usual, quoted_state = sw_usual, decoded = 0, uri_data = mem, u = 0, cu_uri_ext = NULL,
                    cu_args_start = NULL, cu_plus_in_uri = plus_in_uri r, cu_quoted_uri = quoted_uri r\<rparr>
           in case cu_loop merge_slashes buf ue s (Suc us) (buf ! us) of
               (Done s', p) \<Rightarrow> Some (NGX_OK, cu_finish s' r q)
             | (Args s', p) \<Rightarrow>
                 (case args_hash (slice buf p ue) p of
                    None \<Rightarrow> Some (NGX_OK, cu_finish s' r q)
                  | Some h \<Rightarrow> Some (NGX_OK, cu_finish (s'\<lparr>cu_args_start := NULL\<rparr>) r (q\<lparr>args := slice buf p h\<rparr>)))
             | (Invalid s', p) \<Rightarrow> Some (NGX_HTTP_PARSE_INVALID_REQUEST, cu_flags s' r, q)
             | _ \<Rightarrow> None
         else None
     | _ \<Rightarrow> None)"

section \<open>A reference for normalised paths\<close>

text \<open>The value of a hexadecimal digit.\<close>

definition hexd :: "u_char \<Rightarrow> u_char option" where
  "hexd ch =
    (if is_digit ch then Some (ch - chr CHR ''0'')
     else let c = ch OR 0x20 in
       if chr CHR ''a'' \<le> c \<and> c \<le> chr CHR ''f'' then Some (c - chr CHR ''a'' + 10) else None)"

text \<open>The decoded bytes of a path: it ends before the first \<open>?\<close> or \<open>#\<close>, an escape is two hexadecimal digits
  and not of the byte 0, and an escape cut short by the end of the URI is left out.\<close>

fun uri_decode :: "u_char list \<Rightarrow> u_char list option" where
  "uri_decode [] = Some []"
| "uri_decode [c] = (if c \<in> set (str ''?#%'') then Some [] else Some [c])"
| "uri_decode [c, h] =
    (if c \<in> set (str ''?#'') then Some []
     else if c = chr CHR ''%'' then (if hexd h = None then None else Some [])
     else map_option (Cons c) (uri_decode [h]))"
| "uri_decode (c # h # l # cs) =
    (if c \<in> set (str ''?#'') then Some []
     else if c = chr CHR ''%'' then
       (case (hexd h, hexd l) of
          (Some x, Some y) \<Rightarrow> if push_bit 4 x + y = 0 then None else map_option (Cons (push_bit 4 x + y)) (uri_decode cs)
        | _ \<Rightarrow> None)
     else map_option (Cons c) (uri_decode (h # l # cs)))"

text \<open>Normalisation on a stack of finished segments, the last one first, and the bytes of the segment that is
  being read. A segment is finished by a slash: \<open>.\<close> is dropped, \<open>..\<close> removes the segment before it, and so does
  the empty segment when slashes are merged. Without merging, an empty segment before \<open>..\<close> is removed together
  with its predecessor.\<close>

fun pop :: "u_char list list \<Rightarrow> u_char list list option" where
  "pop [] = None"
| "pop ([] # []) = None"
| "pop ([] # t # ss) = Some ss"
| "pop ((c # s) # ss) = Some ss"

fun norm_byte :: "bool \<Rightarrow> u_char list list \<times> u_char list \<Rightarrow> u_char \<Rightarrow> (u_char list list \<times> u_char list) option" where
  "norm_byte merge_slashes (segs, part) c =
    (if c \<noteq> chr CHR ''/'' then Some (segs, part @ [c])
     else if part = [] then Some (if merge_slashes then segs else [] # segs, [])
     else if part = str ''.'' then Some (segs, [])
     else if part = str ''..'' then map_option (\<lambda>ss. (ss, [])) (pop segs)
     else Some (part # segs, []))"

primrec norm :: "bool \<Rightarrow> u_char list \<Rightarrow> u_char list list \<times> u_char list \<Rightarrow> (u_char list list \<times> u_char list) option" where
  "norm merge_slashes [] st = Some st"
| "norm merge_slashes (c # cs) st = Option.bind (norm_byte merge_slashes st c) (norm merge_slashes cs)"

definition render :: "u_char list list \<Rightarrow> u_char list \<Rightarrow> u_char list" where
  "render segs part = chr CHR ''/'' # concat (map (\<lambda>s. s @ str ''/'') (rev segs)) @ part"

definition path_spec :: "bool \<Rightarrow> u_char list \<Rightarrow> u_char list option" where
  "path_spec merge_slashes xs =
    map_option (\<lambda>(segs, part). render segs part) (Option.bind (uri_decode (tl xs)) (\<lambda>ds. norm merge_slashes ds ([], [])))"

section \<open>The machine and the stack\<close>

abbreviation slash_free :: "u_char list \<Rightarrow> bool" where
  "slash_free s \<equiv> chr CHR ''/'' \<notin> set s"

definition base_state :: "u_char list \<Rightarrow> cu_state" where
  "base_state part = (if part = [] then sw_slash else if part = str ''.'' then sw_dot
     else if part = str ''..'' then sw_dot_dot else sw_usual)"

definition at_stack :: "cu_locals \<Rightarrow> u_char list list \<Rightarrow> u_char list \<Rightarrow> bool" where
  "at_stack s segs part = (u s \<le> length (uri_data s) \<and> take (u s) (uri_data s) = render segs part \<and>
     list_all slash_free segs \<and> slash_free part)"

lemma segment_start_take: "k \<le> n \<Longrightarrow> segment_start (take n m) k = segment_start m k"
  by (induction k) auto

lemma segment_start_skip:
  "slash_free s \<Longrightarrow> segment_start (pre @ s) (length pre + length s) = segment_start pre (length pre)"
proof (induction s rule: rev_induct)
  case (snoc c s)
  have "segment_start (pre @ s @ [c]) (length pre + length s) = segment_start (pre @ s) (length pre + length s)"
    using segment_start_take [of "length pre + length s" "length (pre @ s)" "pre @ s @ [c]"] by simp
  with snoc show ?case by (simp add: nth_append)
next
  case Nil
  show ?case by simp
qed

lemma render_Cons: "render (s # ss) [] = render ss [] @ s @ str ''/''"
  by (simp add: render_def)

lemma render_app: "render ss part = render ss [] @ part"
  by (simp add: render_def)

lemma render_last: "render ss [] = butlast (render ss []) @ str ''/''"
  by (cases ss) (simp_all add: render_def butlast_append)

lemma segment_start_render:
  assumes "slash_free s"
  shows "segment_start (render ss [] @ s) (length (render ss [] @ s)) = Some (length (render ss []))"
proof -
  have "segment_start (render ss []) (length (render ss [])) = Some (length (render ss []))"
    by (subst (1 2) render_last) (simp add: nth_append, subst (2) render_last, simp)
  then show ?thesis using segment_start_skip [OF assms, of "render ss []"] by simp
qed

lemma segment_start_pop:
  assumes "list_all slash_free segs" "take n m = render segs (str ''..'')" "n \<le> length m"
  shows "segment_start m (n + 1 - 5) = map_option (\<lambda>ss. length (render ss [])) (pop segs)"
proof -
  let ?L = "length (render segs [])"
  have n: "n = ?L + 2" using arg_cong [OF assms(2), of length] assms(3) by (simp add: render_def)
  have "segment_start m (?L - 2) = segment_start (take n m) (?L - 2)"
    using segment_start_take [of "?L - 2" n m] n by simp
  also have "\<dots> = segment_start (take (?L - 2) (render segs [])) (?L - 2)"
    unfolding assms(2) using segment_start_take [of "?L - 2" "?L - 2" "render segs (str ''..'')"]
    by (simp add: render_app [of segs "[0x2E, 0x2E]"])
  also have "\<dots> = map_option (\<lambda>ss. length (render ss [])) (pop segs)"
  proof (cases segs rule: pop.cases)
    case (3 t ss)
    then have "take (?L - 2) (render segs []) = render ss [] @ t" "?L - 2 = length (render ss [] @ t)"
      by (simp_all add: render_Cons)
    with segment_start_render [of t ss] assms(1) 3 show ?thesis by simp
  next
    case (4 c s ss)
    then have "take (?L - 2) (render segs []) = render ss [] @ butlast (c # s)" "?L - 2 = length (render ss [] @ butlast (c # s))"
      by (simp_all add: render_Cons butlast_conv_take flip: append_Cons)
    moreover have "slash_free (butlast (c # s))" using assms(1) 4 by (auto dest: in_set_butlastD)
    ultimately show ?thesis using segment_start_render [of "butlast (c # s)" ss] 4 by (simp del: butlast.simps)
  qed (simp_all add: render_def)
  finally show ?thesis using n by simp
qed

lemma put_at_stack:
  assumes "at_stack s segs part" "u s < length (uri_data s)" "c \<noteq> chr CHR ''/''"
  obtains s' where "put c s = Step s'" "at_stack s' segs (part @ [c])" "u s' = Suc (u s)"
    "length (uri_data s') = length (uri_data s)" "cu_state s' = cu_state s"
proof -
  let ?s = "s\<lparr>uri_data := (uri_data s)[u s := c], u := Suc (u s)\<rparr>"
  have "put c s = Step ?s" using assms(2) by (simp add: put_def)
  moreover have "at_stack ?s segs (part @ [c])"
    using assms by (simp add: at_stack_def take_Suc_conv_app_nth render_def)
  ultimately show thesis by (intro that [of ?s]) simp_all
qed

lemma at_stack_frame [simp]:
  "at_stack (s\<lparr>cu_state := x\<rparr>) = at_stack s" "at_stack (s\<lparr>quoted_state := x\<rparr>) = at_stack s"
  "at_stack (s\<lparr>cu_plus_in_uri := b\<rparr>) = at_stack s" "at_stack (s\<lparr>cu_uri_ext := e\<rparr>) = at_stack s"
  "at_stack (s\<lparr>cu_quoted_uri := b\<rparr>) = at_stack s" "at_stack (s\<lparr>decoded := c\<rparr>) = at_stack s"
  by (simp_all add: at_stack_def fun_eq_iff)

definition steps_to :: "cu_outcome \<Rightarrow> cu_locals \<Rightarrow> u_char list list \<Rightarrow> u_char list \<Rightarrow> bool" where
  "steps_to res s segs part = (case res of
      Step s' \<Rightarrow> at_stack s' segs part \<and> cu_state s' = base_state part \<and> u s' \<le> Suc (u s) \<and>
        length (uri_data s') = length (uri_data s)
    | _ \<Rightarrow> False)"

lemma put_steps:
  assumes "at_stack s segs part" "u s < length (uri_data s)" "c \<noteq> chr CHR ''/''" "cu_state s = base_state (part @ [c])"
  shows "steps_to (put c s) s segs (part @ [c])"
  by (rule put_at_stack [OF assms(1-3)]) (simp add: steps_to_def assms(4))

abbreviation ordinary :: "u_char \<Rightarrow> bool" where
  "ordinary c \<equiv> c \<notin> set (str ''/%?#'')"

lemma base_state_snoc:
  "base_state (part @ [c]) = (if c = chr CHR ''.'' then
     (if part = [] then sw_dot else if part = str ''.'' then sw_dot_dot else sw_usual) else sw_usual)"
  by (cases part rule: rev_cases) (auto simp: base_state_def)

lemma plain_put:
  assumes "ordinary c" "cu_state s = base_state part"
  shows "\<exists>e b. cu_plain merge s p c = put c (s\<lparr>cu_state := base_state (part @ [c]), cu_uri_ext := e, cu_plus_in_uri := b\<rparr>)"
proof -
  obtain st q d m n e a b v where s: "s = \<lparr>cu_state = st, quoted_state = q, decoded = d, uri_data = m, u = n,
      cu_uri_ext = e, cu_args_start = a, cu_plus_in_uri = b, cu_quoted_uri = v\<rparr>" by (cases s)
  have c: "tbl_bit usual c \<Longrightarrow> c \<noteq> chr CHR ''.''" using usual_bytes [of c] by auto
  have st: "st = base_state part" using assms(2) by (simp add: s)
  show ?thesis
    using assms(1) c
    by (cases "c = chr CHR ''+''")
      (auto simp: s st cu_plain_def cu_usual_def cu_slash_def cu_dot_def cu_dot_dot_def base_state_snoc
        base_state_def [of part])
qed

lemma put_slash:
  assumes "at_stack s segs part" "u s < length (uri_data s)" "cu_state s = sw_slash"
  shows "steps_to (put (chr CHR ''/'') s) s (part # segs) []"
  using assms by (simp add: steps_to_def put_def at_stack_def base_state_def take_Suc_conv_app_nth render_def)

lemma steps_to_frame:
  assumes "steps_to res s' segs part" "u s' = u s" "length (uri_data s') = length (uri_data s)"
  shows "steps_to res s segs part"
  using assms by (cases res) (simp_all add: steps_to_def)

lemma shorter_stack:
  assumes "at_stack s segs part" "length (render segs' []) \<le> u s" "take (length (render segs' [])) (render segs part) = render segs' []"
    "list_all slash_free segs'"
  shows "steps_to (Step (s\<lparr>cu_state := sw_slash, u := length (render segs' [])\<rparr>)) s segs' []"
proof -
  have "take (length (render segs' [])) (uri_data s) = take (length (render segs' [])) (take (u s) (uri_data s))"
    using assms(2) by (simp add: min_def)
  with assms show ?thesis by (simp add: steps_to_def at_stack_def base_state_def)
qed

lemma at_stack_length: "at_stack s segs part \<Longrightarrow> u s = length (render segs [] ) + length part"
  unfolding at_stack_def by (metis length_append length_take min.absorb2 render_app)

lemma pop_prefix:
  assumes "pop segs = Some segs'" "list_all slash_free segs"
  shows "length (render segs' []) \<le> length (render segs [])"
    "take (length (render segs' [])) (render segs part) = render segs' []" "list_all slash_free segs'"
  using assms by (cases segs rule: pop.cases; simp add: render_def)+

lemma cu_plain_slash:
  assumes "at_stack s segs part" "u s < length (uri_data s)" "cu_state s = base_state part"
  shows "case norm_byte merge (segs, part) (chr CHR ''/'') of
      None \<Rightarrow> \<exists>s'. cu_plain merge s p (chr CHR ''/'') = Invalid s'
    | Some (segs', part') \<Rightarrow> steps_to (cu_plain merge s p (chr CHR ''/'')) s segs' part'"
proof -
  have t: "\<not> tbl_bit usual (chr CHR ''/'')" using usual_bytes [of "chr CHR ''/''"] by auto
  consider "part = []" | "part = str ''.''" | "part = str ''..''" | "base_state part = sw_usual" "part \<noteq> []" "part \<noteq> str ''.''" "part \<noteq> str ''..''"
    by (auto simp: base_state_def)
  then show ?thesis
  proof cases
    case 1
    then show ?thesis using assms put_slash [of s segs "[]"] t
      by (simp add: base_state_def cu_plain_def cu_slash_def steps_to_def)
  next
    case 2
    have "u s - 1 = length (render segs [])" using at_stack_length [OF assms(1)] 2 by simp
    with shorter_stack [OF assms(1), of segs] assms t 2 show ?thesis
      by (simp add: base_state_def cu_plain_def cu_dot_def render_app [of segs "[_]"] at_stack_def)
  next
    case 3
    have "segment_start (uri_data s) (u s + 1 - 5) = map_option (\<lambda>ss. length (render ss [])) (pop segs)"
      using segment_start_pop [of segs "u s" "uri_data s"] assms(1) 3 by (simp add: at_stack_def)
    moreover have "steps_to (Step (s\<lparr>cu_state := sw_slash, u := length (render segs' [])\<rparr>)) s segs' []"
      if "pop segs = Some segs'" for segs'
      using pop_prefix [OF that] assms(1) at_stack_length [OF assms(1)]
      by (intro shorter_stack [OF assms(1)]) (auto simp: at_stack_def)
    ultimately show ?thesis using assms t 3
      by (simp add: base_state_def cu_plain_def cu_dot_dot_def split: option.split)
  next
    case 4
    let ?s = "s\<lparr>cu_uri_ext := NULL, cu_state := sw_slash\<rparr>"
    have "steps_to (put (chr CHR ''/'') ?s) s (part # segs) []"
      using assms by (intro steps_to_frame [OF put_slash [of ?s]]) simp_all
    then show ?thesis using assms t 4 by (simp add: cu_plain_def cu_usual_def)
  qed
qed

text \<open>One decoded byte, special or not.\<close>

lemma plain_byte:
  assumes "at_stack s segs part" "u s < length (uri_data s)" "cu_state s = base_state part" "c \<notin> set (str ''%?#'')"
  shows "case norm_byte merge (segs, part) c of
      None \<Rightarrow> \<exists>s'. cu_plain merge s p c = Invalid s'
    | Some (segs', part') \<Rightarrow> steps_to (cu_plain merge s p c) s segs' part'"
proof (cases "c = chr CHR ''/''")
  case True
  with cu_plain_slash [OF assms(1-3)] show ?thesis by blast
next
  case False
  then obtain e b where c: "cu_plain merge s p c =
      put c (s\<lparr>cu_state := base_state (part @ [c]), cu_uri_ext := e, cu_plus_in_uri := b\<rparr>)"
    using plain_put [of c s part merge p] assms(3,4) by auto
  have "steps_to (cu_plain merge s p c) s segs (part @ [c])"
    unfolding c using assms(1,2) False by (intro steps_to_frame [OF put_steps]) simp_all
  with False show ?thesis by simp
qed

section \<open>The loop over a URI\<close>

text \<open>The loop as a recursion over the bytes of the URI.\<close>

primrec cu_scan :: "bool \<Rightarrow> u_char list \<Rightarrow> cu_locals \<Rightarrow> nat \<Rightarrow> cu_outcome \<times> nat" where
  "cu_scan merge_slashes [] s p = (Done s, p)"
| "cu_scan merge_slashes (c # cs) s p = (case cu_step merge_slashes s p c of
      Step s' \<Rightarrow> cu_scan merge_slashes cs s' (Suc p)
    | res \<Rightarrow> (res, p))"

lemma slice_Cons: "i < j \<Longrightarrow> j \<le> length buf \<Longrightarrow> slice buf i j = buf ! i # slice buf (Suc i) j"
  by (simp add: slice_def Cons_nth_drop_Suc [symmetric] take_Cons' )

lemma cu_loop_scan:
  assumes "i \<le> ue" "ue < length buf"
  shows "cu_loop merge buf ue s (Suc i) (buf ! i) = cu_scan merge (slice buf i ue) s (Suc i)"
  using assms(1)
proof (induction "ue - i" arbitrary: i s)
  case 0
  then show ?case by (simp add: cu_loop.simps [of _ _ _ _ "Suc i"] slice_def)
next
  case (Suc n)
  then have "slice buf i ue = buf ! i # slice buf (Suc i) ue" "Suc i \<le> ue" "Suc i < length buf"
    using assms(2) by (simp_all add: slice_Cons)
  then show ?case
    using Suc.hyps(1) [of "Suc i"] Suc.hyps(2)
    by (simp add: cu_loop.simps [of _ _ _ _ "Suc i"] split: cu_outcome.split)
qed

lemma low_nibble: "take_bit 4 (push_bit 4 x + y) = take_bit 4 (y :: u_char)"
proof -
  have "unat x * 16 mod 256 mod 16 = 0" by (simp add: mod_mod_cancel)
  then have "(unat x * 16 mod 256 + unat y) mod 16 = unat y mod 16" by (metis add_0 mod_add_left_eq)
  then have "take_bit 4 (unat (push_bit 4 x + y)) = take_bit 4 (unat y)"
    by (simp add: unat_word_ariths push_bit_eq_mult take_bit_eq_mod mod_mod_cancel mult.commute)
  then show ?thesis by (simp add: word_unat_eq_iff unsigned_take_bit_eq)
qed

lemma digit_nibble: "is_digit c \<longrightarrow> take_bit 4 (c - chr CHR ''0'') < 10"
  by (rule byte_ballI [where c = c]) (simp add: is_digit_def)

lemma letter_nibble:
  "chr CHR ''a'' \<le> c OR 0x20 \<and> c OR 0x20 \<le> chr CHR ''f'' \<longrightarrow> \<not> take_bit 4 ((c OR 0x20) - chr CHR ''a'' + 10) < 10"
  by (rule byte_ballI [where c = c]) simp

abbreviation special :: "u_char \<Rightarrow> bool" where
  "special c \<equiv> c \<in> set (str ''%?#'')"

lemma quoted_second:
  assumes "hexd l = Some y" "ch = push_bit 4 (decoded s) + y"
  shows "\<exists>b. cu_quoted_second merge s p l =
    (if special ch then put ch (s\<lparr>cu_state := sw_usual\<rparr>)
     else if ch = 0 then Invalid s
     else cu_plain merge (s\<lparr>cu_plus_in_uri := b, cu_state := quoted_state s\<rparr>) p ch)"
proof (cases "is_digit l")
  case True
  with assms have y: "y = l - chr CHR ''0''" by (simp add: hexd_def)
  have "take_bit 4 ch < 10" using digit_nibble [of l] True assms(2) y by (simp add: low_nibble)
  then have "ch \<noteq> chr CHR ''?''" by auto
  moreover have "push_bit 4 (decoded s) + l - chr CHR ''0'' = ch" using assms(2) y by simp
  ultimately have "cu_quoted_second merge s p l =
    (if special ch then put ch (s\<lparr>cu_state := sw_usual\<rparr>) else if ch = 0 then Invalid s
     else cu_plain merge (s\<lparr>cu_plus_in_uri := cu_plus_in_uri s, cu_state := quoted_state s\<rparr>) p ch)"
    using True unfolding cu_quoted_second_def Let_def by simp
  then show ?thesis by blast
next
  case False
  let ?c = "l OR 0x20"
  have c: "chr CHR ''a'' \<le> ?c \<and> ?c \<le> chr CHR ''f''" and y: "y = ?c - chr CHR ''a'' + 10"
    using assms(1) False by (auto simp: hexd_def Let_def split: if_splits)
  have "\<not> take_bit 4 ch < 10" using letter_nibble [of l] c assms(2) y by (simp add: low_nibble)
  then have "ch \<notin> set (str ''%#'')" "ch \<noteq> 0" by auto
  moreover have "push_bit 4 (decoded s) + ?c - chr CHR ''a'' + 10 = ch" using assms(2) y by simp
  ultimately have "cu_quoted_second merge s p l =
    (if special ch then put ch (s\<lparr>cu_state := sw_usual\<rparr>) else if ch = 0 then Invalid s
     else cu_plain merge (s\<lparr>cu_plus_in_uri := (ch = chr CHR ''+'' \<or> cu_plus_in_uri s), cu_state := quoted_state s\<rparr>) p ch)"
    using False c unfolding cu_quoted_second_def Let_def by simp
  then show ?thesis by blast
qed

lemma quoted_first:
  "cu_quoted s h = (case hexd h of None \<Rightarrow> Invalid (s\<lparr>cu_quoted_uri := True\<rparr>)
     | Some x \<Rightarrow> Step (s\<lparr>cu_quoted_uri := True, decoded := x, cu_state := sw_quoted_second\<rparr>))"
  by (simp add: cu_quoted_def hexd_def Let_def)

lemma plain_special:
  assumes "cu_state s = base_state part"
  shows "cu_plain merge s p (chr CHR ''%'') = Step (s\<lparr>quoted_state := cu_state s, cu_state := sw_quoted\<rparr>)"
    "cu_plain merge s p (chr CHR ''?'') = Args (s\<lparr>cu_args_start := Some p\<rparr>)"
    "cu_plain merge s p (chr CHR ''#'') = Done s"
  using assms usual_bytes [of "chr CHR ''%''"] usual_bytes [of "chr CHR ''?''"] usual_bytes [of "chr CHR ''#''"]
  by (auto simp: cu_plain_def base_state_def cu_usual_def cu_slash_def cu_dot_def cu_dot_dot_def)

lemma step_plain: "cu_state s = base_state part \<Longrightarrow> cu_step merge s p c = cu_plain merge s p c"
  by (simp add: cu_step_def base_state_def)

text \<open>Where the path ends, and how many bytes the loop may write.\<close>

definition path_end :: "u_char list \<Rightarrow> nat" where
  "path_end xs = length (takeWhile (\<lambda>c. c \<notin> set (str ''?#'')) xs)"

definition before_args :: "u_char list \<Rightarrow> nat" where
  "before_args xs = length (takeWhile (\<lambda>c. c \<noteq> chr CHR ''?'') xs)"

definition scan_result ::
    "bool \<Rightarrow> u_char list \<Rightarrow> u_char list list \<Rightarrow> u_char list \<Rightarrow> nat \<Rightarrow> cu_outcome \<times> nat \<Rightarrow> bool" where
  "scan_result merge xs segs part p res =
    (case Option.bind (uri_decode xs) (\<lambda>ds. norm merge ds (segs, part)) of
       None \<Rightarrow> \<exists>s' p'. res = (Invalid s', p')
     | Some (segs', part') \<Rightarrow> \<exists>s'. at_stack s' segs' part' \<and>
         (if path_end xs < length xs \<and> xs ! path_end xs = chr CHR ''?''
          then res = (Args (s'\<lparr>cu_args_start := Some (p + path_end xs)\<rparr>), p + path_end xs)
          else \<exists>p'. res = (Done s', p')))"

definition scan_good :: "bool \<Rightarrow> u_char list \<Rightarrow> bool" where
  "scan_good merge xs = (\<forall>s segs part p. at_stack s segs part \<longrightarrow> cu_state s = base_state part \<longrightarrow>
     u s + before_args xs \<le> length (uri_data s) \<longrightarrow> scan_result merge xs segs part p (cu_scan merge xs s p))"

lemma decode_plain: "\<not> special c \<Longrightarrow> uri_decode (c # cs) = map_option (Cons c) (uri_decode cs)"
  by (cases cs; cases "tl cs") auto

lemma bind_cons:
  "Option.bind (map_option (Cons c) ds) (\<lambda>ds. norm merge ds st) =
    Option.bind (norm_byte merge st c) (\<lambda>st'. Option.bind ds (\<lambda>ds. norm merge ds st'))"
  by (cases ds; cases "norm_byte merge st c") auto

text \<open>How a result for the rest of the URI extends to a byte, or an escape, in front of it.\<close>

lemma scan_result_step:
  assumes n: "case norm_byte merge (segs, part) c of None \<Rightarrow> \<exists>s'. res = Invalid s'
      | Some (segs', part') \<Rightarrow> steps_to res s segs' part'"
    and d: "uri_decode xs = map_option (Cons c) (uri_decode cs)"
    and e: "path_end xs = k + path_end cs" "length xs = k + length cs" "\<And>i. xs ! (k + i) = cs ! i"
    and g: "scan_good merge cs" "Suc (u s) + before_args cs \<le> length (uri_data s)"
  shows "scan_result merge xs segs part p
    (case res of Step s' \<Rightarrow> cu_scan merge cs s' (p + k) | _ \<Rightarrow> (res, q))"
proof (cases "norm_byte merge (segs, part) c")
  case None
  with n obtain s' where "res = Invalid s'" by auto
  with None show ?thesis by (simp add: scan_result_def d bind_cons)
next
  case (Some st)
  obtain segs' part' where st: "st = (segs', part')" by fastforce
  with n Some obtain s' where s': "res = Step s'" "at_stack s' segs' part'" "cu_state s' = base_state part'"
      "u s' \<le> Suc (u s)" "length (uri_data s') = length (uri_data s)"
    by (auto simp: steps_to_def split: cu_outcome.splits)
  then have "scan_result merge cs segs' part' (p + k) (cu_scan merge cs s' (p + k))"
    using g unfolding scan_good_def by auto
  moreover have "Option.bind (uri_decode xs) (\<lambda>ds. norm merge ds (segs, part)) =
      Option.bind (uri_decode cs) (\<lambda>ds. norm merge ds (segs', part'))"
    using Some by (simp add: d bind_cons st del: norm_byte.simps)
  ultimately show ?thesis unfolding scan_result_def e s'(1) cu_outcome.case add_less_cancel_left add.assoc [symmetric]
    by (simp only:)
qed

lemma scan_plain:
  assumes "\<not> special c" "scan_good merge cs"
  shows "scan_good merge (c # cs)"
  unfolding scan_good_def
proof (intro allI impI)
  fix s :: cu_locals and segs part p
  assume s: "at_stack s segs part" "cu_state s = base_state part" "u s + before_args (c # cs) \<le> length (uri_data s)"
  have b: "before_args (c # cs) = Suc (before_args cs)" "path_end (c # cs) = Suc (path_end cs)"
    using assms(1) by (simp_all add: before_args_def path_end_def)
  have u: "u s < length (uri_data s)" using s(3) b by simp
  have "scan_result merge (c # cs) segs part p
      (case cu_plain merge s p c of Step s' \<Rightarrow> cu_scan merge cs s' (p + 1) | _ \<Rightarrow> (cu_plain merge s p c, p))"
  proof (rule scan_result_step [where c = c])
    show "case norm_byte merge (segs, part) c of None \<Rightarrow> \<exists>s'. cu_plain merge s p c = Invalid s'
        | Some (segs', part') \<Rightarrow> steps_to (cu_plain merge s p c) s segs' part'"
      using plain_byte [OF s(1) u s(2) assms(1)] .
    show "uri_decode (c # cs) = map_option (Cons c) (uri_decode cs)" by (rule decode_plain [OF assms(1)])
    show "path_end (c # cs) = 1 + path_end cs" "Suc (u s) + before_args cs \<le> length (uri_data s)"
      using b s(3) by simp_all
    show "scan_good merge cs" by (rule assms(2))
  qed simp_all
  then show "scan_result merge (c # cs) segs part p (cu_scan merge (c # cs) s p)"
    by (cases "cu_plain merge s p c") (simp_all add: step_plain [OF s(2)])
qed

lemma hexd_plain: "hexd h = Some x \<Longrightarrow> h \<noteq> 0x25 \<and> h \<noteq> 0x3F \<and> h \<noteq> 0x23"
  by (auto simp: hexd_def is_digit_def split: if_splits)

lemma scan_percent:
  assumes "cu_state s = base_state part" "hexd h = Some x"
  shows "cu_scan merge (chr CHR ''%'' # h # xs) s p = cu_scan merge xs
    (s\<lparr>quoted_state := base_state part, cu_quoted_uri := True, decoded := x, cu_state := sw_quoted_second\<rparr>) (p + 2)"
proof -
  let ?s = "s\<lparr>quoted_state := base_state part, cu_state := sw_quoted\<rparr>"
  have "cu_step merge s p (chr CHR ''%'') = Step ?s"
    using step_plain [OF assms(1)] plain_special(1) [OF assms(1)] assms(1) by metis
  moreover have "cu_step merge ?s (Suc p) h =
      Step (s\<lparr>quoted_state := base_state part, cu_quoted_uri := True, decoded := x, cu_state := sw_quoted_second\<rparr>)"
    by (simp add: cu_step_def quoted_first assms(2))
  ultimately show ?thesis unfolding cu_scan.simps by simp
qed

lemma escape_result:
  assumes "at_stack s segs part" "u s < length (uri_data s)" "quoted_state s = base_state part"
    "hexd l = Some y" "ch = push_bit 4 (decoded s) + y" "ch \<noteq> 0"
  shows "case norm_byte merge (segs, part) ch of
      None \<Rightarrow> \<exists>s'. cu_quoted_second merge s p l = Invalid s'
    | Some (segs', part') \<Rightarrow> steps_to (cu_quoted_second merge s p l) s segs' part'"
proof -
  obtain b where q: "cu_quoted_second merge s p l =
    (if special ch then put ch (s\<lparr>cu_state := sw_usual\<rparr>) else if ch = 0 then Invalid s
     else cu_plain merge (s\<lparr>cu_plus_in_uri := b, cu_state := quoted_state s\<rparr>) p ch)"
    using quoted_second [OF assms(4,5), of merge p] by blast
  show ?thesis
  proof (cases "special ch")
    case True
    then have c: "ch \<noteq> chr CHR ''/''" "ch \<noteq> chr CHR ''.''" by auto
    have "steps_to (put ch (s\<lparr>cu_state := sw_usual\<rparr>)) s segs (part @ [ch])"
      using assms(1,2) c by (intro steps_to_frame [OF put_steps]) (simp_all add: base_state_snoc)
    with True c q show ?thesis by simp
  next
    case False
    let ?s = "s\<lparr>cu_plus_in_uri := b, cu_state := quoted_state s\<rparr>"
    have r: "case norm_byte merge (segs, part) ch of None \<Rightarrow> \<exists>s'. cu_plain merge ?s p ch = Invalid s'
        | Some (segs', part') \<Rightarrow> steps_to (cu_plain merge ?s p ch) ?s segs' part'"
      using assms(1-3) False by (intro plain_byte) simp_all
    have "steps_to res ?s segs' part' \<Longrightarrow> steps_to res s segs' part'" for res segs' part'
      by (erule steps_to_frame) simp_all
    with r show ?thesis unfolding q if_not_P [OF False] if_not_P [OF assms(6)]
      by (cases "norm_byte merge (segs, part) ch") (auto simp del: norm_byte.simps)
  qed
qed

lemma hexd_counts:
  assumes "hexd h = Some x"
  shows "before_args (chr CHR ''%'' # h # cs) = 2 + before_args cs" "path_end (chr CHR ''%'' # h # cs) = 2 + path_end cs"
    "before_args (h # cs) = Suc (before_args cs)" "path_end (h # cs) = Suc (path_end cs)"
  using hexd_plain [OF assms] by (simp_all add: before_args_def path_end_def)

lemma scan_escape:
  assumes "hexd h = Some x" "hexd l = Some y" "scan_good merge cs"
  shows "scan_good merge (chr CHR ''%'' # h # l # cs)"
  unfolding scan_good_def
proof (intro allI impI)
  fix s :: cu_locals and segs part p
  let ?xs = "chr CHR ''%'' # h # l # cs" and ?ch = "push_bit 4 x + y"
  let ?s = "s\<lparr>quoted_state := base_state part, cu_quoted_uri := True, decoded := x, cu_state := sw_quoted_second\<rparr>"
  let ?res = "cu_quoted_second merge ?s (p + 2) l"
  assume s: "at_stack s segs part" "cu_state s = base_state part" "u s + before_args ?xs \<le> length (uri_data s)"
  note c = hexd_counts [OF assms(1), of "l # cs"] hexd_counts [OF assms(2), of cs]
  have sc: "cu_scan merge ?xs s p = (case ?res of Step s' \<Rightarrow> cu_scan merge cs s' (p + 3) | _ \<Rightarrow> (?res, p + 2))"
    using scan_percent [OF s(2) assms(1), of merge "l # cs" p]
    by (simp add: cu_step_def numeral_3_eq_3 split: cu_outcome.split)
  show "scan_result merge ?xs segs part p (cu_scan merge ?xs s p)"
  proof (cases "?ch = 0")
    case True
    moreover have "uri_decode ?xs = None" using True assms(1,2) by simp
    moreover obtain b where "?res = (if special ?ch then put ?ch (?s\<lparr>cu_state := sw_usual\<rparr>) else if ?ch = 0 then Invalid ?s
        else cu_plain merge (?s\<lparr>cu_plus_in_uri := b, cu_state := quoted_state ?s\<rparr>) (p + 2) ?ch)"
      using quoted_second [OF assms(2), of ?ch ?s merge "p + 2"] by auto
    ultimately show ?thesis unfolding scan_result_def sc by simp
  next
    case False
    show ?thesis unfolding sc
    proof (rule scan_result_step [where c = ?ch and s = s])
      show "case norm_byte merge (segs, part) ?ch of None \<Rightarrow> \<exists>s'. ?res = Invalid s'
          | Some (segs', part') \<Rightarrow> steps_to ?res s segs' part'"
      proof -
        have "case norm_byte merge (segs, part) ?ch of None \<Rightarrow> \<exists>s'. ?res = Invalid s'
          | Some (segs', part') \<Rightarrow> steps_to ?res ?s segs' part'"
          using s c by (intro escape_result [OF _ _ _ assms(2) _ False]) simp_all
        moreover have "steps_to ?res ?s segs' part' \<Longrightarrow> steps_to ?res s segs' part'" for segs' part'
          by (erule steps_to_frame) simp_all
        ultimately show ?thesis
          by (cases "norm_byte merge (segs, part) ?ch") (auto simp del: norm_byte.simps)
      qed
      show "uri_decode ?xs = map_option (Cons ?ch) (uri_decode cs)" using False assms(1,2) by simp
      show "path_end ?xs = 3 + path_end cs" "Suc (u s) + before_args cs \<le> length (uri_data s)"
        using c s(3) by simp_all
      show "scan_good merge cs" by (rule assms(3))
    qed simp_all
  qed
qed

lemma scan_cut:
  assumes "\<And>s segs part p. at_stack s segs part \<Longrightarrow> cu_state s = base_state part \<Longrightarrow>
    scan_result merge xs segs part p (cu_scan merge xs s p)"
  shows "scan_good merge xs"
  using assms by (simp add: scan_good_def)

lemma scan_end: "c = chr CHR ''?'' \<or> c = chr CHR ''#'' \<Longrightarrow> scan_good merge (c # cs)"
proof (rule scan_cut)
  fix s :: cu_locals and segs part p
  assume c: "c = chr CHR ''?'' \<or> c = chr CHR ''#''" and s: "at_stack s segs part" "cu_state s = base_state part"
  have "uri_decode (c # cs) = Some []" using c by (cases cs; cases "tl cs") auto
  moreover have "path_end (c # cs) = 0" using c by (auto simp: path_end_def)
  ultimately show "scan_result merge (c # cs) segs part p (cu_scan merge (c # cs) s p)"
    using c s(1) step_plain [OF s(2), of merge p c] plain_special(2,3) [OF s(2), of merge p]
    unfolding scan_result_def cu_scan.simps by auto
qed

lemma scan_nil: "scan_good merge []"
  by (rule scan_cut) (auto simp: scan_result_def path_end_def)

lemma scan_half: "scan_good merge [chr CHR ''%'']"
proof (rule scan_cut)
  fix s :: cu_locals and segs part p
  assume s: "at_stack s segs part" "cu_state s = base_state part"
  have "cu_scan merge [chr CHR ''%''] s p = (Done (s\<lparr>quoted_state := cu_state s, cu_state := sw_quoted\<rparr>), Suc p)"
    using step_plain [OF s(2)] plain_special(1) [OF s(2)] unfolding cu_scan.simps by simp
  with s(1) show "scan_result merge [chr CHR ''%''] segs part p (cu_scan merge [chr CHR ''%''] s p)"
    unfolding scan_result_def by (auto simp: path_end_def)
qed

lemma percent_step:
  assumes "cu_state s = base_state part"
  shows "cu_scan merge (chr CHR ''%'' # h # xs) s p =
    (case hexd h of None \<Rightarrow> (Invalid (s\<lparr>quoted_state := base_state part, cu_state := sw_quoted, cu_quoted_uri := True\<rparr>), Suc p)
     | Some x \<Rightarrow> cu_scan merge xs
         (s\<lparr>quoted_state := base_state part, cu_quoted_uri := True, decoded := x, cu_state := sw_quoted_second\<rparr>) (p + 2))"
proof (cases "hexd h")
  case None
  let ?s = "s\<lparr>quoted_state := base_state part, cu_state := sw_quoted\<rparr>"
  have "cu_step merge s p (chr CHR ''%'') = Step ?s"
    using step_plain [OF assms] plain_special(1) [OF assms] assms by metis
  moreover have "cu_step merge ?s (Suc p) h = Invalid (?s\<lparr>cu_quoted_uri := True\<rparr>)"
    by (simp add: cu_step_def quoted_first None)
  ultimately show ?thesis unfolding cu_scan.simps by (simp add: None)
next
  case (Some x)
  then show ?thesis using scan_percent [OF assms Some] by simp
qed

lemma scan_bad_first: "hexd h = None \<Longrightarrow> scan_good merge (chr CHR ''%'' # h # cs)"
proof (rule scan_cut)
  fix s :: cu_locals and segs part p
  assume h: "hexd h = None" and s: "cu_state s = base_state part"
  have "uri_decode (chr CHR ''%'' # h # cs) = None" using h by (cases cs) auto
  then show "scan_result merge (chr CHR ''%'' # h # cs) segs part p (cu_scan merge (chr CHR ''%'' # h # cs) s p)"
    unfolding scan_result_def percent_step [OF s] using h by simp
qed

lemma scan_bad_second: "hexd h = Some x \<Longrightarrow> hexd l = None \<Longrightarrow> scan_good merge (chr CHR ''%'' # h # l # cs)"
proof (rule scan_cut)
  fix s :: cu_locals and segs part p
  assume h: "hexd h = Some x" and l: "hexd l = None" and s: "cu_state s = base_state part"
  have "cu_quoted_second merge s' q l = Invalid s'" for s' q
    using l by (auto simp: cu_quoted_second_def hexd_def Let_def split: if_splits)
  then show "scan_result merge (chr CHR ''%'' # h # l # cs) segs part p (cu_scan merge (chr CHR ''%'' # h # l # cs) s p)"
    unfolding scan_result_def percent_step [OF s] using h l by (simp add: cu_step_def)
qed

lemma scan_half_second: "hexd h = Some x \<Longrightarrow> scan_good merge [chr CHR ''%'', h]"
proof (rule scan_cut)
  fix s :: cu_locals and segs part p
  assume h: "hexd h = Some x" and s: "at_stack s segs part" "cu_state s = base_state part"
  have "path_end [chr CHR ''%'', h] = 2" using hexd_plain [OF h] by (auto simp: path_end_def)
  with h s show "scan_result merge [chr CHR ''%'', h] segs part p (cu_scan merge [chr CHR ''%'', h] s p)"
    unfolding scan_result_def percent_step [OF s(2)] by simp
qed

lemma scan_all: "scan_good merge xs"
proof (induction xs rule: length_induct)
  case (1 xs)
  then have IH: "scan_good merge ys" if "length ys < length xs" for ys using that by blast
  show ?case
  proof (cases xs)
    case Nil
    then show ?thesis by (simp add: scan_nil)
  next
    case (Cons c ys)
    consider "\<not> special c" | "c = chr CHR ''?'' \<or> c = chr CHR ''#''" | "c = chr CHR ''%''" by auto
    then show ?thesis
    proof cases
      case 1
      then show ?thesis using IH [of ys] unfolding Cons by (intro scan_plain) simp_all
    next
      case 2
      then show ?thesis unfolding Cons by (rule scan_end)
    next
      case 3
      have "scan_good merge zs" if "ys = h # l # zs" for h l zs using IH that Cons by simp
      then show ?thesis unfolding Cons 3
        by (cases ys; cases "tl ys"; cases "hexd (hd ys)"; cases "hexd (hd (tl ys))")
          (auto intro: scan_half [simplified] scan_half_second [simplified] scan_bad_first [simplified]
            scan_bad_second [simplified] scan_escape [simplified])
    qed
  qed
qed

section \<open>The result of the normalisation\<close>

lemma complex_uri_ref:
  assumes "uri_start r = Some us" "uri_end r = Some ue" "us < ue" "ue < length buf" "buf ! us = chr CHR ''/''"
    and "before_args (slice buf us ue) \<le> length mem"
  shows "\<exists>rc r' q'. ngx_http_parse_complex_uri merge_slashes buf mem r q = Some (rc, r', q') \<and>
    (case path_spec merge_slashes (slice buf us ue) of
       None \<Rightarrow> rc = NGX_HTTP_PARSE_INVALID_REQUEST
     | Some path \<Rightarrow> rc = NGX_OK \<and> uri q' = path)"
proof -
  let ?xs = "slice buf (Suc us) ue"
  have x: "slice buf us ue = chr CHR ''/'' # ?xs" using assms(3-5) by (simp add: slice_Cons)
  let ?s0 = "\<lparr>cu_state = sw_usual, quoted_state = sw_usual, decoded = 0, uri_data = mem, u = 0, cu_uri_ext = NULL,
    cu_args_start = NULL, cu_plus_in_uri = plus_in_uri r, cu_quoted_uri = quoted_uri r\<rparr>"
  let ?s1 = "?s0\<lparr>cu_state := sw_slash, uri_data := mem[0 := chr CHR ''/''], u := 1\<rparr>"
  have m: "before_args ?xs + 1 \<le> length mem" using assms(6) by (simp add: x before_args_def)
  have "\<not> tbl_bit usual (chr CHR ''/'')" using usual_bytes [of "chr CHR ''/''"] by auto
  then have "cu_step merge_slashes ?s0 (Suc us) (chr CHR ''/'') = Step ?s1"
    using m by (auto simp: cu_step_def cu_plain_def cu_usual_def put_def)
  then have l: "cu_loop merge_slashes buf ue ?s0 (Suc us) (buf ! us) = cu_scan merge_slashes ?xs ?s1 (Suc (Suc us))"
    using cu_loop_scan [of us ue buf merge_slashes ?s0] assms(3,4) unfolding x by simp
  have "at_stack ?s1 [] []" using m by (cases mem) (auto simp: at_stack_def render_def)
  then have r: "scan_result merge_slashes ?xs [] [] (Suc (Suc us)) (cu_scan merge_slashes ?xs ?s1 (Suc (Suc us)))"
    using scan_all [of merge_slashes ?xs] m unfolding scan_good_def by (simp add: base_state_def)
  show ?thesis
  proof (cases "Option.bind (uri_decode ?xs) (\<lambda>ds. norm merge_slashes ds ([], []))")
    case None
    with r obtain s' p' where "cu_scan merge_slashes ?xs ?s1 (Suc (Suc us)) = (Invalid s', p')"
      by (auto simp: scan_result_def)
    with l None assms(1-4) show ?thesis
      by (simp add: ngx_http_parse_complex_uri_def path_spec_def x)
  next
    case (Some st)
    obtain segs part where st: "st = (segs, part)" by fastforce
    with r Some obtain s' where s': "at_stack s' segs part"
      "(\<exists>p'. cu_scan merge_slashes ?xs ?s1 (Suc (Suc us)) = (Done s', p')) \<or>
       (\<exists>a p'. cu_scan merge_slashes ?xs ?s1 (Suc (Suc us)) = (Args (s'\<lparr>cu_args_start := a\<rparr>), p'))"
      by (auto simp: scan_result_def split: if_splits)
    with l Some assms(1-4) st show ?thesis
      by (auto simp: ngx_http_parse_complex_uri_def path_spec_def x cu_finish_def at_stack_def split: option.split)
  qed
qed

text \<open>C2: on the path of a request, \<open>ngx_http_parse_complex_uri\<close> never writes outside the memory for the result,
  never reads behind the byte that follows the URI, and computes the reference: it decodes the escapes, and
  normalises the result on a stack of segments. It refuses a URI with a broken or a zero escape, and one whose
  \<open>..\<close> segments leave the root. The memory needed is the number of bytes before the first question mark.\<close>

theorem complex_uri_correct:
  assumes "uri_start r = Some us" "uri_end r = Some ue" "us < ue" "ue < length buf" "buf ! us = chr CHR ''/''"
    and "before_args (slice buf us ue) \<le> length mem"
  shows "\<exists>rc r' q'. ngx_http_parse_complex_uri merge_slashes buf mem r q = Some (rc, r', q') \<and>
    (case path_spec merge_slashes (slice buf us ue) of
       None \<Rightarrow> rc = NGX_HTTP_PARSE_INVALID_REQUEST
     | Some path \<Rightarrow> rc = NGX_OK \<and> uri q' = path)"
  by (rule complex_uri_ref [OF assms])

theorem complex_uri_correct_witness:
  "\<exists>r' q'. ngx_http_parse_complex_uri True (str ''/a/./b%2F../%2e%2e//c?x HTTP'') (replicate 21 0)
     ((fresh_request ())\<lparr>uri_start := Some 0, uri_end := Some 23\<rparr>) \<lparr>uri = [], exten = [], args = [], unparsed_uri = [], valid_unparsed_uri = False\<rparr> =
       Some (NGX_OK, r', q') \<and> uri q' = str ''/c''"
  using complex_uri_correct [of "(fresh_request ())\<lparr>uri_start := Some 0, uri_end := Some 23\<rparr>" 0 23
    "str ''/a/./b%2F../%2e%2e//c?x HTTP''" "replicate 21 0" True "\<lparr>uri = [], exten = [], args = [], unparsed_uri = [], valid_unparsed_uri = False\<rparr>"]
  by (auto simp: slice_def before_args_def path_spec_def hexd_def is_digit_def render_def)

text \<open>The segments on the stack are never \<open>.\<close> or \<open>..\<close>, and never empty when slashes are merged.\<close>

definition segment_ok :: "bool \<Rightarrow> u_char list \<Rightarrow> bool" where
  "segment_ok merge s = (slash_free s \<and> s \<noteq> str ''.'' \<and> s \<noteq> str ''..'' \<and> (merge \<longrightarrow> s \<noteq> []))"

lemma pop_ok: "pop segs = Some segs' \<Longrightarrow> list_all P segs \<Longrightarrow> list_all P segs'"
  by (cases segs rule: pop.cases) auto

lemma norm_byte_ok:
  assumes "norm_byte merge (segs, part) c = Some (segs', part')" "list_all (segment_ok merge) segs" "slash_free part"
  shows "list_all (segment_ok merge) segs' \<and> slash_free part'"
  using assms by (auto simp: segment_ok_def pop_ok split: if_splits)

lemma norm_ok:
  assumes "norm merge ds (segs, part) = Some (segs', part')" "list_all (segment_ok merge) segs" "slash_free part"
  shows "list_all (segment_ok merge) segs' \<and> slash_free part'"
  using assms
proof (induction ds arbitrary: segs part)
  case (Cons c ds)
  then obtain segs1 part1 where "norm_byte merge (segs, part) c = Some (segs1, part1)" "norm merge ds (segs1, part1) = Some (segs', part')"
    by (auto simp del: norm_byte.simps simp: bind_eq_Some_conv)
  with norm_byte_ok [OF this(1) Cons.prems(2,3)] Cons.IH show ?case by blast
qed simp

text \<open>What stands between two slashes of a rendered path is one of its segments.\<close>

lemma slash_split:
  assumes "s @ chr CHR ''/'' # x = w @ chr CHR ''/'' # y" "slash_free s" "slash_free w"
  shows "s = w \<and> x = y"
proof -
  have "takeWhile (\<lambda>c. c \<noteq> chr CHR ''/'') (z @ chr CHR ''/'' # v) = z" if "slash_free z" for z v
    using that by (subst takeWhile_append2) auto
  from this [OF assms(2), of x] this [OF assms(3), of y] assms(1) show ?thesis by simp
qed

lemma segment_between:
  assumes "chr CHR ''/'' # concat (map (\<lambda>s. s @ str ''/'') ss) @ part = a @ chr CHR ''/'' # w @ chr CHR ''/'' # b"
    and "list_all slash_free ss" "slash_free part" "slash_free w"
  shows "w \<in> set ss"
  using assms(1,2)
proof (induction ss arbitrary: a)
  case Nil
  then have "set (w @ chr CHR ''/'' # b) \<subseteq> set part"
    by (cases a) auto
  with assms(3) show ?case by auto
next
  case (Cons s ss)
  show ?case
  proof (cases a)
    case Nil
    with Cons.prems(1) have "s @ chr CHR ''/'' # (concat (map (\<lambda>s. s @ str ''/'') ss) @ part) = w @ chr CHR ''/'' # b" by simp
    with slash_split [OF this] Cons.prems(2) assms(4) show ?thesis by simp
  next
    case (Cons c a')
    then have e: "s @ chr CHR ''/'' # (concat (map (\<lambda>s. s @ str ''/'') ss) @ part) = a' @ chr CHR ''/'' # w @ chr CHR ''/'' # b"
      using Cons.prems(1) by simp
    have "length s \<le> length a'"
    proof (rule ccontr)
      assume "\<not> length s \<le> length a'"
      then have "s ! length a' = chr CHR ''/''" using arg_cong [OF e, of "\<lambda>x. x ! length a'"] by (simp add: nth_append)
      with \<open>\<not> length s \<le> length a'\<close> Cons.prems(2) show False by (metis list.pred_inject(2) not_le nth_mem)
    qed
    then have "chr CHR ''/'' # (concat (map (\<lambda>s. s @ str ''/'') ss) @ part) = drop (length s) a' @ chr CHR ''/'' # w @ chr CHR ''/'' # b"
      using e by (simp add: append_eq_append_conv_if)
    with Cons.IH [of "drop (length s) a'"] Cons.prems(2) show ?thesis by auto
  qed
qed

text \<open>A path without dot segments in front of a slash.\<close>

definition no_segment :: "u_char list \<Rightarrow> u_char list \<Rightarrow> bool" where
  "no_segment w path = (\<nexists>a b. path = a @ chr CHR ''/'' # w @ chr CHR ''/'' # b)"

definition clean_path :: "bool \<Rightarrow> u_char list \<Rightarrow> bool" where
  "clean_path merge path = (no_segment (str ''.'') path \<and> no_segment (str ''..'') path \<and> (merge \<longrightarrow> no_segment [] path))"

lemma path_spec_clean:
  assumes "path_spec merge xs = Some path"
  shows "clean_path merge path"
proof -
  obtain ds segs part where n: "norm merge ds ([], []) = Some (segs, part)" "path = render segs part"
    using assms by (auto simp: path_spec_def bind_eq_Some_conv)
  from norm_ok [OF n(1)] have ok: "list_all (segment_ok merge) segs" "slash_free part" by simp_all
  have "w \<in> set segs" if "path = a @ chr CHR ''/'' # w @ chr CHR ''/'' # b" "slash_free w" for a w b
    using segment_between [of "rev segs" part a w b] that ok n(2)
    by (auto simp: render_def list_all_iff segment_ok_def)
  then have "no_segment w path" if "\<not> segment_ok merge w" "slash_free w" for w
    using that ok(1) unfolding no_segment_def list_all_iff by blast
  then show ?thesis by (simp add: clean_path_def segment_ok_def)
qed

end
