(* ===== verification/Http_Args.thy ===== *)
theory Http_Args
  imports Http_Core
begin

text \<open>
  Lookups in query strings, cookies and internal URIs, from
  \<^verbatim>\<open>src/nginx-1.4.4/src/http/ngx_http_parse.c\<close>: \<open>ngx_http_arg\<close>, \<open>ngx_http_split_args\<close>,
  \<open>ngx_http_parse_multi_header_lines\<close> and \<open>ngx_http_parse_unsafe_uri\<close>. A result \<open>None\<close> is a read outside
  of the memory that is known to be there. The separator of paths is that of Unix.
\<close>

section \<open>Arguments of a query\<close>

text \<open>The loop of \<open>ngx_http_arg\<close> from \<open>p\<close> on, for the name \<open>c # cs\<close>. The result gives the two ends of the
  value. The first \<open>&\<close> is looked for from the start of the name.\<close>

function arg_loop :: "ngx_str \<Rightarrow> u_char \<Rightarrow> ngx_str \<Rightarrow> nat \<Rightarrow> (nat \<times> nat) option option" where
  "arg_loop args c cs p =
    (if p < length args then
       (case ngx_strlcasestrn (slice args p (length args - 1)) c cs (length cs) of
          None \<Rightarrow> None
        | Some None \<Rightarrow> Some None
        | Some (Some k) \<Rightarrow>
            let q = p + k; len = Suc (length cs) in
            if length args \<le> q + len then None
            else if (q = 0 \<or> args ! (q - 1) = chr CHR ''&'') \<and> args ! (q + len) = chr CHR ''='' then
              Some (Some (q + len + 1, case ngx_strlchr (drop q args) (chr CHR ''&'') of
                 None \<Rightarrow> length args | Some j \<Rightarrow> q + j))
            else arg_loop args c cs (Suc q))
     else Some None)"
  by pat_completeness auto
termination by (relation "measure (\<lambda>(args, c, cs, p). length args - p)") auto

declare arg_loop.simps [simp del]

definition ngx_http_arg :: "ngx_str \<Rightarrow> ngx_str \<Rightarrow> (ngx_int_t \<times> ngx_str) option" where
  "ngx_http_arg args name =
    (if args = [] then Some (NGX_DECLINED, [])
     else case name of
        [] \<Rightarrow> None
      | c # cs \<Rightarrow>
          (case arg_loop args c cs 0 of
             None \<Rightarrow> None
           | Some None \<Rightarrow> Some (NGX_DECLINED, [])
           | Some (Some (v, e)) \<Rightarrow> Some (NGX_OK, slice args v e)))"

text \<open>The URI and the arguments behind the first question mark.\<close>

definition ngx_http_split_args :: "ngx_str \<Rightarrow> ngx_str \<times> ngx_str" where
  "ngx_http_split_args uri = (case ngx_strlchr uri (chr CHR ''?'') of
      Some p \<Rightarrow> (take p uri, drop (Suc p) uri)
    | None \<Rightarrow> (uri, []))"

section \<open>Values of headers that may be repeated\<close>

text \<open>The code behind \<open>skip\<close>, on the bytes from \<open>start\<close> to \<open>end\<close>.\<close>

definition mh_skip :: "ngx_str \<Rightarrow> ngx_str" where
  "mh_skip s = dropWhile (\<lambda>c. c = chr CHR '' '') (drop 1 (dropWhile (\<lambda>c. c \<noteq> chr CHR '';'' \<and> c \<noteq> chr CHR '','') s))"

lemma mh_skip_length: "length (mh_skip s) \<le> length s - 1"
proof -
  have "length (dropWhile P xs) \<le> length xs" for P :: "u_char \<Rightarrow> bool" and xs by (rule length_dropWhile_le)
  from this [of _ "drop 1 (dropWhile (\<lambda>c. c \<noteq> chr CHR '';'' \<and> c \<noteq> chr CHR '','') s)"] this [of _ s] show ?thesis
    unfolding mh_skip_def by (metis (no_types, lifting) diff_le_mono le_trans length_drop)
qed

lemma mh_skip_less: "s \<noteq> [] \<Longrightarrow> length (mh_skip s) < length s"
  using mh_skip_length [of s] by (cases s) auto

abbreviation skip_spaces :: "ngx_str \<Rightarrow> ngx_str" where
  "skip_spaces s \<equiv> dropWhile (\<lambda>c. c = chr CHR '' '') s"

lemma length_skip_spaces: "length (skip_spaces s) \<le> length s"
  by (rule length_dropWhile_le)

text \<open>The loop over one header value. The value of a header is followed by a zero byte. \<open>with_value\<close> is
  \<open>value != NULL\<close>; the result is the value found, which is empty without one.\<close>

function mh_loop :: "bool \<Rightarrow> ngx_str \<Rightarrow> ngx_str \<Rightarrow> ngx_str option option" where
  "mh_loop with_value name s =
    (if s = [] then Some None
     else case ngx_strncasecmp (s @ [0]) name (length name) of
        None \<Rightarrow> None
      | Some r \<Rightarrow>
          if r \<noteq> 0 then mh_loop with_value name (mh_skip s)
          else
            let s1 = skip_spaces (drop (length name) s) in
            if \<not> with_value then
              (if s1 = [] \<or> hd s1 = chr CHR '','' then Some (Some []) else mh_loop with_value name (mh_skip s1))
            else if s1 = [] then Some None
            else if hd s1 \<noteq> chr CHR ''='' then mh_loop with_value name (mh_skip (tl s1))
            else Some (Some (takeWhile (\<lambda>c. c \<noteq> chr CHR '';'') (skip_spaces (tl s1)))))"
  by pat_completeness auto
termination
proof (relation "measure (\<lambda>(v, name, s). length s)", goal_cases)
  case 1
  show ?case by simp
next
  case (2 v name s r)
  then show ?case using mh_skip_less [of s] by simp
next
  case (3 v name s r s1)
  have "length s1 \<le> length s" using length_skip_spaces [of "drop (length name) s"] 3(4) by simp
  with 3 show ?case using mh_skip_less [of s1] by auto
next
  case (4 v name s r s1)
  have "length s1 \<le> length s" using length_skip_spaces [of "drop (length name) s"] 4(4) by simp
  with 4(1) have "length (mh_skip (tl s1)) < length s" using mh_skip_length [of "tl s1"] by (cases s) auto
  then show ?case by simp
qed

declare mh_loop.simps [simp del]

primrec multi_header_loop ::
    "bool \<Rightarrow> ngx_str \<Rightarrow> ngx_str list \<Rightarrow> nat \<Rightarrow> (ngx_int_t \<times> ngx_str) option" where
  "multi_header_loop with_value name [] i = Some (NGX_DECLINED, [])"
| "multi_header_loop with_value name (v # vs) i =
    (if length name > length v then multi_header_loop with_value name vs (Suc i)
     else case mh_loop with_value name v of
        None \<Rightarrow> None
      | Some None \<Rightarrow> multi_header_loop with_value name vs (Suc i)
      | Some (Some value) \<Rightarrow> Some (word_of_nat i, value))"

definition ngx_http_parse_multi_header_lines ::
    "bool \<Rightarrow> ngx_str list \<Rightarrow> ngx_str \<Rightarrow> (ngx_int_t \<times> ngx_str) option" where
  "ngx_http_parse_multi_header_lines with_value headers name = multi_header_loop with_value name headers 0"

section \<open>Unsafe URIs\<close>

text \<open>The loop of \<open>ngx_http_parse_unsafe_uri\<close> with \<open>len\<close> bytes left at \<open>p\<close>: \<open>Unsafe\<close> is the jump to the label,
  \<open>Args n\<close> a question mark with \<open>n\<close> bytes behind it. \<open>mem\<close> is the memory \<open>uri->data\<close> points to, which may be
  longer than the URI.\<close>

datatype unsafe_uri = Safe | Query nat | Unsafe | Overread

primrec unsafe_loop :: "u_char list \<Rightarrow> nat \<Rightarrow> nat \<Rightarrow> unsafe_uri" where
  "unsafe_loop mem p 0 = Safe"
| "unsafe_loop mem p (Suc n) =
    (if length mem \<le> p then Overread
     else let ch = mem ! p; p = Suc p in
       if tbl_bit usual ch then unsafe_loop mem p n
       else if ch = chr CHR ''?'' then Query n
       else if ch = 0 then Unsafe
       else if ch = chr CHR ''/'' \<and> Suc n > 2 then
         if mem ! p = chr CHR ''.'' \<and> mem ! (p + 1) = chr CHR ''.'' then
           if length mem \<le> p + 2 then Overread
           else if mem ! (p + 2) = chr CHR ''/'' then Unsafe else unsafe_loop mem p n
         else unsafe_loop mem p n
       else unsafe_loop mem p n)"

text \<open>The result is the return code, the URI and the arguments; the flags of the caller only decide on
  logging.\<close>

definition ngx_http_parse_unsafe_uri :: "u_char list \<Rightarrow> nat \<Rightarrow> (ngx_int_t \<times> ngx_str \<times> ngx_str) option" where
  "ngx_http_parse_unsafe_uri mem len =
    (if len = 0 \<or> mem ! 0 = chr CHR ''?'' then Some (NGX_ERROR, take len mem, [])
     else if mem ! 0 = chr CHR ''.'' \<and> len = 3 \<and> mem ! 1 = chr CHR ''.'' \<and> mem ! 2 = chr CHR ''/'' then
       Some (NGX_ERROR, take len mem, [])
     else case unsafe_loop mem 0 len of
        Safe \<Rightarrow> Some (NGX_OK, take len mem, [])
      | Query n \<Rightarrow> Some (NGX_OK, take (len - Suc n) mem, slice mem (len - n) len)
      | Unsafe \<Rightarrow> Some (NGX_ERROR, take len mem, [])
      | Overread \<Rightarrow> None)"

section \<open>Arguments: correctness\<close>

text \<open>An argument named \<open>name\<close> starts at \<open>q\<close>.\<close>

definition arg_at :: "ngx_str \<Rightarrow> ngx_str \<Rightarrow> nat \<Rightarrow> bool" where
  "arg_at args name q = (q + length name < length args \<and> (q = 0 \<or> args ! (q - 1) = chr CHR ''&'') \<and>
     map ngx_tolower (take (length name) (drop q args)) = map ngx_tolower name \<and> args ! (q + length name) = chr CHR ''='')"

lemma find_upt_skip:
  assumes "\<And>i. a \<le> i \<Longrightarrow> i < b \<Longrightarrow> \<not> P i" "a \<le> b" "b \<le> n"
  shows "find P [a..<n] = find P [b..<n]"
  using assms
proof (induction "b - a" arbitrary: a)
  case (Suc d)
  then have "\<not> P a" "[a..<n] = a # [Suc a..<n]" by (simp_all add: upt_conv_Cons)
  with Suc show ?case by simp
qed simp

lemma caseless_slice:
  assumes "p \<le> i"
  shows "caseless_at (slice args p (length args - 1)) c cs (length cs) (i - p) \<longleftrightarrow>
    i + Suc (length cs) < length args \<and> map ngx_tolower (take (Suc (length cs)) (drop i args)) = map ngx_tolower (c # cs)"
proof (cases "i + Suc (length cs) < length args")
  case True
  let ?s = "slice args p (length args - 1)"
  have s: "?s ! (i - p) = args ! i" "take (length cs) (drop (Suc (i - p)) ?s) = take (length cs) (drop (Suc i) args)"
    using True assms by (simp_all add: slice_def drop_take min_def)
  have "take (Suc (length cs)) (drop i args) = args ! i # take (length cs) (drop (Suc i) args)"
    using True by (simp add: Cons_nth_drop_Suc [symmetric])
  moreover have "i - p + length cs < length ?s" using True assms by (simp add: slice_def)
  ultimately show ?thesis using True unfolding caseless_at_def s by simp
next
  case False
  then show ?thesis using assms by (auto simp: caseless_at_def slice_def)
qed

lemma strlcasestrn_slice:
  assumes "0 \<notin> set cs"
  shows "case ngx_strlcasestrn (slice args p (length args - 1)) c cs (length cs) of
      None \<Rightarrow> False
    | Some None \<Rightarrow> \<forall>i \<ge> p. \<not> arg_at args (c # cs) i
    | Some (Some k) \<Rightarrow> p + k + Suc (length cs) < length args \<and>
        map ngx_tolower (take (Suc (length cs)) (drop (p + k) args)) = map ngx_tolower (c # cs) \<and>
        (\<forall>i. p \<le> i \<and> i < p + k \<longrightarrow> \<not> arg_at args (c # cs) i)"
proof -
  let ?s = "slice args p (length args - 1)"
  let ?P = "caseless_at ?s c cs (length cs)"
  have a: "?P (i - p)" if "arg_at args (c # cs) i" "p \<le> i" for i
    using that unfolding caseless_slice [OF that(2)] by (simp add: arg_at_def)
  have P: "i < length ?s" if "?P i" for i using that by (simp add: caseless_at_def)
  have e: "ngx_strlcasestrn ?s c cs (length cs) = Some (find ?P [0..<length ?s])"
    using strlcasestrn_loop_find [of "length cs" cs 0 ?s c] assms by (simp add: ngx_strlcasestrn_def)
  show ?thesis
  proof (cases "find ?P [0..<length ?s]")
    case None
    then have "\<not> ?P i" for i using P [of i] by (auto simp: find_None_iff)
    with a have "\<not> arg_at args (c # cs) i" if "p \<le> i" for i using that by blast
    then show ?thesis unfolding e None by simp
  next
    case (Some k)
    then have k: "?P k" "\<And>j. j < k \<Longrightarrow> \<not> ?P j" by (auto simp: find_Some_iff)
    have "\<not> arg_at args (c # cs) i" if "p \<le> i" "i < p + k" for i
      using a [of i] k(2) [of "i - p"] that by auto
    with k(1) caseless_slice [of p "p + k" args c cs] show ?thesis unfolding e Some by simp
  qed
qed

lemma arg_loop_find:
  assumes "0 \<notin> set cs"
  shows "arg_loop args c cs p = Some (map_option
    (\<lambda>q. (q + length (c # cs) + 1, case ngx_strlchr (drop q args) (chr CHR ''&'') of None \<Rightarrow> length args | Some j \<Rightarrow> q + j))
    (find (arg_at args (c # cs)) [p..<length args]))"
  using assms
proof (induction args c cs p rule: arg_loop.induct)
  case (1 args c cs p)
  let ?f = "\<lambda>q. (q + length (c # cs) + 1,
    case ngx_strlchr (drop q args) (chr CHR ''&'') of None \<Rightarrow> length args | Some j \<Rightarrow> q + j)"
  show ?case
  proof (cases "p < length args")
    case False
    then show ?thesis by (simp add: arg_loop.simps [of args c cs p])
  next
    case True
    note s = strlcasestrn_slice [OF 1(2), where args = args and p = p and c = c]
    show ?thesis
    proof (cases "ngx_strlcasestrn (slice args p (length args - 1)) c cs (length cs)")
      case None
      with s show ?thesis by simp
    next
      case (Some r)
      show ?thesis
      proof (cases r)
        case None
        with s Some have "find (arg_at args (c # cs)) [p..<length args] = None" by (auto simp: find_None_iff)
        with True Some None show ?thesis by (simp add: arg_loop.simps [of args c cs p])
      next
        case r: (Some k)
        let ?q = "p + k"
        have k: "?q + Suc (length cs) < length args"
            "map ngx_tolower (take (Suc (length cs)) (drop ?q args)) = map ngx_tolower (c # cs)"
            "\<And>i. p \<le> i \<Longrightarrow> i < ?q \<Longrightarrow> \<not> arg_at args (c # cs) i"
          using s Some r by auto
        have skip: "find (arg_at args (c # cs)) [p..<length args] = find (arg_at args (c # cs)) [?q..<length args]"
          using k by (intro find_upt_skip) auto
        have at: "arg_at args (c # cs) ?q \<longleftrightarrow>
            (?q = 0 \<or> args ! (?q - 1) = chr CHR ''&'') \<and> args ! (?q + Suc (length cs)) = chr CHR ''=''"
          using k(1,2) by (auto simp: arg_at_def)
        have q: "[?q..<length args] = ?q # [Suc ?q..<length args]" using k(1) by (simp add: upt_conv_Cons)
        have IH: "\<not> arg_at args (c # cs) ?q \<Longrightarrow> arg_loop args c cs (Suc ?q) = Some (map_option ?f (find (arg_at args (c # cs)) [Suc ?q..<length args]))"
          using 1(1) [OF True Some [unfolded r] refl refl refl] 1(2) k(1) at by simp
        have "arg_loop args c cs p = (if arg_at args (c # cs) ?q then Some (Some (?f ?q)) else arg_loop args c cs (Suc ?q))"
          using True Some r k(1) at by (subst arg_loop.simps) (simp add: Let_def)
        with IH skip q show ?thesis by simp
      qed
    qed
  qed
qed

lemma strlchr_takeWhile:
  "ngx_strlchr s c = (if c \<in> set s then Some (length (takeWhile (\<lambda>x. x \<noteq> c) s)) else None)"
  by (induction s) auto

lemma slice_to_amp:
  assumes "q + n + 1 \<le> length args" "chr CHR ''&'' \<notin> set (take (n + 1) (drop q args))"
  shows "slice args (q + n + 1) (case ngx_strlchr (drop q args) (chr CHR ''&'') of None \<Rightarrow> length args | Some j \<Rightarrow> q + j) =
    takeWhile (\<lambda>c. c \<noteq> chr CHR ''&'') (drop (q + n + 1) args)"
proof -
  let ?d = "drop (q + n + 1) args" and ?P = "\<lambda>c. c \<noteq> chr CHR ''&''"
  have d: "drop q args = take (n + 1) (drop q args) @ ?d"
    using append_take_drop_id [of "n + 1" "drop q args"] by (simp add: add.commute add.left_commute)
  have l: "length (take (n + 1) (drop q args)) = n + 1" using assms(1) by simp
  have "takeWhile ?P (drop q args) = take (n + 1) (drop q args) @ takeWhile ?P ?d"
    by (subst (1) d, rule takeWhile_append2) (use assms(2) in auto)
  then have "length (takeWhile ?P (drop q args)) = n + 1 + length (takeWhile ?P ?d)" using l by simp
  moreover have "chr CHR ''&'' \<in> set (drop q args) \<longleftrightarrow> chr CHR ''&'' \<in> set ?d"
    using assms(2) arg_cong [OF d, of set] by auto
  moreover have "take (length (takeWhile ?P ?d)) ?d = takeWhile ?P ?d" by (metis takeWhile_eq_take)
  moreover have "takeWhile ?P ?d = ?d" if "chr CHR ''&'' \<notin> set ?d" using that by (subst takeWhile_eq_all_conv) auto
  ultimately show ?thesis
    by (cases "chr CHR ''&'' \<in> set ?d")
      (simp_all add: strlchr_takeWhile slice_def del: takeWhile_eq_all_conv)
qed

lemma tolower_amp: "ngx_tolower c = chr CHR ''&'' \<longrightarrow> c = chr CHR ''&''"
  by (rule byte_ballI [where c = c]) (simp add: ngx_tolower_def)

lemma arg_at_amp:
  assumes "arg_at args name q" "chr CHR ''&'' \<notin> set name"
  shows "chr CHR ''&'' \<notin> set (take (length name + 1) (drop q args))"
proof -
  have l: "q + length name < length args" "args ! (q + length name) = chr CHR ''=''"
    and m: "map ngx_tolower (take (length name) (drop q args)) = map ngx_tolower name"
    using assms(1) by (auto simp: arg_at_def)
  have "chr CHR ''&'' \<notin> set (take (length name) (drop q args))"
  proof
    assume "chr CHR ''&'' \<in> set (take (length name) (drop q args))"
    then have "ngx_tolower (chr CHR ''&'') \<in> ngx_tolower ` set name"
      using m by (metis image_eqI list.set_map)
    then obtain x where "x \<in> set name" "ngx_tolower x = chr CHR ''&''" by (auto simp: ngx_tolower_def)
    with tolower_amp [of x] assms(2) show False by auto
  qed
  moreover have "take (length name + 1) (drop q args) = take (length name) (drop q args) @ [chr CHR ''='']"
    using l by (simp add: take_Suc_conv_app_nth)
  ultimately show ?thesis by auto
qed

text \<open>C17: \<open>ngx_http_arg\<close> finds the first argument with the given name, up to case, in a query string: an argument
  starts at the beginning or behind an ampersand and its name is followed by an equals sign. The value goes up to
  the next ampersand or the end, and no byte outside of the query is read.\<close>

theorem http_arg_correct:
  assumes "name \<noteq> []" "0 \<notin> set name" "chr CHR ''&'' \<notin> set name"
  shows "ngx_http_arg args name = Some (case find (arg_at args name) [0..<length args] of
      None \<Rightarrow> (NGX_DECLINED, [])
    | Some q \<Rightarrow> (NGX_OK, takeWhile (\<lambda>c. c \<noteq> chr CHR ''&'') (drop (q + length name + 1) args)))"
proof -
  obtain c cs where n: "name = c # cs" using assms(1) by (cases name) auto
  have l: "arg_loop args c cs 0 = Some (map_option (\<lambda>q. (q + length name + 1,
      case ngx_strlchr (drop q args) (chr CHR ''&'') of None \<Rightarrow> length args | Some j \<Rightarrow> q + j))
      (find (arg_at args name) [0..<length args]))"
    using arg_loop_find [of cs args c 0] assms(2) by (simp add: n)
  have v: "slice args (q + length name + 1) (case ngx_strlchr (drop q args) (chr CHR ''&'') of None \<Rightarrow> length args | Some j \<Rightarrow> q + j) =
      takeWhile (\<lambda>c. c \<noteq> chr CHR ''&'') (drop (q + length name + 1) args)" if "arg_at args name q" for q
    using slice_to_amp [of q "length name" args] arg_at_amp [OF that assms(3)] that by (simp add: arg_at_def)
  show ?thesis
  proof (cases "find (arg_at args name) [0..<length args]")
    case None
    with l show ?thesis by (simp add: ngx_http_arg_def n)
  next
    case (Some q)
    then have "arg_at args name q" "args \<noteq> []" by (auto simp: find_Some_iff)
    with l v Some show ?thesis by (simp add: ngx_http_arg_def n)
  qed
qed

theorem http_arg_correct_witness:
  "ngx_http_arg (str ''xname=1&Name=val&b'') (str ''name'') = Some (NGX_OK, str ''val'')"
  using http_arg_correct [of "str ''name''" "str ''xname=1&Name=val&b''"]
  by (simp add: upt_conv_Cons arg_at_def ngx_tolower_def)

section \<open>Cookies\<close>




















text \<open>A name without a value hides the cookie behind it: the separator that follows the name is skipped as if it
  belonged to a value.\<close>

lemma cookie_hidden:
  "ngx_http_parse_multi_header_lines True [str ''uid; uid=7''] (str ''uid'') = Some (NGX_DECLINED, [])"
proof -
  have "mh_loop True (str ''uid'') (str ''uid; uid=7'') = mh_loop True (str ''uid'') []"
    by (subst mh_loop.simps) (simp add: mh_skip_def ngx_tolower_def)
  then show ?thesis
    by (simp add: ngx_http_parse_multi_header_lines_def mh_loop.simps [of True _ "[]"])
qed

section \<open>Unsafe URIs: correctness\<close>

definition safe_at :: "u_char list \<Rightarrow> nat \<Rightarrow> nat \<Rightarrow> bool" where
  "safe_at mem e i = (mem ! i \<noteq> 0 \<and> mem ! i \<noteq> chr CHR ''?'' \<and>
     \<not> (i + 3 < e \<and> mem ! i = chr CHR ''/'' \<and> mem ! (i + 1) = chr CHR ''.'' \<and> mem ! (i + 2) = chr CHR ''.'' \<and>
        mem ! (i + 3) = chr CHR ''/''))"

lemma unsafe_loop_safe:
  assumes "p + n \<le> length mem"
  shows "case unsafe_loop mem p n of
      Safe \<Rightarrow> \<forall>i. p \<le> i \<and> i < p + n \<longrightarrow> safe_at mem (p + n) i
    | Query m \<Rightarrow> m < n \<and> mem ! (p + n - Suc m) = chr CHR ''?'' \<and>
        (\<forall>i. p \<le> i \<and> i < p + n - Suc m \<longrightarrow> safe_at mem (p + n) i)
    | _ \<Rightarrow> True"
  using assms
proof (induction n arbitrary: p)
  case (Suc n)
  have IH: "case unsafe_loop mem (Suc p) n of
      Safe \<Rightarrow> \<forall>i. Suc p \<le> i \<and> i < p + Suc n \<longrightarrow> safe_at mem (p + Suc n) i
    | Query m \<Rightarrow> m < n \<and> mem ! (p + Suc n - Suc m) = chr CHR ''?'' \<and>
        (\<forall>i. Suc p \<le> i \<and> i < p + Suc n - Suc m \<longrightarrow> safe_at mem (p + Suc n) i)
    | _ \<Rightarrow> True"
    using Suc.IH [of "Suc p"] Suc.prems unfolding add_Suc_shift by blast
  have first: "unsafe_loop mem p (Suc n) = unsafe_loop mem (Suc p) n \<Longrightarrow> safe_at mem (p + Suc n) p \<Longrightarrow> ?case"
  proof -
    assume l: "unsafe_loop mem p (Suc n) = unsafe_loop mem (Suc p) n" and s: "safe_at mem (p + Suc n) p"
    have "\<forall>i. p \<le> i \<and> i < e \<longrightarrow> safe_at mem (p + Suc n) i" if "\<forall>i. Suc p \<le> i \<and> i < e \<longrightarrow> safe_at mem (p + Suc n) i" for e
      using that s by (metis Suc_leI le_neq_implies_less)
    with IH l show ?case by (cases "unsafe_loop mem (Suc p) n") (auto simp del: unsafe_loop.simps)
  qed
  show ?case
  proof (cases "mem ! p = chr CHR ''?''")
    case True
    then have "unsafe_loop mem p (Suc n) = Query n" using Suc.prems usual_bytes [of "chr CHR ''?''"] by (auto simp: Let_def)
    with True show ?thesis by (auto simp del: unsafe_loop.simps)
  next
    case False
    have "unsafe_loop mem p (Suc n) \<in> {Unsafe, Overread} \<or>
        unsafe_loop mem p (Suc n) = unsafe_loop mem (Suc p) n \<and> safe_at mem (p + Suc n) p"
      using Suc.prems False usual_bytes [of "mem ! p"] by (auto simp: Let_def safe_at_def numeral_3_eq_3)
    with first show ?thesis by fastforce
  qed
qed auto

text \<open>C18: a URI that \<open>ngx_http_parse_unsafe_uri\<close> accepts is not empty, holds no zero byte and no \<open>/../\<close>, and is cut
  exactly at the first question mark from its arguments.\<close>

theorem unsafe_uri_accepts:
  assumes "len \<le> length mem" "ngx_http_parse_unsafe_uri mem len = Some (NGX_OK, uri, args)"
  shows "uri \<noteq> [] \<and> 0 \<notin> set uri \<and> chr CHR ''?'' \<notin> set uri \<and> (\<nexists>a b. uri = a @ str ''/../'' @ b) \<and>
    (take len mem = uri \<and> args = [] \<or> take len mem = uri @ chr CHR ''?'' # args)"
proof -
  have l: "len \<noteq> 0" "mem ! 0 \<noteq> chr CHR ''?''" using assms(2) by (auto simp: ngx_http_parse_unsafe_uri_def split: if_splits)
  have "unsafe_loop mem 0 len = Safe \<and> uri = take len mem \<and> args = [] \<or>
      (\<exists>n. unsafe_loop mem 0 len = Query n \<and> uri = take (len - Suc n) mem \<and> args = slice mem (len - n) len)"
    using assms(2) by (auto simp: ngx_http_parse_unsafe_uri_def split: if_splits unsafe_uri.splits)
  then obtain k where k: "k \<le> len" "uri = take k mem" "\<And>i. i < k \<Longrightarrow> safe_at mem len i" "k \<noteq> 0"
      and t: "take len mem = uri \<and> args = [] \<or> take len mem = uri @ chr CHR ''?'' # args"
  proof (elim disjE exE conjE, goal_cases)
    case 1
    with unsafe_loop_safe [of 0 len mem] assms(1) l show ?thesis by (intro 1(1) [of len]) simp_all
  next
    case (2 n)
    then have n: "n < len" "mem ! (len - Suc n) = chr CHR ''?''" "\<And>i. i < len - Suc n \<Longrightarrow> safe_at mem len i"
      using unsafe_loop_safe [of 0 len mem] assms(1) by auto
    then have "len - Suc n \<noteq> 0" using l(2) by auto
    moreover have "take len mem = take (len - Suc n) mem @ chr CHR ''?'' # slice mem (len - n) len"
      using n(1,2) assms(1) id_take_nth_drop [of "len - Suc n" "take len mem"]
      by (simp add: slice_def drop_take Suc_diff_Suc)
    ultimately show ?thesis using 2 n(3) by (intro 2(1) [of "len - Suc n"]) auto
  qed
  have u: "uri ! i = mem ! i" "i < k" if "i < length uri" for i using that by (simp_all add: k(2))
  have "x \<noteq> 0 \<and> x \<noteq> chr CHR ''?''" if "x \<in> set uri" for x
    using that k(3) u unfolding in_set_conv_nth safe_at_def by metis
  moreover have "\<nexists>a b. uri = a @ str ''/../'' @ b"
  proof
    assume "\<exists>a b. uri = a @ str ''/../'' @ b"
    then obtain a b where ab: "uri = a @ str ''/../'' @ b" by blast
    let ?i = "length a"
    have "?i + 3 < length uri" "uri ! ?i = chr CHR ''/''" "uri ! (?i + 1) = chr CHR ''.''" "uri ! (?i + 2) = chr CHR ''.''"
      "uri ! (?i + 3) = chr CHR ''/''" by (simp_all add: ab nth_append)
    moreover from this(1) have "safe_at mem len ?i" "?i + 3 < len" using k(1) k(3) [of ?i] u(2) [of "?i + 3"] by simp_all
    ultimately show False using u(1) by (simp add: safe_at_def)
  qed
  moreover have "uri \<noteq> []" using k assms(1) l(1) by auto
  ultimately show ?thesis using t by auto
qed

lemmas unsafe_eval = ngx_http_parse_unsafe_uri_def tbl_bit_def usual_def
  unsafe_loop.simps(2) [of _ _ "pred_numeral k" for k, folded numeral_eq_Suc]

theorem unsafe_uri_accepts_witness:
  "\<exists>uri args. ngx_http_parse_unsafe_uri (str ''/a/..b?c'') 8 = Some (NGX_OK, uri, args) \<and>
     0 \<notin> set uri \<and> (\<nexists>a b. uri = a @ str ''/../'' @ b)"
proof -
  obtain uri args where r: "ngx_http_parse_unsafe_uri (str ''/a/..b?c'') 8 = Some (NGX_OK, uri, args)"
    by (simp add: unsafe_eval)
  from unsafe_uri_accepts [OF _ r] r show ?thesis by simp
qed

text \<open>A relative URI that starts with \<open>../\<close> is only refused when nothing follows, and behind a final \<open>/..\<close> a byte
  outside of the URI is read.\<close>

lemma unsafe_uri_parent:
  "ngx_http_parse_unsafe_uri (str ''../a'') 4 = Some (NGX_OK, str ''../a'', [])"
  "ngx_http_parse_unsafe_uri (str ''/a/..'') 5 = None"
  by (simp_all add: unsafe_eval)

end
