(* ===== verification/Http_Process.thy ===== *)
theory Http_Process
  imports Http_Request_Line Http_Uri
begin

text \<open>
  Parts of \<^verbatim>\<open>src/nginx-1.4.4/src/http/ngx_http_request.c\<close> that stand between the parsers and the rest of the
  server: \<open>ngx_http_process_request_uri\<close>, \<open>ngx_http_validate_host\<close> and \<open>ngx_http_process_request_header\<close> with the
  handlers of single headers. Memory comes from \<open>ngx_pnalloc\<close>, which is a parameter: it yields a block of the
  size asked for, with any contents.
\<close>

section \<open>The URI of a request\<close>

text \<open>The pointers of \<open>r\<close> lie in \<open>buf\<close>.\<close>

definition uri_len :: "'st ngx_http_request_t \<Rightarrow> nat \<Rightarrow> nat \<Rightarrow> nat" where
  "uri_len r us ue = (case args_start r of Some a \<Rightarrow> a - 1 - us | None \<Rightarrow> ue - us)"

definition uri_strings :: "u_char list \<Rightarrow> nat \<Rightarrow> nat \<Rightarrow> 'st ngx_http_request_t \<Rightarrow> request_uri \<Rightarrow> request_uri" where
  "uri_strings buf us ue r q =
    (let q1 = q\<lparr>unparsed_uri := slice buf us ue, valid_unparsed_uri := \<not> space_in_uri r\<rparr>;
         q2 = (case uri_ext r of
                 None \<Rightarrow> q1
               | Some e \<Rightarrow> q1\<lparr>exten := slice buf e (case args_start r of Some a \<Rightarrow> a - 1 | None \<Rightarrow> ue)\<rparr>)
     in case args_start r of
          None \<Rightarrow> q2
        | Some a \<Rightarrow> if ue > a then q2\<lparr>args := slice buf a ue\<rparr> else q2)"

definition ngx_http_process_request_uri ::
    "bool \<Rightarrow> (nat \<Rightarrow> u_char list) \<Rightarrow> u_char list \<Rightarrow> 'st ngx_http_request_t \<Rightarrow> request_uri \<Rightarrow>
     (ngx_int_t \<times> 'st ngx_http_request_t \<times> request_uri) option" where
  "ngx_http_process_request_uri merge_slashes ngx_pnalloc buf r q =
    (case (uri_start r, uri_end r) of
       (Some us, Some ue) \<Rightarrow>
         let len = uri_len r us ue in
         if complex_uri r \<or> quoted_uri r then
           (case ngx_http_parse_complex_uri merge_slashes buf (ngx_pnalloc (len + 1)) r q of
              None \<Rightarrow> None
            | Some (rc, r', q') \<Rightarrow>
                if rc \<noteq> NGX_OK then Some (NGX_ERROR, r', q')
                else Some (NGX_OK, r', uri_strings buf us ue r' q'))
         else Some (NGX_OK, r, uri_strings buf us ue r (q\<lparr>uri := slice buf us (us + len)\<rparr>))
     | _ \<Rightarrow> None)"

section \<open>The host of a request\<close>

datatype vh_state = sw_usual | sw_literal | sw_rest

text \<open>The loop over the bytes of the host, with \<open>dot_pos\<close>, \<open>host_len\<close>, \<open>state\<close> and \<open>alloc\<close>. \<open>dot_pos == i - 1\<close> is
  never true for \<open>i = 0\<close>, where \<open>i - 1\<close> wraps around. \<open>None\<close> is a return of \<open>NGX_DECLINED\<close>.\<close>

primrec vh_loop :: "ngx_str \<Rightarrow> nat \<Rightarrow> nat \<times> nat \<times> vh_state \<times> bool \<Rightarrow> (nat \<times> nat \<times> vh_state \<times> bool) option" where
  "vh_loop [] i s = Some s"
| "vh_loop (ch # cs) i s =
    (case s of (dot_pos, host_len, st, alloc) \<Rightarrow>
      if ch = chr CHR ''.'' then (if Suc dot_pos = i then None else vh_loop cs (Suc i) (i, host_len, st, alloc))
      else if ch = chr CHR '':'' then
        (if st = sw_usual then vh_loop cs (Suc i) (dot_pos, i, sw_rest, alloc) else vh_loop cs (Suc i) s)
      else if ch = chr CHR ''['' then
        (if i = 0 then vh_loop cs (Suc i) (dot_pos, host_len, sw_literal, alloc) else vh_loop cs (Suc i) s)
      else if ch = chr CHR '']'' then
        (if st = sw_literal then vh_loop cs (Suc i) (dot_pos, i + 1, sw_rest, alloc) else vh_loop cs (Suc i) s)
      else if ch = 0 then None
      else if ch = chr CHR ''/'' then None
      else if chr CHR ''A'' \<le> ch \<and> ch \<le> chr CHR ''Z'' then vh_loop cs (Suc i) (dot_pos, host_len, st, True)
      else vh_loop cs (Suc i) s)"

definition ngx_http_validate_host :: "ngx_str \<Rightarrow> bool \<Rightarrow> ngx_int_t \<times> ngx_str" where
  "ngx_http_validate_host host alloc =
    (case vh_loop host 0 (length host, length host, sw_usual, alloc) of
       None \<Rightarrow> (NGX_DECLINED, host)
     | Some (dot_pos, host_len, st, alloc) \<Rightarrow>
         let host_len = (if Suc dot_pos = host_len then host_len - 1 else host_len) in
         if host_len = 0 then (NGX_DECLINED, host)
         else (NGX_OK, if alloc then ngx_strlow (take host_len host) else take host_len host))"

section \<open>Headers of a request\<close>

text \<open>The fields of \<open>ngx_http_headers_in_t\<close>: the pointers to single header lines and the arrays of repeated
  ones are maps from the name in the table, in lower case, and of a line the value is kept.\<close>

record headers_in =
  single :: "ngx_str \<Rightarrow> ngx_str option"
  multi :: "ngx_str \<Rightarrow> ngx_str list"
  server :: ngx_str
  body_length_n :: ngx_int_t
  keep_alive_n :: ngx_int_t
  connection_type :: nat
  body_chunked :: bool
  msie :: bool
  msie6 :: bool
  opera :: bool
  gecko :: bool
  chrome :: bool
  safari :: bool
  konqueror :: bool









text \<open>Whether \<open>ngx_strcasestrn\<close> or \<open>ngx_strstrn\<close> finds the string \<open>c # cs\<close> in a value.\<close>

definition found :: "nat option option \<Rightarrow> bool" where
  "found r = (\<exists>i. r = Some (Some i))"

lemma found_code [code, simp]: "found None = False" "found (Some None) = False" "found (Some (Some i)) = True"
  by (simp_all add: found_def)


definition occurs_in :: "string \<Rightarrow> ngx_str \<Rightarrow> bool" where
  "occurs_in s value = found (ngx_strstrn (value @ [0]) (chr (hd s)) (str (tl s)) (length s - 1))"


definition user_agent_msie :: "headers_in \<Rightarrow> ngx_str \<Rightarrow> headers_in" where
  "user_agent_msie hs value =
    (case ngx_strstrn (value @ [0]) (chr CHR ''M'') (str ''SIE '') 4 of
       Some (Some m) \<Rightarrow>
         if m + 7 < length value then
           let hs = hs\<lparr>msie := True\<rparr> in
           if value ! (m + 6) = chr CHR ''.'' then
             if value ! (m + 5) = chr CHR ''4'' \<or> value ! (m + 5) = chr CHR ''5'' then hs\<lparr>msie6 := True\<rparr>
             else if value ! (m + 5) = chr CHR ''6'' then
               (if occurs_in ''SV1'' (drop (m + 8) value) then hs else hs\<lparr>msie6 := True\<rparr>)
             else hs
           else hs
         else hs
     | _ \<Rightarrow> hs)"






section \<open>From the request line to the path\<close>

lemma plain_path_pair:
  assumes "plain_path (a @ c # d # b)" "c = chr CHR ''/''"
  shows "d \<noteq> chr CHR ''/'' \<and> d \<noteq> chr CHR ''.''"
  using assms
proof (induction a)
  case (Cons x a)
  then show ?case by (cases a) auto
qed simp

lemma plain_path_clean: "plain_path s \<Longrightarrow> clean_path merge s"
  unfolding clean_path_def no_segment_def using plain_path_pair by fastforce

lemma length_slice: "j \<le> length buf \<Longrightarrow> length (slice buf i j) = j - i"
  by (simp add: slice_def)

lemma before_args_slice:
  assumes "us < a" "a \<le> ue" "ue \<le> length buf" "buf ! (a - 1) = chr CHR ''?''"
  shows "before_args (slice buf us ue) \<le> a - 1 - us"
proof -
  have "slice buf us ue ! (a - 1 - us) = chr CHR ''?''" "a - 1 - us < length (slice buf us ue)"
    using assms by (simp_all add: slice_def)
  then show ?thesis unfolding before_args_def
    by (metis (mono_tags, lifting) not_le nth_length_takeWhile nth_mem set_takeWhileD takeWhile_nth)
qed

lemma path_spec_head: "path_spec merge xs = Some path \<Longrightarrow> \<exists>t. path = chr CHR ''/'' # t"
  by (auto simp: path_spec_def render_def)

lemma uri_of_strings [simp]: "uri (uri_strings buf us ue r q) = uri q"
  by (simp add: uri_strings_def Let_def split: option.split)

lemma process_uri_complex:
  assumes "uri_start r = Some us" "uri_end r = Some ue" "us < ue" "ue < length buf" "buf ! us = chr CHR ''/''"
    and "before_args (slice buf us ue) \<le> length (alloc (uri_len r us ue + 1))" "complex_uri r \<or> quoted_uri r"
  shows "\<exists>rc r' q'. ngx_http_process_request_uri merge alloc buf r q = Some (rc, r', q') \<and>
    (rc = NGX_OK \<longrightarrow> path_spec merge (slice buf us ue) = Some (uri q'))"
proof -
  obtain rc r' q' where c: "ngx_http_parse_complex_uri merge buf (alloc (uri_len r us ue + 1)) r q = Some (rc, r', q')"
    "case path_spec merge (slice buf us ue) of None \<Rightarrow> rc = NGX_HTTP_PARSE_INVALID_REQUEST
     | Some path \<Rightarrow> rc = NGX_OK \<and> uri q' = path"
    using complex_uri_ref [OF assms(1-6)] by blast
  then show ?thesis
    using assms(1,2,7) by (auto simp: ngx_http_process_request_uri_def split: option.splits)
qed

text \<open>C1: whatever a client sends as its request line, if it is accepted then the URI is processed without an
  access outside of the buffers, and if that is accepted too then the path the server goes on with starts with a slash
  and has no segment \<open>.\<close> or \<open>..\<close> in front of a slash, and no doubled slash when slashes are merged. The memory
  for the path is one byte more than the length the code computes for it.\<close>

theorem request_path_clean:
  assumes "\<forall>n. length (ngx_pnalloc n) = n" "pos b \<le> last_of b" "state r = rl_state.sw_start" "args_start r = NULL"
    and "ngx_http_parse_request_line r b = (NGX_OK, r1, b1)"
  shows "\<exists>rc r2 q2. ngx_http_process_request_uri merge_slashes ngx_pnalloc (data b) r1 q = Some (rc, r2, q2) \<and>
    (rc = NGX_OK \<longrightarrow> clean_path merge_slashes (uri q2) \<and> (\<exists>t. uri q2 = chr CHR ''/'' # t))"
proof -
  let ?buf = "data b"
  obtain us ue where u: "uri_start r1 = Some us" "uri_end r1 = Some ue" "us < ue" "ue < pos b1" "pos b1 \<le> last_of b"
      "?buf ! us = chr CHR ''/''"
    and a: "case args_start r1 of
       None \<Rightarrow> \<not> complex_uri r1 \<and> \<not> quoted_uri r1 \<longrightarrow> plain_path (slice ?buf us ue)
     | Some a \<Rightarrow> us < a \<and> a \<le> ue \<and> ?buf ! (a - 1) = chr CHR ''?'' \<and>
         (\<not> complex_uri r1 \<and> \<not> quoted_uri r1 \<longrightarrow> plain_path (slice ?buf us (a - 1)))"
    using request_line_uri [OF assms(2-5)] by blast
  have ue: "ue < length ?buf" using u by simp
  show ?thesis
  proof (cases "complex_uri r1 \<or> quoted_uri r1")
    case True
    have "before_args (slice ?buf us ue) \<le> uri_len r1 us ue + 1"
    proof (cases "args_start r1")
      case None
      have "before_args (slice ?buf us ue) \<le> length (slice ?buf us ue)" by (simp add: before_args_def length_takeWhile_le)
      with None ue show ?thesis by (simp add: uri_len_def length_slice)
    next
      case (Some e)
      with before_args_slice [of us e ue ?buf] a ue show ?thesis by (simp add: uri_len_def)
    qed
    then have "before_args (slice ?buf us ue) \<le> length (ngx_pnalloc (uri_len r1 us ue + 1))" using assms(1) by simp
    from process_uri_complex [where alloc = ngx_pnalloc and merge = merge_slashes and q = q, OF u(1-3) ue u(6) this True] show ?thesis
      using path_spec_clean path_spec_head by metis
  next
    case False
    let ?path = "slice ?buf us (us + uri_len r1 us ue)"
    have plain: "plain_path ?path"
      using a False u(3) by (cases "args_start r1") (auto simp: uri_len_def)
    have "0 < uri_len r1 us ue"
    proof (cases "args_start r1")
      case (Some e)
      with a u(6) have "us < e" "e - 1 \<noteq> us" by auto
      with Some show ?thesis by (simp add: uri_len_def)
    qed (use u(3) in \<open>simp add: uri_len_def\<close>)
    moreover have "us + uri_len r1 us ue \<le> length ?buf"
      using a u(3) ue by (cases "args_start r1") (auto simp: uri_len_def)
    ultimately have "?path = chr CHR ''/'' # slice ?buf (Suc us) (us + uri_len r1 us ue)"
      using slice_Cons [of us "us + uri_len r1 us ue" ?buf] u(6) by simp
    then show ?thesis
      using u(1,2) False plain_path_clean [OF plain] by (simp add: ngx_http_process_request_uri_def)
  qed
qed

theorem request_path_clean_witness:
  "\<exists>r1 b1 rc r2 q2. ngx_http_parse_request_line (fresh_request rl_state.sw_start)
      \<lparr>data = str ''GET /a/%2e%2e/b?c HTTP/1.0'' @ [CR, LF], pos = 0\<rparr> = (NGX_OK, r1, b1) \<and>
    ngx_http_process_request_uri True (\<lambda>n. replicate n 0) (str ''GET /a/%2e%2e/b?c HTTP/1.0'' @ [CR, LF]) r1
      \<lparr>uri = [], exten = [], args = [], unparsed_uri = [], valid_unparsed_uri = False\<rparr> = Some (rc, r2, q2) \<and>
    (rc = NGX_OK \<longrightarrow> clean_path True (uri q2))"
proof -
  let ?b = "\<lparr>data = str ''GET /a/%2e%2e/b?c HTTP/1.0'' @ [CR, LF], pos = 0\<rparr>"
  obtain r1 b1 where a: "ngx_http_parse_request_line (fresh_request rl_state.sw_start) ?b = (NGX_OK, r1, b1)"
    by (simp add: rl_eval rl_done_def ngx_strXcmp_def rl_method_def slice_def)
  from request_path_clean [of "\<lambda>n. replicate n 0", OF _ _ _ _ a, of True] a show ?thesis
    by (fastforce simp: fresh_request_def)
qed

text \<open>An escape cut short by the end of the URI is dropped, and a final \<open>..\<close> is left alone.\<close>

lemma complex_uri_lenient:
  "\<exists>r' q'. ngx_http_parse_complex_uri True (str ''/a%4 '') (replicate 5 0)
     ((fresh_request ())\<lparr>uri_start := Some 0, uri_end := Some 4\<rparr>) q = Some (NGX_OK, r', q') \<and> uri q' = str ''/a''"
  "\<exists>r' q'. ngx_http_parse_complex_uri True (str ''/a/.. '') (replicate 6 0)
     ((fresh_request ())\<lparr>uri_start := Some 0, uri_end := Some 5\<rparr>) q = Some (NGX_OK, r', q') \<and> uri q' = str ''/a/..''"
  using complex_uri_ref [of "(fresh_request ())\<lparr>uri_start := Some 0, uri_end := Some 4\<rparr>" 0 4 "str ''/a%4 ''" "replicate 5 0" True q]
    complex_uri_ref [of "(fresh_request ())\<lparr>uri_start := Some 0, uri_end := Some 5\<rparr>" 0 5 "str ''/a/.. ''" "replicate 6 0" True q]
  by (auto simp: slice_def before_args_def path_spec_def hexd_def is_digit_def render_def)

section \<open>Valid hosts\<close>

primrec no_dots :: "bool \<Rightarrow> ngx_str \<Rightarrow> bool" where
  "no_dots after_dot [] = True"
| "no_dots after_dot (c # cs) = (\<not> (after_dot \<and> c = chr CHR ''.'') \<and> no_dots (c = chr CHR ''.'') cs)"

definition upper :: "u_char \<Rightarrow> bool" where
  "upper c = (chr CHR ''A'' \<le> c \<and> c \<le> chr CHR ''Z'')"

lemma vh_loop_Cons:
  assumes "vh_loop (c # cs) i (d, n, st, al) = Some res"
  shows "\<exists>m s. vh_loop cs (Suc i) (if c = chr CHR ''.'' then i else d, m, s, al \<or> upper c) = Some res \<and>
    c \<noteq> 0 \<and> c \<noteq> chr CHR ''/'' \<and> \<not> (c = chr CHR ''.'' \<and> Suc d = i) \<and> (m = n \<or> m \<le> Suc i)"
proof -
  consider "c = chr CHR ''.''" | "c = chr CHR '':''" | "c = chr CHR ''[''" | "c = chr CHR '']''"
    | "c \<notin> set (str ''.:[]'')" by auto
  then show ?thesis
  proof cases
    case 1
    with assms show ?thesis by (auto simp: upper_def split: if_splits)
  next
    case 2
    with assms show ?thesis by (auto simp: upper_def split: if_splits)
  next
    case 3
    with assms show ?thesis by (auto simp: upper_def split: if_splits)
  next
    case 4
    with assms show ?thesis by (auto simp: upper_def split: if_splits)
  next
    case 5
    with assms show ?thesis by (intro exI [of _ n] exI [of _ st]) (auto simp: upper_def split: if_splits)
  qed
qed

lemma vh_loop_ok:
  assumes "vh_loop cs i (d, n, st, al) = Some (d', n', st', al')" "d < i \<or> i + length cs \<le> d"
  shows "0 \<notin> set cs \<and> chr CHR ''/'' \<notin> set cs \<and> no_dots (Suc d = i) cs \<and> (al' \<longleftrightarrow> al \<or> (\<exists>c \<in> set cs. upper c)) \<and>
    (n' = n \<or> n' \<le> i + length cs)"
  using assms
proof (induction cs arbitrary: i d n st al)
  case (Cons c cs)
  let ?d = "if c = chr CHR ''.'' then i else d"
  obtain m s where v: "vh_loop cs (Suc i) (?d, m, s, al \<or> upper c) = Some (d', n', st', al')"
    and c: "c \<noteq> 0" "c \<noteq> chr CHR ''/''" "\<not> (c = chr CHR ''.'' \<and> Suc d = i)" "m = n \<or> m \<le> Suc i"
    using vh_loop_Cons [OF Cons.prems(1)] by blast
  have "Suc ?d = Suc i \<longleftrightarrow> c = chr CHR ''.''" using Cons.prems(2) by auto
  with Cons.IH [OF v] Cons.prems(2) c show ?case by (auto simp del: vh_loop.simps)
qed auto

lemma no_dots_append: "no_dots p (xs @ ys) \<Longrightarrow> no_dots p xs"
  by (induction xs arbitrary: p) auto

lemma no_dots_pair: "no_dots p (a @ chr CHR ''.'' # chr CHR ''.'' # b) \<Longrightarrow> False"
  by (induction a arbitrary: p) auto

lemma tolower_not_upper: "\<not> upper c \<longrightarrow> ngx_tolower c = c"
  by (rule byte_ballI [where c = c]) (simp add: upper_def ngx_tolower_def)

lemma upper_tolower: "\<not> upper (ngx_tolower c) \<and> (ngx_tolower c = 0 \<longleftrightarrow> c = 0) \<and>
    (ngx_tolower c = chr CHR ''/'' \<longleftrightarrow> c = chr CHR ''/'') \<and> (ngx_tolower c = chr CHR ''.'' \<longleftrightarrow> c = chr CHR ''.'')"
  by (rule byte_ballI [where c = c]) (simp add: upper_def ngx_tolower_def)

text \<open>C15: a host that \<open>ngx_http_validate_host\<close> accepts is not empty, is in lower case, and is made of a prefix of
  the host given: it has no zero byte, no slash and no two dots in a row.\<close>

theorem validate_host_accepts:
  assumes "ngx_http_validate_host host alloc = (NGX_OK, h)"
  shows "h \<noteq> [] \<and> (\<exists>n. h = ngx_strlow (take n host)) \<and> \<not> (\<exists>c \<in> set h. upper c) \<and> 0 \<notin> set h \<and> chr CHR ''/'' \<notin> set h \<and>
    (\<nexists>a b. h = a @ str ''..'' @ b)"
proof -
  obtain d n st al where v: "vh_loop host 0 (length host, length host, sw_usual, alloc) = Some (d, n, st, al)"
    using assms by (auto simp: ngx_http_validate_host_def split: option.splits prod.splits)
  define k where "k = (if Suc d = n then n - 1 else n)"
  have h: "k \<noteq> 0" "h = (if al then ngx_strlow (take k host) else take k host)"
    using assms by (auto simp: ngx_http_validate_host_def v k_def Let_def split: if_splits)
  have ok: "0 \<notin> set host" "chr CHR ''/'' \<notin> set host" "no_dots False host" "al \<longleftrightarrow> alloc \<or> (\<exists>c \<in> set host. upper c)"
    using vh_loop_ok [OF v] by auto
  have low: "h = map ngx_tolower (take k host)"
  proof (cases al)
    case False
    then have "map ngx_tolower (take k host) = map (\<lambda>c. c) (take k host)"
      using ok(4) tolower_not_upper by (intro map_cong) (auto dest: in_set_takeD)
    with False h show ?thesis by simp
  qed (use h in \<open>simp add: ngx_strlow_eq_map\<close>)
  have "host \<noteq> []" using v h(1) by (auto simp: k_def split: if_splits)
  then have "h \<noteq> []" using low h(1) by simp
  moreover have "\<not> (\<exists>c \<in> set h. upper c) \<and> 0 \<notin> set h \<and> chr CHR ''/'' \<notin> set h"
    using low ok(1,2) upper_tolower by (auto dest!: in_set_takeD)
  moreover have "\<nexists>a b. h = a @ str ''..'' @ b"
  proof
    assume "\<exists>a b. h = a @ str ''..'' @ b"
    then obtain a b where "h = a @ str ''..'' @ b" by blast
    then obtain a' c e b' where t: "take k host = a' @ c # e # b'" "ngx_tolower c = chr CHR ''.''" "ngx_tolower e = chr CHR ''.''"
      unfolding low by (auto simp: map_eq_append_conv map_eq_Cons_conv)
    then have "c = chr CHR ''.''" "e = chr CHR ''.''" using upper_tolower by simp_all
    moreover have "no_dots False (take k host)"
      using no_dots_append [of False "take k host" "drop k host"] ok(3) unfolding append_take_drop_id by blast
    ultimately show False using t(1) no_dots_pair [of False a' b'] by simp
  qed
  ultimately show ?thesis using low by (auto simp: ngx_strlow_eq_map)
qed

theorem validate_host_accepts_witness:
  "ngx_http_validate_host (str ''WWW.Example.org.:80'') False = (NGX_OK, str ''www.example.org'') \<and>
    str ''www.example.org'' \<noteq> []"
proof -
  have "ngx_http_validate_host (str ''WWW.Example.org.:80'') False = (NGX_OK, str ''www.example.org'')"
    by (simp add: ngx_http_validate_host_def ngx_tolower_def)
  with validate_host_accepts [OF this] show ?thesis by blast
qed

section \<open>The framing of the request body\<close>



lemma msie_keeps [simp]: "single (user_agent_msie hs v) = single hs"
    "body_length_n (user_agent_msie hs v) = body_length_n hs" "body_chunked (user_agent_msie hs v) = body_chunked hs"
  by (simp_all add: user_agent_msie_def Let_def split: option.split)
















end
