(* ===== verification/Ldb_Coding.thy ===== *)
theory Ldb_Coding
  imports Prelude
begin

text \<open>
  The encodings of numbers and strings of \<^verbatim>\<open>src/leveldb-1.12.0/util/coding.cc\<close> and \<^verbatim>\<open>coding.h\<close>. A \<open>Slice\<close> is the list of its
  bytes. A function that writes to a buffer yields the bytes it writes, and one that reads from \<open>p\<close> up to
  \<open>limit\<close> or from a \<open>Slice\<close> takes the bytes there and yields the value with the bytes behind it, or \<open>None\<close> where the code
  returns \<open>NULL\<close> or \<open>false\<close>.
\<close>

type_synonym slice = "u_char list"

section \<open>Numbers of fixed size\<close>

definition EncodeFixed32 :: "uint32 \<Rightarrow> slice" where
  "EncodeFixed32 value =
    [ucast (value AND 0xff), ucast (drop_bit 8 value AND 0xff), ucast (drop_bit 16 value AND 0xff),
     ucast (drop_bit 24 value AND 0xff)]"

definition EncodeFixed64 :: "uint64 \<Rightarrow> slice" where
  "EncodeFixed64 value =
    [ucast (value AND 0xff), ucast (drop_bit 8 value AND 0xff), ucast (drop_bit 16 value AND 0xff),
     ucast (drop_bit 24 value AND 0xff), ucast (drop_bit 32 value AND 0xff), ucast (drop_bit 40 value AND 0xff),
     ucast (drop_bit 48 value AND 0xff), ucast (drop_bit 56 value AND 0xff)]"

definition PutFixed32 :: "slice \<Rightarrow> uint32 \<Rightarrow> slice" where
  "PutFixed32 dst value = dst @ EncodeFixed32 value"

definition PutFixed64 :: "slice \<Rightarrow> uint64 \<Rightarrow> slice" where
  "PutFixed64 dst value = dst @ EncodeFixed64 value"

text \<open>The decoders do not know how many bytes there are: the bytes are there, or the result is not specified.\<close>

definition DecodeFixed32 :: "slice \<Rightarrow> uint32" where
  "DecodeFixed32 p =
    ucast (p ! 0) OR push_bit 8 (ucast (p ! 1)) OR push_bit 16 (ucast (p ! 2)) OR push_bit 24 (ucast (p ! 3))"

definition DecodeFixed64 :: "slice \<Rightarrow> uint64" where
  "DecodeFixed64 p =
    (let lo = ucast (DecodeFixed32 p); hi = ucast (DecodeFixed32 (drop 4 p)) in push_bit 32 hi OR lo)"

section \<open>Numbers of variable size\<close>

definition EncodeVarint32 :: "uint32 \<Rightarrow> slice" where
  "EncodeVarint32 v =
    (if v < 2 ^ 7 then [ucast v]
     else if v < 2 ^ 14 then [ucast (v OR 128), ucast (drop_bit 7 v)]
     else if v < 2 ^ 21 then [ucast (v OR 128), ucast (drop_bit 7 v OR 128), ucast (drop_bit 14 v)]
     else if v < 2 ^ 28 then
       [ucast (v OR 128), ucast (drop_bit 7 v OR 128), ucast (drop_bit 14 v OR 128), ucast (drop_bit 21 v)]
     else
       [ucast (v OR 128), ucast (drop_bit 7 v OR 128), ucast (drop_bit 14 v OR 128), ucast (drop_bit 21 v OR 128),
        ucast (drop_bit 28 v)])"

definition PutVarint32 :: "slice \<Rightarrow> uint32 \<Rightarrow> slice" where
  "PutVarint32 dst v = dst @ EncodeVarint32 v"

lemma drop_bit_7_less: "(128 :: uint64) \<le> v \<Longrightarrow> unat (drop_bit 7 v) < unat v"
  by (simp add: drop_bit_eq_div word_le_nat_alt unat_div)

function EncodeVarint64 :: "uint64 \<Rightarrow> slice" where
  "EncodeVarint64 v = (if v \<ge> 128 then ucast (v AND 127 OR 128) # EncodeVarint64 (drop_bit 7 v) else [ucast v])"
  by auto
termination by (relation "measure unat") (simp_all add: drop_bit_7_less)

definition PutVarint64 :: "slice \<Rightarrow> uint64 \<Rightarrow> slice" where
  "PutVarint64 dst v = dst @ EncodeVarint64 v"

function VarintLength :: "uint64 \<Rightarrow> nat" where
  "VarintLength v = (if v \<ge> 128 then Suc (VarintLength (drop_bit 7 v)) else 1)"
  by auto
termination by (relation "measure unat") (simp_all add: drop_bit_7_less)

declare EncodeVarint64.simps [simp del] VarintLength.simps [simp del]

text \<open>The loops that decode, with the shift and the result so far.\<close>

fun varint32_loop :: "slice \<Rightarrow> nat \<Rightarrow> uint32 \<Rightarrow> (uint32 \<times> slice) option" where
  "varint32_loop [] shift result = None"
| "varint32_loop (byte # p) shift result =
    (if shift \<le> 28 then
       if byte AND 128 \<noteq> 0 then varint32_loop p (shift + 7) (result OR push_bit shift (ucast byte AND 127))
       else Some (result OR push_bit shift (ucast byte), p)
     else None)"

definition GetVarint32PtrFallback :: "slice \<Rightarrow> (uint32 \<times> slice) option" where
  "GetVarint32PtrFallback p = varint32_loop p 0 0"

definition GetVarint32Ptr :: "slice \<Rightarrow> (uint32 \<times> slice) option" where
  "GetVarint32Ptr p =
    (case p of
       byte # q \<Rightarrow> if byte AND 128 = 0 then Some (ucast byte, q) else GetVarint32PtrFallback p
     | [] \<Rightarrow> GetVarint32PtrFallback p)"

definition GetVarint32 :: "slice \<Rightarrow> (uint32 \<times> slice) option" where
  "GetVarint32 input = GetVarint32Ptr input"

fun varint64_loop :: "slice \<Rightarrow> nat \<Rightarrow> uint64 \<Rightarrow> (uint64 \<times> slice) option" where
  "varint64_loop [] shift result = None"
| "varint64_loop (byte # p) shift result =
    (if shift \<le> 63 then
       if byte AND 128 \<noteq> 0 then varint64_loop p (shift + 7) (result OR push_bit shift (ucast byte AND 127))
       else Some (result OR push_bit shift (ucast byte), p)
     else None)"

definition GetVarint64Ptr :: "slice \<Rightarrow> (uint64 \<times> slice) option" where
  "GetVarint64Ptr p = varint64_loop p 0 0"

definition GetVarint64 :: "slice \<Rightarrow> (uint64 \<times> slice) option" where
  "GetVarint64 input = GetVarint64Ptr input"

section \<open>Strings with their length\<close>

text \<open>The length is cut to 32 bits when it is written.\<close>

definition PutLengthPrefixedSlice :: "slice \<Rightarrow> slice \<Rightarrow> slice" where
  "PutLengthPrefixedSlice dst value = PutVarint32 dst (word_of_nat (length value)) @ value"

definition GetLengthPrefixedSlice :: "slice \<Rightarrow> (slice \<times> slice) option" where
  "GetLengthPrefixedSlice input =
    (case GetVarint32 input of
       None \<Rightarrow> None
     | Some (len, input) \<Rightarrow> if length input \<ge> unat len then Some (take (unat len) input, drop (unat len) input) else None)"

section \<open>Round trips\<close>

lemma and_255: "(v :: 'a::len word) AND 255 = take_bit 8 v"
  by (simp add: take_bit_eq_mask mask_eq_exp_minus_1)

lemma and_127: "(v :: 'a::len word) AND 127 = take_bit 7 v"
  by (simp add: take_bit_eq_mask mask_eq_exp_minus_1)

lemma Fixed32_nth: "EncodeFixed32 v = [ucast v, ucast (drop_bit 8 v), ucast (drop_bit 16 v), ucast (drop_bit 24 v)]"
  unfolding EncodeFixed32_def and_255 by (auto intro!: bit_word_eqI simp: bit_simps)

lemma DecodeFixed32_Encode: "DecodeFixed32 (EncodeFixed32 v @ rest) = v"
proof (rule bit_word_eqI)
  fix n
  assume "n < LENGTH(32)"
  consider "n < 8" | "8 \<le> n" "n < 16" | "16 \<le> n" "n < 24" | "24 \<le> n" by linarith
  then show "bit (DecodeFixed32 (EncodeFixed32 v @ rest)) n = bit v n"
    by cases (use \<open>n < LENGTH(32)\<close> in \<open>auto simp: DecodeFixed32_def Fixed32_nth bit_simps numeral_2_eq_2 numeral_3_eq_3\<close>)
qed

lemma bit_128: "bit (128 :: int) n \<longleftrightarrow> n = 7"
proof -
  have e: "(128 :: int) = push_bit 7 1" by (simp add: push_bit_eq_mult)
  show ?thesis unfolding e by (auto simp only: bit_push_bit_iff bit_1_iff possible_bit_int)
qed

lemma and_128: "(v :: u_char) AND 128 = 0 \<longleftrightarrow> \<not> bit v 7"
  using and_exp_eq_0_iff_not_bit [of v 7] by simp

lemma join_bits: "push_bit shift (v AND 127) OR push_bit (shift + 7) (drop_bit 7 v) = push_bit shift (v :: 'a::len word)"
  unfolding and_127
proof (rule bit_word_eqI)
  fix n
  show "bit (push_bit shift (take_bit 7 v) OR push_bit (shift + 7) (drop_bit 7 v)) n = bit (push_bit shift v) n"
    by (cases "shift + 7 \<le> n") (auto simp: bit_simps)
qed

lemma varint_byte [simp]: "(ucast (v AND 127 OR 128 :: uint64) :: u_char) AND 128 \<noteq> 0"
  by (simp add: and_128 bit_simps bit_128)

lemma varint_byte_low:
  assumes "LENGTH('a) \<ge> 8"
  shows "(ucast (ucast (v AND 127 OR 128 :: uint64) :: u_char) AND 127 :: 'a::len word) = ucast v AND 127"
  unfolding and_127 by (rule bit_word_eqI) (auto simp: bit_simps bit_128)

lemma varint_last: "(v :: uint64) < 128 \<Longrightarrow> (ucast v :: u_char) AND 128 = 0 \<and> ucast (ucast v :: u_char) = (ucast v :: 'a::len word)"
proof -
  assume "v < 128"
  then have "take_bit 7 v = v" by (simp add: word_unat_eq_iff unsigned_take_bit_eq take_bit_nat_eq_self word_less_nat_alt)
  then have v: "bit v n \<longleftrightarrow> bit v n \<and> n < 7" for n by (metis bit_take_bit_iff)
  have 8: "bit v n \<Longrightarrow> n < 8" for n using v [of n] by linarith
  show ?thesis unfolding and_128 using v [of 7] by (auto intro!: bit_word_eqI simp: bit_simps dest: 8)
qed

text \<open>Both encoders write groups of seven bits, the lowest first.\<close>

lemma varint32_byte: "(ucast (v OR 128 :: uint32) :: u_char) = ucast (ucast v AND 127 OR 128 :: uint64)"
proof -
  have "n < 7 \<or> n = 7" if "n < LENGTH(8)" for n using that by auto
  then show ?thesis unfolding and_127 by (intro bit_word_eqI) (auto simp: bit_simps bit_128)
qed

lemma EncodeVarint32_eq: "EncodeVarint32 v = EncodeVarint64 (ucast v)"
proof -
  let ?w = "ucast v :: uint64"
  have d: "drop_bit k (ucast x :: uint64) = ucast (drop_bit k x)" for k and x :: uint32
    by (rule bit_word_eqI) (auto simp: bit_simps dest: bit_imp_le_length)
  have c: "ucast (ucast x :: uint64) = (ucast x :: u_char)" for x :: uint32
    by (rule bit_word_eqI) (auto simp: bit_simps)
  have le: "128 \<le> (ucast (drop_bit k v) :: uint64) \<longleftrightarrow> 2 ^ (k + 7) \<le> unat v" for k
  proof -
    have u: "unat (ucast x :: uint64) = unat x" for x :: uint32
      using unsigned_less [of x, where 'a = nat] by (simp add: unsigned_ucast_eq take_bit_nat_eq_self)
    have "unat (ucast (drop_bit k v) :: uint64) = drop_bit k (unat v)"
      unfolding u by (rule unat_drop_bit_eq)
    then have "unat (ucast (drop_bit k v) :: uint64) = unat v div 2 ^ k" by (simp only: drop_bit_eq_div)
    then show ?thesis by (simp add: word_le_nat_alt less_eq_div_iff_mult_less_eq power_add mult.commute)
  qed
  have "unat v < 2 ^ 35" using unsigned_less [of v, where 'a = nat] by simp
  then show ?thesis
    using le [of 0] le [of 7] le [of 14] le [of 21] le [of 28] 
    by (simp add: EncodeVarint32_def EncodeVarint64.simps [of "ucast v :: uint64"]
        EncodeVarint64.simps [of "ucast (drop_bit 7 v) :: uint64"] EncodeVarint64.simps [of "ucast (drop_bit 14 v) :: uint64"]
        EncodeVarint64.simps [of "ucast (drop_bit 21 v) :: uint64"] EncodeVarint64.simps [of "ucast (drop_bit 28 v) :: uint64"]
        d c varint32_byte word_less_nat_alt)
qed

lemma shift_room:
  assumes "(128 :: uint64) \<le> v" "unat v < 2 ^ (n - shift)"
  shows "7 < n - shift \<and> unat (drop_bit 7 v) < 2 ^ (n - (shift + 7))"
proof -
  have "(2::nat) ^ 7 < 2 ^ (n - shift)" using assms by (simp add: word_le_nat_alt)
  then have "7 < n - shift" by (rule power_less_imp_less_exp [rotated]) simp
  moreover from this have "(2::nat) ^ (n - shift) = 2 ^ (n - (shift + 7)) * 128"
    using power_add [of "2::nat" "n - (shift + 7)" 7] by simp
  ultimately show ?thesis
    using assms(2) by (simp add: drop_bit_eq_div unat_div less_mult_imp_div_less)
qed

lemma varint64_loop_Encode:
  assumes "unat v < 2 ^ (64 - shift)" "shift \<le> 63"
  shows "varint64_loop (EncodeVarint64 v @ rest) shift r = Some (r OR push_bit shift v, rest)"
  using assms
proof (induction v arbitrary: shift r rule: EncodeVarint64.induct)
  case (1 v)
  show ?case
  proof (cases "v \<ge> 128")
    case True
    with 1(2) have "shift \<le> 56" "unat (drop_bit 7 v) < 2 ^ (64 - (shift + 7))" using shift_room by fastforce+
    with True 1(1) [OF True, of "shift + 7" "r OR push_bit shift (v AND 127)"] join_bits [of shift v]
    show ?thesis by (simp add: EncodeVarint64.simps [of v] varint_byte_low or.assoc)
  next
    case False
    then show ?thesis using 1(3) varint_last [of v, where 'a = 64] by (simp add: EncodeVarint64.simps [of v])
  qed
qed

lemma varint32_loop_Encode:
  assumes "unat v < 2 ^ (32 - shift)" "shift \<in> {0, 7, 14, 21, 28}"
  shows "varint32_loop (EncodeVarint64 v @ rest) shift r = Some (r OR push_bit shift (ucast v), rest)"
  using assms
proof (induction v arbitrary: shift r rule: EncodeVarint64.induct)
  case (1 v)
  show ?case
  proof (cases "v \<ge> 128")
    case True
    have "(2 :: nat) ^ (32 - shift) \<le> 2 ^ 32" by (rule power_increasing) simp_all
    with 1(2) have "take_bit 32 v = v"
      by (simp add: word_unat_eq_iff unsigned_take_bit_eq take_bit_nat_eq_self)
    then have "bit v (7 + n) \<Longrightarrow> n < 25" for n using bit_take_bit_iff [of 32 v "7 + n"] by simp
    then have d: "ucast (drop_bit 7 v) = drop_bit 7 (ucast v :: uint32)"
      by (intro bit_word_eqI) (auto simp: bit_simps)
    have "shift + 7 \<in> {0, 7, 14, 21, 28}" "unat (drop_bit 7 v) < 2 ^ (32 - (shift + 7))" "shift \<le> 28"
      using 1(3) shift_room [OF True 1(2)] by auto
    with 1(1) [OF True this(2,1), of "r OR push_bit shift (ucast v AND 127)"]
      join_bits [of shift "ucast v :: uint32"] True d
    show ?thesis by (simp add: EncodeVarint64.simps [of v] varint_byte_low or.assoc)
  next
    case False
    have "shift \<le> 28" using 1(3) by auto
    with False show ?thesis using varint_last [of v, where 'a = 32] by (simp add: EncodeVarint64.simps [of v])
  qed
qed

lemma Fixed64_bytes: "EncodeFixed64 v = EncodeFixed32 (ucast v) @ EncodeFixed32 (ucast (drop_bit 32 v))"
  unfolding EncodeFixed64_def and_255 Fixed32_nth by (auto intro!: bit_word_eqI simp: bit_simps)

lemma DecodeFixed64_Encode: "DecodeFixed64 (EncodeFixed64 v @ rest) = v"
proof -
  let ?lo = "ucast v :: uint32" and ?hi = "ucast (drop_bit 32 v) :: uint32"
  have d: "drop 4 (EncodeFixed64 v @ rest) = EncodeFixed32 ?hi @ rest" by (simp add: Fixed64_bytes EncodeFixed32_def)
  have "DecodeFixed64 (EncodeFixed64 v @ rest) = push_bit 32 (ucast ?hi) OR ucast ?lo"
    unfolding DecodeFixed64_def d DecodeFixed32_Encode unfolding Fixed64_bytes append_assoc DecodeFixed32_Encode by simp
  also have "\<dots> = v"
  proof (rule bit_word_eqI)
    fix n
    assume "n < LENGTH(64)"
    then show "bit (push_bit 32 (ucast ?hi) OR ucast ?lo :: uint64) n = bit v n"
      by (cases "n < 32") (auto simp: bit_simps)
  qed
  finally show ?thesis .
qed

lemma GetVarint32_loop: "GetVarint32 p = varint32_loop p 0 0"
  by (cases p) (simp_all add: GetVarint32_def GetVarint32Ptr_def GetVarint32PtrFallback_def)

lemma GetVarint32_Encode [simp]: "GetVarint32 (EncodeVarint32 v @ rest) = Some (v, rest)"
proof -
  have "unat (ucast v :: uint64) < 2 ^ 32"
    using unsigned_less [of v, where 'a = nat] by (simp add: unsigned_ucast_eq take_bit_nat_eq_self)
  moreover have "ucast (ucast v :: uint64) = v" by (rule bit_word_eqI) (auto simp: bit_simps)
  ultimately show ?thesis
    using varint32_loop_Encode [of "ucast v" 0 rest 0] by (simp add: GetVarint32_loop EncodeVarint32_eq)
qed

lemma GetVarint64_Encode [simp]: "GetVarint64 (EncodeVarint64 v @ rest) = Some (v, rest)"
  using varint64_loop_Encode [of v 0 rest 0] unsigned_less [of v, where 'a = nat]
  by (simp add: GetVarint64_def GetVarint64Ptr_def)

lemma length_EncodeVarint64: "length (EncodeVarint64 v) = VarintLength v"
  by (induction v rule: EncodeVarint64.induct)
    (simp add: EncodeVarint64.simps [of v for v] VarintLength.simps [of v for v])

lemma VarintLength_le: "unat v < 128 ^ Suc k \<Longrightarrow> VarintLength v \<le> Suc k"
proof (induction k arbitrary: v)
  case 0
  then show ?case by (simp add: VarintLength.simps [of v] word_le_nat_alt)
next
  case (Suc k)
  have "unat (drop_bit 7 v) < 128 ^ Suc k"
    using Suc.prems by (simp add: drop_bit_eq_div unat_div less_mult_imp_div_less mult.commute)
  with Suc.IH show ?case by (subst VarintLength.simps) simp
qed

text \<open>C24: what is encoded is decoded again and nothing behind it is touched, for numbers of fixed and of variable
  size. \<open>VarintLength\<close> is the length of an encoding, which fits into the buffers of 5 and 10 bytes of
  \<open>PutVarint32\<close> and \<open>PutVarint64\<close>.\<close>

theorem coding_roundtrip:
  "DecodeFixed32 (EncodeFixed32 a @ rest) = a \<and> DecodeFixed64 (EncodeFixed64 b @ rest) = b \<and>
   GetVarint32 (EncodeVarint32 a @ rest) = Some (a, rest) \<and> GetVarint64 (EncodeVarint64 b @ rest) = Some (b, rest) \<and>
   length (EncodeVarint32 a) = VarintLength (ucast a) \<and> length (EncodeVarint64 b) = VarintLength b \<and>
   length (EncodeVarint32 a) \<le> 5 \<and> length (EncodeVarint64 b) \<le> 10"
proof -
  have "unat (ucast a :: uint64) < 128 ^ Suc 4"
    using unsigned_less [of a, where 'a = nat] by (simp add: unsigned_ucast_eq take_bit_nat_eq_self)
  moreover have "unat b < 128 ^ Suc 9" using unsigned_less [of b, where 'a = nat] by simp
  ultimately have "VarintLength (ucast a) \<le> 5" "VarintLength b \<le> 10"
    using VarintLength_le [of "ucast a" 4] VarintLength_le [of b 9] by simp_all
  then show ?thesis
    using DecodeFixed32_Encode DecodeFixed64_Encode GetVarint32_Encode GetVarint64_Encode
    unfolding EncodeVarint32_eq length_EncodeVarint64 by blast
qed

lemma PutLengthPrefixedSlice_append: "PutLengthPrefixedSlice dst value = dst @ PutLengthPrefixedSlice [] value"
  by (simp add: PutLengthPrefixedSlice_def PutVarint32_def)

lemma GetLengthPrefixedSlice_Put [simp]:
  "length value < 2 ^ 32 \<Longrightarrow> GetLengthPrefixedSlice (PutLengthPrefixedSlice [] value @ rest) = Some (value, rest)"
  by (simp add: GetLengthPrefixedSlice_def PutLengthPrefixedSlice_def PutVarint32_def unat_of_nat)

end
