(* ===== verification/Ldb_File.thy ===== *)
theory Ldb_File
  imports Prelude
begin

text \<open>
  Files. The interfaces \<open>WritableFile\<close> and \<open>SequentialFile\<close> of \<^verbatim>\<open>src/leveldb-1.12.0/include/leveldb/env.h\<close> are locales, and the
  files in memory of \<^verbatim>\<open>src/leveldb-1.12.0/helpers/memenv/memenv.cc\<close> are an interpretation of them. Lengths and offsets are
  natural numbers: a file is shorter than the memory that holds it.
\<close>

section \<open>Status\<close>

text \<open>A \<open>Status\<close> with its message.\<close>

datatype Status = OK | NotFound string | Corruption string | NotSupported string | InvalidArgument string | IOError string

abbreviation is_ok :: "Status \<Rightarrow> bool" where
  "is_ok s \<equiv> s = OK"

section \<open>The interfaces\<close>

text \<open>What a writer relies on: an append that succeeds adds the data at the end, and flushing leaves the contents alone.\<close>

locale writable_file =
  fixes append_file :: "'w \<Rightarrow> u_char list \<Rightarrow> Status \<times> 'w"
    and flush_file :: "'w \<Rightarrow> Status \<times> 'w"
    and contents :: "'w \<Rightarrow> u_char list"
    and writable :: "'w \<Rightarrow> bool"
  assumes append_contents: "writable w \<Longrightarrow> append_file w data = (OK, w') \<Longrightarrow> writable w' \<and> contents w' = contents w @ data"
    and flush_contents: "writable w \<Longrightarrow> flush_file w = (s, w') \<Longrightarrow> writable w' \<and> contents w' = contents w"

text \<open>What a reader relies on: a read yields the bytes that follow, as many as asked for unless the file ends.\<close>

locale sequential_file =
  fixes read_file :: "'r \<Rightarrow> nat \<Rightarrow> Status \<times> u_char list \<times> 'r"
    and skip_file :: "'r \<Rightarrow> nat \<Rightarrow> Status \<times> 'r"
    and remaining :: "'r \<Rightarrow> u_char list"
    and opened :: "'r \<Rightarrow> bool"
  assumes read_remaining: "opened r \<Longrightarrow> \<exists>r'. read_file r n = (OK, take n (remaining r), r') \<and> opened r' \<and>
      remaining r' = drop n (remaining r)"
    and skip_remaining: "opened r \<Longrightarrow> \<exists>r'. skip_file r n = (OK, r') \<and> opened r' \<and> remaining r' = drop n (remaining r)"

section \<open>Files in memory\<close>

abbreviation kFileBlockSize :: nat where
  "kFileBlockSize \<equiv> 8 * 1024"

text \<open>A block is the list of the bytes that have been written to it.\<close>

record FileState =
  file_blocks :: "u_char list list"
  file_size :: nat

definition FileState_new :: FileState where
  "FileState_new = \<lparr>file_blocks = [], file_size = 0\<rparr>"

text \<open>The loop of \<open>FileState::Append\<close>.\<close>

function FileState_Append :: "FileState \<Rightarrow> u_char list \<Rightarrow> FileState" where
  "FileState_Append f src =
    (if src = [] then f
     else
       let offset = file_size f mod kFileBlockSize;
           bs = (if offset \<noteq> 0 then file_blocks f else file_blocks f @ [[]]);
           avail = min (if offset \<noteq> 0 then kFileBlockSize - offset else kFileBlockSize) (length src)
       in FileState_Append
            \<lparr>file_blocks = butlast bs @ [take offset (last bs) @ take avail src], file_size = file_size f + avail\<rparr>
            (drop avail src))"
  by auto
termination by (relation "measure (\<lambda>(_, src). length src)") (auto simp: Let_def)

declare FileState_Append.simps [simp del]

text \<open>The loop of \<open>FileState::Read\<close> that copies from block to block.\<close>

function read_blocks :: "u_char list list \<Rightarrow> nat \<Rightarrow> nat \<Rightarrow> nat \<Rightarrow> u_char list" where
  "read_blocks blocks block block_offset bytes_to_copy =
    (if bytes_to_copy > 0 \<and> block_offset < kFileBlockSize then
       let avail = min (kFileBlockSize - block_offset) bytes_to_copy in
       take avail (drop block_offset (blocks ! block)) @ read_blocks blocks (Suc block) 0 (bytes_to_copy - avail)
     else [])"
  by auto
termination by (relation "measure (\<lambda>(_, _, _, n). n)") (auto simp: Let_def)

declare read_blocks.simps [simp del]

definition FileState_Read :: "FileState \<Rightarrow> nat \<Rightarrow> nat \<Rightarrow> Status \<times> u_char list" where
  "FileState_Read f offset n =
    (if offset > file_size f then (IOError ''Offset greater than file size.'', [])
     else
       let n = min n (file_size f - offset) in
       if n = 0 then (OK, [])
       else
         let block = offset div kFileBlockSize;
             block_offset = offset mod kFileBlockSize
         in if n \<le> kFileBlockSize - block_offset then (OK, take n (drop block_offset (file_blocks f ! block)))
            else (OK, read_blocks (file_blocks f) block block_offset n))"

text \<open>\<open>WritableFileImpl\<close>.\<close>

definition WritableFileImpl_Append :: "FileState \<Rightarrow> u_char list \<Rightarrow> Status \<times> FileState" where
  "WritableFileImpl_Append f data = (OK, FileState_Append f data)"

definition WritableFileImpl_Flush :: "FileState \<Rightarrow> Status \<times> FileState" where
  "WritableFileImpl_Flush f = (OK, f)"

text \<open>\<open>SequentialFileImpl\<close>.\<close>

record SequentialFileImpl =
  seq_file :: FileState
  seq_pos :: nat

definition SequentialFileImpl_new :: "FileState \<Rightarrow> SequentialFileImpl" where
  "SequentialFileImpl_new f = \<lparr>seq_file = f, seq_pos = 0\<rparr>"

definition SequentialFileImpl_Read :: "SequentialFileImpl \<Rightarrow> nat \<Rightarrow> Status \<times> u_char list \<times> SequentialFileImpl" where
  "SequentialFileImpl_Read r n =
    (case FileState_Read (seq_file r) (seq_pos r) n of (s, result) \<Rightarrow>
       (s, result, if is_ok s then r\<lparr>seq_pos := seq_pos r + length result\<rparr> else r))"

definition SequentialFileImpl_Skip :: "SequentialFileImpl \<Rightarrow> nat \<Rightarrow> Status \<times> SequentialFileImpl" where
  "SequentialFileImpl_Skip r n =
    (if seq_pos r > file_size (seq_file r) then (IOError ''pos_ > file_->Size()'', r)
     else (OK, r\<lparr>seq_pos := seq_pos r + min n (file_size (seq_file r) - seq_pos r)\<rparr>))"

section \<open>The files in memory are files\<close>

text \<open>All blocks but the last are full and the last is not empty.\<close>

definition file_ok :: "FileState \<Rightarrow> bool" where
  "file_ok f \<longleftrightarrow> list_all (\<lambda>b. length b = kFileBlockSize) (butlast (file_blocks f)) \<and>
    (file_blocks f \<noteq> [] \<longrightarrow> 0 < length (last (file_blocks f)) \<and> length (last (file_blocks f)) \<le> kFileBlockSize) \<and>
    file_size f = length (concat (file_blocks f))"

definition file_bytes :: "FileState \<Rightarrow> u_char list" where
  "file_bytes f = concat (file_blocks f)"

lemma length_concat_full: "list_all (\<lambda>b. length b = n) bs \<Longrightarrow> length (concat bs) = length bs * n"
  by (induction bs) auto

lemma file_ok_last:
  assumes "file_ok f" "file_blocks f \<noteq> []"
  shows "file_size f = length (butlast (file_blocks f)) * kFileBlockSize + length (last (file_blocks f))"
proof -
  have "concat (file_blocks f) = concat (butlast (file_blocks f)) @ last (file_blocks f)"
    using assms(2) by (metis append_butlast_last_id concat.simps(1,2) concat_append append_Nil2)
  with assms(1) length_concat_full [of kFileBlockSize "butlast (file_blocks f)"] show ?thesis by (simp add: file_ok_def)
qed

lemma Append_step:
  assumes "file_ok f" "src \<noteq> []" "offset = file_size f mod kFileBlockSize"
    and "bs = (if offset \<noteq> 0 then file_blocks f else file_blocks f @ [[]])"
    and "avail = min (if offset \<noteq> 0 then kFileBlockSize - offset else kFileBlockSize) (length src)"
    and "f' = \<lparr>file_blocks = butlast bs @ [take offset (last bs) @ take avail src], file_size = file_size f + avail\<rparr>"
  shows "file_ok f' \<and> file_bytes f' = file_bytes f @ take avail src"
proof (cases "offset = 0")
  case True
  have full: "list_all (\<lambda>b. length b = kFileBlockSize) (file_blocks f)"
  proof (cases "file_blocks f = []")
    case False
    let ?l = "last (file_blocks f)"
    have "length ?l mod kFileBlockSize = 0"
      using file_ok_last [OF assms(1) False] True assms(3) by simp
    moreover have "0 < length ?l" "length ?l \<le> kFileBlockSize" using assms(1) False by (simp_all add: file_ok_def)
    ultimately have "length ?l = kFileBlockSize" by (metis le_neq_implies_less mod_less not_less_zero)
    moreover have "list_all (\<lambda>b. length b = kFileBlockSize) (butlast (file_blocks f) @ [?l])"
      using assms(1) calculation by (simp add: file_ok_def)
    ultimately show ?thesis using False by simp
  qed simp
  have "0 < avail" "avail \<le> kFileBlockSize" using assms(2,5) True by auto
  then show ?thesis
    using True full assms(1,2,4-6) by (auto simp: file_ok_def file_bytes_def)
next
  case False
  have ne: "file_blocks f \<noteq> []" using False assms(1,3) by (auto simp: file_ok_def)
  let ?l = "last (file_blocks f)"
  have "length ?l \<le> kFileBlockSize" using assms(1) ne by (simp add: file_ok_def)
  moreover have m: "offset = length ?l mod kFileBlockSize"
    using file_ok_last [OF assms(1) ne] assms(3) by simp
  ultimately have l: "length ?l = offset" using False by (metis le_neq_implies_less mod_less mod_self)
  have c: "concat (file_blocks f) = concat (butlast (file_blocks f)) @ ?l"
    using ne by (metis append_butlast_last_id concat.simps(1,2) concat_append append_Nil2)
  have "offset < kFileBlockSize" using assms(3) by simp
  then show ?thesis
    using False l assms(1,2,4-6) by (auto simp: file_ok_def file_bytes_def c)
qed

lemma Append_bytes: "file_ok f \<Longrightarrow> file_ok (FileState_Append f src) \<and> file_bytes (FileState_Append f src) = file_bytes f @ src"
proof (induction f src rule: FileState_Append.induct)
  case (1 f src)
  show ?case
  proof (cases "src = []")
    case True
    with 1(2) show ?thesis by (simp add: FileState_Append.simps)
  next
    case False
    define offset where "offset = file_size f mod kFileBlockSize"
    define bs where "bs = (if offset \<noteq> 0 then file_blocks f else file_blocks f @ [[]])"
    define avail where "avail = min (if offset \<noteq> 0 then kFileBlockSize - offset else kFileBlockSize) (length src)"
    define f' where "f' = \<lparr>file_blocks = butlast bs @ [take offset (last bs) @ take avail src], file_size = file_size f + avail\<rparr>"
    note step = Append_step [OF 1(2) False offset_def bs_def avail_def f'_def]
    have "FileState_Append f src = FileState_Append f' (drop avail src)"
      unfolding f'_def avail_def bs_def offset_def using False by (subst FileState_Append.simps) (simp only: if_False Let_def)
    moreover have "file_ok (FileState_Append f' (drop avail src)) \<and>
        file_bytes (FileState_Append f' (drop avail src)) = file_bytes f' @ drop avail src"
      using 1(1) [OF False offset_def bs_def avail_def] step unfolding f'_def by blast
    ultimately show ?thesis using step by simp
  qed
qed

lemma concat_block:
  assumes "list_all (\<lambda>b. length b = n) (butlast bs)" "k < length bs" "0 < n"
  shows "drop (k * n) (concat bs) = bs ! k @ concat (drop (Suc k) bs)"
proof -
  have "list_all (\<lambda>b. length b = n) (take k bs)"
    using assms(1,2) by (auto simp: list_all_length nth_butlast)
  then have "length (concat (take k bs)) = k * n" using assms(2) length_concat_full by fastforce
  moreover have "concat bs = concat (take k bs) @ bs ! k @ concat (drop (Suc k) bs)"
    using assms(2) by (metis append_take_drop_id Cons_nth_drop_Suc concat.simps(2) concat_append)
  ultimately show ?thesis by simp
qed

lemma read_blocks_bytes:
  assumes "file_ok f" "off < kFileBlockSize" "block * kFileBlockSize + off + n \<le> file_size f"
  shows "read_blocks (file_blocks f) block off n = take n (drop (block * kFileBlockSize + off) (file_bytes f))"
  using assms(2,3)
proof (induction n arbitrary: block off rule: less_induct)
  case (less n)
  let ?K = kFileBlockSize and ?bs = "file_blocks f"
  show ?case
  proof (cases "n = 0")
    case True
    then show ?thesis by (simp add: read_blocks.simps)
  next
    case False
    have full: "list_all (\<lambda>b. length b = ?K) (butlast ?bs)" using assms(1) by (simp add: file_ok_def)
    have ne: "?bs \<noteq> []" using less.prems(2) False assms(1) by (auto simp: file_ok_def)
    have size: "file_size f = length (butlast ?bs) * ?K + length (last ?bs)" "length (last ?bs) \<le> ?K"
      using file_ok_last [OF assms(1) ne] assms(1) ne by (simp_all add: file_ok_def)
    have lb: "length ?bs * ?K = length (butlast ?bs) * ?K + ?K" using ne by (cases ?bs rule: rev_cases) simp_all
    then have "block * ?K < length ?bs * ?K" using less.prems(2) False size by linarith
    then have k: "block < length ?bs" by simp
    have d: "drop (block * ?K) (file_bytes f) = ?bs ! block @ concat (drop (Suc block) ?bs)"
      unfolding file_bytes_def by (rule concat_block [OF full k]) simp
    define avail where "avail = min (?K - off) n"
    have r: "read_blocks ?bs block off n = take avail (drop off (?bs ! block)) @ read_blocks ?bs (Suc block) 0 (n - avail)"
      using False less.prems(1) by (subst read_blocks.simps) (simp add: avail_def Let_def)
    have inside: "off + avail \<le> length (?bs ! block)"
    proof (cases "block = length (butlast ?bs)")
      case True
      then have "?bs ! block = last ?bs" using ne by (simp add: last_conv_nth)
      then show ?thesis using True less.prems(2) size(1) by (simp add: avail_def)
    next
      case False
      then have "length (?bs ! block) = ?K" using full k by (simp add: list_all_length nth_butlast)
      then show ?thesis using less.prems(1) by (simp add: avail_def)
    qed
    have head: "take avail (drop off (?bs ! block)) = take avail (drop (block * ?K + off) (file_bytes f))"
      using inside d by (metis (no_types, lifting) add.commute drop_drop drop_append take_append diff_is_0_eq' add_leE
          append.right_neutral le_diff_conv2 length_drop take_0)
    have tail: "read_blocks ?bs (Suc block) 0 (n - avail) = take (n - avail) (drop (block * ?K + off + avail) (file_bytes f))"
    proof (cases "n \<le> ?K - off")
      case True
      then show ?thesis by (simp add: avail_def read_blocks.simps)
    next
      case False
      then have "avail = ?K - off" by (simp add: avail_def)
      then have e: "block * ?K + off + avail = Suc block * ?K + 0" and "n - avail < n" "Suc block * ?K + 0 + (n - avail) \<le> file_size f"
        using less.prems False by auto
      then show ?thesis unfolding e by (intro less.IH) simp_all
    qed
    have "take n xs = take avail xs @ take (n - avail) (drop avail xs)" for xs :: "u_char list"
      by (metis avail_def le_add_diff_inverse min.cobounded2 take_add)
    then show ?thesis unfolding r head tail by (simp add: add.commute)
  qed
qed

lemma FileState_Read_bytes:
  assumes "file_ok f" "offset \<le> file_size f"
  shows "FileState_Read f offset n = (OK, take n (drop offset (file_bytes f)))"
proof -
  let ?K = kFileBlockSize
  define m where "m = min n (file_size f - offset)"
  have t: "take m (drop offset (file_bytes f)) = take n (drop offset (file_bytes f))"
    using assms(1) by (simp add: m_def file_ok_def file_bytes_def min_def)
  have "offset div ?K * ?K + offset mod ?K + m \<le> file_size f" using assms(2) by (simp add: m_def)
  then have r: "read_blocks (file_blocks f) (offset div ?K) (offset mod ?K) m = take n (drop offset (file_bytes f))"
    using read_blocks_bytes [OF assms(1), of "offset mod ?K" "offset div ?K" m] t by simp
  have one: "take m (drop (offset mod ?K) (file_blocks f ! (offset div ?K))) = read_blocks (file_blocks f) (offset div ?K) (offset mod ?K) m"
    if "m \<le> ?K - offset mod ?K" "m \<noteq> 0"
    using that by (subst read_blocks.simps) (simp add: Let_def read_blocks.simps [of _ _ _ 0])
  show ?thesis
  proof (cases "m = 0")
    case True
    then show ?thesis using assms(2) t by (simp add: FileState_Read_def flip: m_def)
  next
    case False
    then show ?thesis
      using assms(2) one r by (auto simp: FileState_Read_def Let_def simp flip: m_def)
  qed
qed

lemma file_ok_new [simp]: "file_ok FileState_new" "file_bytes FileState_new = []"
  by (simp_all add: file_ok_def FileState_new_def file_bytes_def)

lemma file_ok_size: "file_ok f \<Longrightarrow> file_size f = length (file_bytes f)"
  by (simp add: file_ok_def file_bytes_def)

text \<open>What is left of a file that is read.\<close>

definition seq_remaining :: "SequentialFileImpl \<Rightarrow> u_char list" where
  "seq_remaining r = drop (seq_pos r) (file_bytes (seq_file r))"

definition seq_opened :: "SequentialFileImpl \<Rightarrow> bool" where
  "seq_opened r \<longleftrightarrow> file_ok (seq_file r) \<and> seq_pos r \<le> file_size (seq_file r)"

interpretation memfile: sequential_file SequentialFileImpl_Read SequentialFileImpl_Skip seq_remaining seq_opened
proof
  fix r n
  assume o: "seq_opened r"
  then have "FileState_Read (seq_file r) (seq_pos r) n = (OK, take n (seq_remaining r))"
    by (simp add: seq_opened_def seq_remaining_def FileState_Read_bytes)
  then have "SequentialFileImpl_Read r n = (OK, take n (seq_remaining r), r\<lparr>seq_pos := seq_pos r + min n (length (seq_remaining r))\<rparr>)"
    by (simp add: SequentialFileImpl_Read_def min.commute)
  then show "\<exists>r'. SequentialFileImpl_Read r n = (OK, take n (seq_remaining r), r') \<and> seq_opened r' \<and>
      seq_remaining r' = drop n (seq_remaining r)"
    using o by (auto simp: seq_opened_def seq_remaining_def file_ok_size min_def add.commute)
next
  fix r n
  assume "seq_opened r"
  then show "\<exists>r'. SequentialFileImpl_Skip r n = (OK, r') \<and> seq_opened r' \<and> seq_remaining r' = drop n (seq_remaining r)"
    by (auto simp: SequentialFileImpl_Skip_def seq_opened_def seq_remaining_def file_ok_size min_def add.commute)
qed

interpretation memfile: writable_file WritableFileImpl_Append WritableFileImpl_Flush file_bytes file_ok
  by unfold_locales (auto simp: WritableFileImpl_Append_def WritableFileImpl_Flush_def Append_bytes)

text \<open>C22: a file in memory behaves like the list of its bytes. After any appends it holds the data that was appended, in
  order, and a read at any offset inside returns the bytes there, as many as asked for or as there are, although they
  are kept in blocks; a read behind the end is an error.\<close>

theorem memenv_refines_bytes:
  "FileState_Read (foldl FileState_Append FileState_new datas) offset n =
    (if offset \<le> length (concat datas) then (OK, take n (drop offset (concat datas)))
     else (IOError ''Offset greater than file size.'', []))"
proof -
  define f where "f = foldl FileState_Append FileState_new datas"
  have "file_ok g \<Longrightarrow> file_ok (foldl FileState_Append g ds) \<and> file_bytes (foldl FileState_Append g ds) = file_bytes g @ concat ds" for g ds
    by (induction ds arbitrary: g) (simp_all add: Append_bytes)
  then have f: "file_ok f" "file_bytes f = concat datas" by (simp_all add: f_def)
  then have "file_size f = length (concat datas)" using file_ok_size by simp
  then show ?thesis using f FileState_Read_bytes [of f offset n] by (auto simp: FileState_Read_def simp flip: f_def)
qed

end
