(* ===== verification/Ldb_Log.thy ===== *)
theory Ldb_Log
  imports Ldb_Crc Ldb_File
begin

text \<open>
  The log of \<^verbatim>\<open>src/leveldb-1.12.0/db/log_writer.cc\<close> and \<^verbatim>\<open>log_reader.cc\<close>. A log is a sequence of blocks of 32K, and a record is cut
  into fragments that do not cross the end of a block. The writer and the reader work on files given by their
  operations. Positions inside a block are natural numbers, offsets in the file are 64-bit words.
\<close>

section \<open>Format\<close>

abbreviation kBlockSize :: nat where "kBlockSize \<equiv> 32768"
abbreviation kHeaderSize :: nat where "kHeaderSize \<equiv> 7"

abbreviation (input) kZeroType :: u_char where "kZeroType \<equiv> 0"
abbreviation (input) kFullType :: u_char where "kFullType \<equiv> 1"
abbreviation (input) kFirstType :: u_char where "kFirstType \<equiv> 2"
abbreviation (input) kMiddleType :: u_char where "kMiddleType \<equiv> 3"
abbreviation (input) kLastType :: u_char where "kLastType \<equiv> 4"

section \<open>The writer\<close>

record 'w Writer =
  dest :: 'w
  block_offset :: nat
  type_crc :: "uint32 list"

definition Writer_new :: "'w \<Rightarrow> 'w Writer" where
  "Writer_new f = \<lparr>dest = f, block_offset = 0, type_crc = map (\<lambda>i. Value [word_of_nat i]) [0..<5]\<rparr>"

definition record_header :: "uint32 list \<Rightarrow> u_char \<Rightarrow> slice \<Rightarrow> slice" where
  "record_header crcs t ptr =
    (let n = length ptr;
         crc = Mask (Extend (crcs ! unat t) ptr)
     in EncodeFixed32 crc @ [word_of_nat (n AND 0xff), word_of_nat (drop_bit 8 n), t])"

definition EmitPhysicalRecord ::
    "('w \<Rightarrow> slice \<Rightarrow> Status \<times> 'w) \<Rightarrow> ('w \<Rightarrow> Status \<times> 'w) \<Rightarrow> 'w Writer \<Rightarrow> u_char \<Rightarrow> slice \<Rightarrow> Status \<times> 'w Writer" where
  "EmitPhysicalRecord append_file flush_file w t ptr =
    (let (s, f) = append_file (dest w) (record_header (type_crc w) t ptr);
         (s, f) = (if is_ok s then
                     let (s, f) = append_file f ptr in if is_ok s then flush_file f else (s, f)
                   else (s, f))
     in (s, w\<lparr>dest := f, block_offset := block_offset w + kHeaderSize + length ptr\<rparr>))"

text \<open>The start of the loop of \<open>AddRecord\<close>: a switch to a new block. The status of the append is not looked at. The result
  has the room for data that is left in the block.\<close>

definition next_block :: "('w \<Rightarrow> slice \<Rightarrow> Status \<times> 'w) \<Rightarrow> 'w Writer \<Rightarrow> 'w Writer" where
  "next_block append_file w =
    (let leftover = kBlockSize - block_offset w in
     if leftover < kHeaderSize then
       w\<lparr>dest := (if leftover > 0 then snd (append_file (dest w) (replicate leftover 0)) else dest w), block_offset := 0\<rparr>
     else w)"

definition fragment_type :: "bool \<Rightarrow> bool \<Rightarrow> u_char" where
  "fragment_type begin end =
    (if begin \<and> end then kFullType else if begin then kFirstType else if end then kLastType else kMiddleType)"

lemma EmitPhysicalRecord_offset [simp]:
  "block_offset (snd (EmitPhysicalRecord append_file flush_file w t ptr)) = block_offset w + kHeaderSize + length ptr"
  by (simp add: EmitPhysicalRecord_def Let_def split: prod.split)

lemma next_block_offset: "block_offset (next_block append_file w) = (if kBlockSize - block_offset w < kHeaderSize then 0 else block_offset w)"
  by (simp add: next_block_def Let_def)

text \<open>The room for data in the block where the next fragment goes.\<close>

definition room :: "'w Writer \<Rightarrow> nat" where
  "room w = (if kBlockSize - block_offset w < kHeaderSize then kBlockSize else kBlockSize - block_offset w) - kHeaderSize"

text \<open>The loop of \<open>AddRecord\<close>. A fragment may be empty, when only a header fits into the block.\<close>

function AddRecord_loop ::
    "('w \<Rightarrow> slice \<Rightarrow> Status \<times> 'w) \<Rightarrow> ('w \<Rightarrow> Status \<times> 'w) \<Rightarrow> 'w Writer \<Rightarrow> slice \<Rightarrow> bool \<Rightarrow> Status \<times> 'w Writer" where
  "AddRecord_loop append_file flush_file w ptr begin =
    (let w1 = next_block append_file w;
         avail = kBlockSize - block_offset w1 - kHeaderSize;
         fragment_length = (if length ptr < avail then length ptr else avail);
         (s, w2) = EmitPhysicalRecord append_file flush_file w1
           (fragment_type begin (length ptr = fragment_length)) (take fragment_length ptr)
     in if is_ok s \<and> length ptr - fragment_length > 0 then
          AddRecord_loop append_file flush_file w2 (drop fragment_length ptr) False
        else (s, w2))"
  by auto

termination
proof (relation "measure (\<lambda>(_, _, w, ptr, _). 2 * length ptr + (if room w = 0 then 1 else 0))", simp, goal_cases)
  case (1 append_file flush_file w ptr first w1 avail fragment_length s_w s w2)
  have b2: "block_offset w2 = block_offset w1 + kHeaderSize + length (take fragment_length ptr)"
    using 1(4,5) EmitPhysicalRecord_offset [of append_file flush_file w1] by (metis snd_conv)
  have b1: "block_offset w1 = (if kBlockSize - block_offset w < kHeaderSize then 0 else block_offset w)"
    unfolding 1(1) by (rule next_block_offset)
  have r: "room w = avail" by (simp add: room_def 1(2) b1)
  have l: "fragment_length = avail" "avail < length ptr" using 1(3,6) by (simp_all split: if_splits)
  show ?case
  proof (cases "avail = 0")
    case True
    then have "room w2 = kBlockSize - kHeaderSize" using b2 b1 l 1(2) by (simp add: room_def)
    with True l r show ?thesis by simp
  next
    case False
    with l have "2 * (length ptr - avail) + 1 < 2 * length ptr" by linarith
    with False l r show ?thesis by simp
  qed
qed

declare AddRecord_loop.simps [simp del]

definition AddRecord ::
    "('w \<Rightarrow> slice \<Rightarrow> Status \<times> 'w) \<Rightarrow> ('w \<Rightarrow> Status \<times> 'w) \<Rightarrow> 'w Writer \<Rightarrow> slice \<Rightarrow> Status \<times> 'w Writer" where
  "AddRecord append_file flush_file w data = AddRecord_loop append_file flush_file w data True"


section \<open>The reader\<close>

text \<open>The reports to the reporter are kept in a list.\<close>

record 'r Reader =
  file_of :: 'r
  has_reporter :: bool
  checksum :: bool
  buffer :: slice
  eof :: bool
  last_record_offset :: uint64
  end_of_buffer_offset :: uint64
  initial_offset :: uint64
  reports :: "(nat \<times> Status) list"

definition Reader_new :: "'r \<Rightarrow> bool \<Rightarrow> bool \<Rightarrow> uint64 \<Rightarrow> 'r Reader" where
  "Reader_new file reporter check initial =
    \<lparr>file_of = file, has_reporter = reporter, checksum = check, buffer = [], eof = False, last_record_offset = 0,
     end_of_buffer_offset = 0, initial_offset = initial, reports = []\<rparr>"

definition ReportDrop :: "'r Reader \<Rightarrow> nat \<Rightarrow> Status \<Rightarrow> 'r Reader" where
  "ReportDrop r bytes reason =
    (if has_reporter r \<and>
        end_of_buffer_offset r - word_of_nat (length (buffer r)) - word_of_nat bytes \<ge> initial_offset r
     then r\<lparr>reports := reports r @ [(bytes, reason)]\<rparr> else r)"

definition ReportCorruption :: "'r Reader \<Rightarrow> nat \<Rightarrow> string \<Rightarrow> 'r Reader" where
  "ReportCorruption r bytes reason = ReportDrop r bytes (Corruption reason)"

definition SkipToInitialBlock :: "('r \<Rightarrow> nat \<Rightarrow> Status \<times> 'r) \<Rightarrow> 'r Reader \<Rightarrow> bool \<times> 'r Reader" where
  "SkipToInitialBlock skip_file r =
    (let offset_in_block = initial_offset r mod word_of_nat kBlockSize;
         block_start_location = initial_offset r - offset_in_block;
         block_start_location =
           (if unat offset_in_block > kBlockSize - 6 then block_start_location + word_of_nat kBlockSize else block_start_location);
         r = r\<lparr>end_of_buffer_offset := block_start_location\<rparr>
     in if block_start_location > 0 then
          (case skip_file (file_of r) (unat block_start_location) of (s, f) \<Rightarrow>
             let r = r\<lparr>file_of := f\<rparr> in
             if \<not> is_ok s then (False, ReportDrop r (unat block_start_location) s) else (True, r))
        else (True, r))"

text \<open>The results of \<open>ReadPhysicalRecord\<close> beside the record types, which are bytes widened with their sign.\<close>

abbreviation (input) kEof :: uint32 where "kEof \<equiv> 5"
abbreviation (input) kBadRecord :: uint32 where "kBadRecord \<equiv> 6"

text \<open>The part of \<open>ReadPhysicalRecord\<close> behind the test of the buffer size: the buffer has a header.\<close>

definition parse_physical :: "'r Reader \<Rightarrow> uint32 \<times> slice \<times> 'r Reader" where
  "parse_physical r =
    (let header = buffer r;
         a = ucast (header ! 4);
         b = ucast (header ! 5);
         type = scast (header ! 6) :: uint32;
         len = unat (a OR push_bit 8 b :: uint32);
         drop_size = length (buffer r)
     in if kHeaderSize + len > length (buffer r) then
          (kBadRecord, [], ReportCorruption (r\<lparr>buffer := []\<rparr>) drop_size ''bad record length'')
        else if type = 0 \<and> len = 0 then (kBadRecord, [], r\<lparr>buffer := []\<rparr>)
        else if checksum r \<and> Value (take (1 + len) (drop 6 header)) \<noteq> Unmask (DecodeFixed32 header) then
          (kBadRecord, [], ReportCorruption (r\<lparr>buffer := []\<rparr>) drop_size ''checksum mismatch'')
        else
          let r = r\<lparr>buffer := drop (kHeaderSize + len) header\<rparr> in
          if end_of_buffer_offset r - word_of_nat (length (buffer r)) - word_of_nat kHeaderSize - word_of_nat len < initial_offset r
          then (kBadRecord, [], r)
          else (type, take len (drop kHeaderSize header), r))"

text \<open>\<open>ReadPhysicalRecord\<close>. Its loop goes round a second time after the buffer was filled, and then either has a header or
  is at the end of the file.\<close>

function ReadPhysicalRecord :: "('r \<Rightarrow> nat \<Rightarrow> Status \<times> slice \<times> 'r) \<Rightarrow> 'r Reader \<Rightarrow> uint32 \<times> slice \<times> 'r Reader" where
  "ReadPhysicalRecord read_file r =
    (if length (buffer r) < kHeaderSize then
       if \<not> eof r then
         (case read_file (file_of r) kBlockSize of (status, buf, f) \<Rightarrow>
            let r = r\<lparr>file_of := f, buffer := buf, end_of_buffer_offset := end_of_buffer_offset r + word_of_nat (length buf)\<rparr> in
            if \<not> is_ok status then (kEof, [], (ReportDrop (r\<lparr>buffer := []\<rparr>) kBlockSize status)\<lparr>eof := True\<rparr>)
            else if length buf < kBlockSize then ReadPhysicalRecord read_file (r\<lparr>eof := True\<rparr>)
            else ReadPhysicalRecord read_file r)
       else if length (buffer r) = 0 then (kEof, [], r)
       else (kEof, [], ReportCorruption (r\<lparr>buffer := []\<rparr>) (length (buffer r)) ''truncated record at end of file'')
     else parse_physical r)"
  by auto
termination by (relation "measure (\<lambda>(_, r). if length (buffer r) < kHeaderSize \<and> \<not> eof r then 1 else 0)") auto

declare ReadPhysicalRecord.simps [simp del]

text \<open>The loop of \<open>ReadRecord\<close>, with \<open>scratch\<close>, \<open>in_fragmented_record\<close> and \<open>prospective_record_offset\<close>. \<open>None\<close> is a loop
  that does not end. The result has the record, if there is one.\<close>

definition unfinished :: "bool \<Rightarrow> slice \<Rightarrow> string \<Rightarrow> 'r Reader \<Rightarrow> 'r Reader" where
  "unfinished in_fragmented_record scratch reason r =
    (if in_fragmented_record \<and> scratch \<noteq> [] then ReportCorruption r (length scratch) reason else r)"

partial_function (option) ReadRecord_loop ::
    "('r \<Rightarrow> nat \<Rightarrow> Status \<times> slice \<times> 'r) \<Rightarrow> 'r Reader \<Rightarrow> slice \<Rightarrow> bool \<Rightarrow> uint64 \<Rightarrow> (slice option \<times> 'r Reader) option" where
  "ReadRecord_loop read_file r scratch in_fragmented_record prospective_record_offset =
    (let physical_record_offset = end_of_buffer_offset r - word_of_nat (length (buffer r));
         (record_type, fragment, r) = ReadPhysicalRecord read_file r
     in if record_type = 1 then
          (let r = unfinished in_fragmented_record scratch ''partial record without end(1)'' r in
           Some (Some fragment, r\<lparr>last_record_offset := physical_record_offset\<rparr>))
        else if record_type = 2 then
          (let r = unfinished in_fragmented_record scratch ''partial record without end(2)'' r in
           ReadRecord_loop read_file r fragment True physical_record_offset)
        else if record_type = 3 then
          (if \<not> in_fragmented_record then
             ReadRecord_loop read_file
               (ReportCorruption r (length fragment) ''missing start of fragmented record(1)'') scratch in_fragmented_record
               prospective_record_offset
           else ReadRecord_loop read_file r (scratch @ fragment) in_fragmented_record prospective_record_offset)
        else if record_type = 4 then
          (if \<not> in_fragmented_record then
             ReadRecord_loop read_file
               (ReportCorruption r (length fragment) ''missing start of fragmented record(2)'') scratch in_fragmented_record
               prospective_record_offset
           else Some (Some (scratch @ fragment), r\<lparr>last_record_offset := prospective_record_offset\<rparr>))
        else if record_type = kEof then
          Some (None,
            if in_fragmented_record then ReportCorruption r (length scratch) ''partial record without end(3)'' else r)
        else if record_type = kBadRecord then
          (if in_fragmented_record then
             ReadRecord_loop read_file (ReportCorruption r (length scratch) ''error in middle of record'') [] False
               prospective_record_offset
           else ReadRecord_loop read_file r scratch in_fragmented_record prospective_record_offset)
        else
          ReadRecord_loop read_file
            (ReportCorruption r (length fragment + (if in_fragmented_record then length scratch else 0)) ''unknown record type'')
            [] False prospective_record_offset)"

definition ReadRecord ::
    "('r \<Rightarrow> nat \<Rightarrow> Status \<times> slice \<times> 'r) \<Rightarrow> ('r \<Rightarrow> nat \<Rightarrow> Status \<times> 'r) \<Rightarrow> 'r Reader \<Rightarrow> (slice option \<times> 'r Reader) option" where
  "ReadRecord read_file skip_file r =
    (if last_record_offset r < initial_offset r then
       (case SkipToInitialBlock skip_file r of (ok, r) \<Rightarrow>
          if ok then ReadRecord_loop read_file r [] False 0 else Some (None, r))
     else ReadRecord_loop read_file r [] False 0)"

text \<open>All records of a log, read one after the other until there is none.\<close>

partial_function (option) read_all ::
    "('r \<Rightarrow> nat \<Rightarrow> Status \<times> slice \<times> 'r) \<Rightarrow> ('r \<Rightarrow> nat \<Rightarrow> Status \<times> 'r) \<Rightarrow> 'r Reader \<Rightarrow> (slice list \<times> 'r Reader) option" where
  "read_all read_file skip_file r =
    (case ReadRecord read_file skip_file r of
       None \<Rightarrow> None
     | Some (None, r) \<Rightarrow> Some ([], r)
     | Some (Some rec, r) \<Rightarrow> Option.bind (read_all read_file skip_file r) (\<lambda>(recs, r). Some (rec # recs, r)))"

section \<open>The layout of a log\<close>

text \<open>Where a fragment goes that is written at an offset in a block, the bytes of a fragment, and those of a list of
  fragments.\<close>

definition frag_start :: "nat \<Rightarrow> nat" where
  "frag_start p = (if kBlockSize - p < kHeaderSize then 0 else p)"

definition padding :: "nat \<Rightarrow> slice" where
  "padding p = (if kBlockSize - p < kHeaderSize then replicate (kBlockSize - p) 0 else [])"

definition type_crcs :: "uint32 list" where
  "type_crcs = map (\<lambda>i. Value [word_of_nat i]) [0..<5]"

definition frag_bytes :: "u_char \<Rightarrow> slice \<Rightarrow> slice" where
  "frag_bytes t d = record_header type_crcs t d @ d"

definition frag_end :: "nat \<Rightarrow> slice \<Rightarrow> nat" where
  "frag_end p d = frag_start p + kHeaderSize + length d"

primrec layout :: "nat \<Rightarrow> (u_char \<times> slice) list \<Rightarrow> slice" where
  "layout p [] = []"
| "layout p (f # fs) = padding p @ frag_bytes (fst f) (snd f) @ layout (frag_end p (snd f)) fs"

primrec layout_end :: "nat \<Rightarrow> (u_char \<times> slice) list \<Rightarrow> nat" where
  "layout_end p [] = p"
| "layout_end p (f # fs) = layout_end (frag_end p (snd f)) fs"

primrec fits :: "nat \<Rightarrow> (u_char \<times> slice) list \<Rightarrow> bool" where
  "fits p [] \<longleftrightarrow> True"
| "fits p (f # fs) \<longleftrightarrow> frag_end p (snd f) \<le> kBlockSize \<and> fits (frag_end p (snd f)) fs"

text \<open>The fragments of a record, or of the rest of one.\<close>

inductive splits :: "bool \<Rightarrow> slice \<Rightarrow> (u_char \<times> slice) list \<Rightarrow> bool" where
  full: "splits True d [(1, d)]"
| first: "splits False e fs \<Longrightarrow> splits True (d @ e) ((2, d) # fs)"
| last: "splits False d [(4, d)]"
| middle: "splits False e fs \<Longrightarrow> splits False (d @ e) ((3, d) # fs)"

lemma layout_append: "layout p (fs @ gs) = layout p fs @ layout (layout_end p fs) gs"
  by (induction fs arbitrary: p) simp_all

lemma layout_end_append [simp]: "layout_end p (fs @ gs) = layout_end (layout_end p fs) gs"
  by (induction fs arbitrary: p) simp_all

lemma fits_append [simp]: "fits p (fs @ gs) \<longleftrightarrow> fits p fs \<and> fits (layout_end p fs) gs"
  by (induction fs arbitrary: p) simp_all

section \<open>What the writer writes\<close>

text \<open>A file whose operations do not fail.\<close>

locale reliable_file = writable_file +
  assumes append_ok: "writable w \<Longrightarrow> fst (append_file w data) = OK"
    and flush_ok: "writable w \<Longrightarrow> fst (flush_file w) = OK"

context reliable_file
begin

lemma append_file_ok: "writable w \<Longrightarrow> \<exists>w'. append_file w data = (OK, w') \<and> writable w' \<and> contents w' = contents w @ data"
  using append_ok [of w data] append_contents [of w data] by (cases "append_file w data") auto

lemma flush_file_ok: "writable w \<Longrightarrow> \<exists>w'. flush_file w = (OK, w') \<and> writable w' \<and> contents w' = contents w"
  using flush_ok [of w] flush_contents [of w] by (cases "flush_file w") auto

definition writer_ok :: "'a Writer \<Rightarrow> bool" where
  "writer_ok w \<longleftrightarrow> writable (dest w) \<and> type_crc w = type_crcs"

lemma Emit_bytes:
  assumes "writer_ok w"
  shows "\<exists>w'. EmitPhysicalRecord append_file flush_file w t d = (OK, w') \<and> writer_ok w' \<and>
    contents (dest w') = contents (dest w) @ frag_bytes t d \<and> block_offset w' = block_offset w + kHeaderSize + length d"
proof -
  have c: "type_crc w = type_crcs" using assms by (simp add: writer_ok_def)
  let ?h = "record_header type_crcs t d"
  obtain f1 where 1: "append_file (dest w) ?h = (OK, f1)" "writable f1" "contents f1 = contents (dest w) @ ?h"
    using append_file_ok [of "dest w" ?h] assms by (auto simp: writer_ok_def)
  obtain f2 where 2: "append_file f1 d = (OK, f2)" "writable f2" "contents f2 = contents f1 @ d"
    using append_file_ok [OF 1(2)] by blast
  obtain f3 where 3: "flush_file f2 = (OK, f3)" "writable f3" "contents f3 = contents f2"
    using flush_file_ok [OF 2(2)] by blast
  show ?thesis
    using c by (simp add: EmitPhysicalRecord_def 1 2 3 writer_ok_def frag_bytes_def)
qed

lemma next_block_bytes:
  assumes "writer_ok w"
  shows "writer_ok (next_block append_file w) \<and>
    contents (dest (next_block append_file w)) = contents (dest w) @ padding (block_offset w) \<and>
    block_offset (next_block append_file w) = frag_start (block_offset w)"
  using append_file_ok [of "dest w" "replicate (kBlockSize - block_offset w) 0"] assms
  by (auto simp: next_block_def Let_def padding_def frag_start_def writer_ok_def)

lemma AddRecord_loop_bytes:
  assumes "writer_ok w" "block_offset w \<le> kBlockSize"
  shows "\<exists>w' fs. AddRecord_loop append_file flush_file w data first = (OK, w') \<and> writer_ok w' \<and> splits first data fs \<and>
    fits (block_offset w) fs \<and> contents (dest w') = contents (dest w) @ layout (block_offset w) fs \<and>
    block_offset w' = layout_end (block_offset w) fs \<and> block_offset w' \<le> kBlockSize"
  using assms
proof (induction "2 * length data + (if room w = 0 then 1 else 0)" arbitrary: w data first rule: less_induct)
  case less
  let ?p = "block_offset w"
  define w1 where "w1 = next_block append_file w"
  define avail where "avail = kBlockSize - block_offset w1 - kHeaderSize"
  define k where "k = (if length data < avail then length data else avail)"
  have w1: "writer_ok w1" "contents (dest w1) = contents (dest w) @ padding ?p" "block_offset w1 = frag_start ?p"
    using next_block_bytes [OF less.prems(1)] by (simp_all add: w1_def)
  define t where "t = fragment_type first (length data = k)"
  obtain w2 where w2: "EmitPhysicalRecord append_file flush_file w1 t (take k data) = (OK, w2)" "writer_ok w2"
      "contents (dest w2) = contents (dest w) @ padding ?p @ frag_bytes t (take k data)"
      "block_offset w2 = frag_end ?p (take k data)"
    using Emit_bytes [OF w1(1), of t "take k data"] w1(2,3) by (auto simp: frag_end_def)
  have room: "room w = avail" by (simp add: room_def avail_def w1(3) frag_start_def)
  have fit: "frag_end ?p (take k data) \<le> kBlockSize"
    using less.prems(2) by (auto simp: frag_end_def k_def avail_def w1(3) frag_start_def)
  have loop: "AddRecord_loop append_file flush_file w data first =
      (if length data - k > 0 then AddRecord_loop append_file flush_file w2 (drop k data) False else (OK, w2))"
    by (subst AddRecord_loop.simps)
      (simp only: Let_def w1_def [symmetric] avail_def [symmetric] k_def [symmetric] t_def [symmetric] w2(1) prod.case simp_thms)
  show ?case
  proof (cases "length data - k > 0")
    case False
    then have k: "k = length data" by (auto simp: k_def split: if_splits)
    then have "splits first data [(t, data)]" by (cases first) (auto simp: t_def fragment_type_def intro: splits.intros)
    then show ?thesis using False loop w2 fit k by (intro exI [of _ w2] exI [of _ "[(t, data)]"]) auto
  next
    case True
    then have k: "k = avail" "avail < length data" by (auto simp: k_def split: if_splits)
    have "2 * length (drop k data) + (if room w2 = 0 then 1 else 0) < 2 * length data + (if room w = 0 then 1 else 0)"
    proof (cases "avail = 0")
      case True
      then have "room w2 = kBlockSize - kHeaderSize" using k fit less.prems(2) w1(3)
        by (auto simp: w2(4) room_def avail_def frag_end_def)
      with True k room show ?thesis by simp
    next
      case False
      with k have "2 * (length data - avail) + 1 < 2 * length data" by linarith
      with False k room show ?thesis by simp
    qed
    from less.hyps [OF this w2(2), of False] fit [folded w2(4)] obtain w' fs where r: "AddRecord_loop append_file flush_file w2 (drop k data) False = (OK, w')"
        "writer_ok w'" "splits False (drop k data) fs" "fits (frag_end ?p (take k data)) fs"
        "contents (dest w') = contents (dest w2) @ layout (frag_end ?p (take k data)) fs"
        "block_offset w' = layout_end (frag_end ?p (take k data)) fs" "block_offset w' \<le> kBlockSize"
      unfolding w2(4) by blast
    have "splits first (take k data @ drop k data) ((t, take k data) # fs)"
      using r(3) k by (cases first) (auto simp: t_def fragment_type_def intro: splits.intros simp del: append_take_drop_id)
    then show ?thesis
      using True loop r w2 fit by (intro exI [of _ w'] exI [of _ "(t, take k data) # fs"]) simp
  qed
qed

lemma AddRecord_bytes:
  assumes "writer_ok w" "block_offset w \<le> kBlockSize"
  obtains w' fs where "AddRecord append_file flush_file w data = (OK, w')" "writer_ok w'" "splits True data fs"
    "fits (block_offset w) fs" "contents (dest w') = contents (dest w) @ layout (block_offset w) fs"
    "block_offset w' = layout_end (block_offset w) fs" "block_offset w' \<le> kBlockSize"
  using AddRecord_loop_bytes [OF assms] unfolding AddRecord_def by blast

end

section \<open>What the reader reads\<close>

lemma length_field:
  assumes "n < 65536"
  shows "unat (ucast (word_of_nat (n AND 0xff) :: u_char) OR push_bit 8 (ucast (word_of_nat (drop_bit 8 n) :: u_char)) :: uint32) = n"
proof -
  have n: "bit n m \<Longrightarrow> m < 16" for m
  proof -
    have "take_bit 16 n = n" using assms by (simp add: take_bit_nat_eq_self)
    then show "bit n m \<Longrightarrow> m < 16" by (metis bit_take_bit_iff)
  qed
  have "(ucast (word_of_nat (n AND 0xff) :: u_char) OR push_bit 8 (ucast (word_of_nat (drop_bit 8 n) :: u_char)) :: uint32) = word_of_nat n"
  proof (rule bit_word_eqI)
    fix m
    have "(255 :: nat) = mask 8" by (simp add: mask_eq_exp_minus_1)
    then have a: "n AND 255 = take_bit 8 n" by (simp add: take_bit_eq_mask)
    show "bit (ucast (word_of_nat (n AND 0xff) :: u_char) OR push_bit 8 (ucast (word_of_nat (drop_bit 8 n) :: u_char)) :: uint32) m =
        bit (word_of_nat n :: uint32) m"
      unfolding a using n [of m] by (cases "m < 8") (auto simp: bit_simps)
  qed
  then show ?thesis using assms by (simp add: unat_of_nat)
qed

lemma record_header_bytes:
  "length (record_header crcs t d) = kHeaderSize"
  "(record_header crcs t d @ x) ! 4 = word_of_nat (length d AND 0xff)"
  "(record_header crcs t d @ x) ! 5 = word_of_nat (drop_bit 8 (length d))"
  "(record_header crcs t d @ x) ! 6 = t"
  "drop 6 (record_header crcs t d @ x) = t # x"
  "DecodeFixed32 (record_header crcs t d @ x) = Mask (Extend (crcs ! unat t) d)"
proof -
  let ?crc = "Mask (Extend (crcs ! unat t) d)"
  have h: "record_header crcs t d = EncodeFixed32 ?crc @ [word_of_nat (length d AND 0xff), word_of_nat (drop_bit 8 (length d)), t]"
    by (simp add: record_header_def Let_def)
  have "length (EncodeFixed32 ?crc) = 4" by (simp add: EncodeFixed32_def)
  then show "length (record_header crcs t d) = kHeaderSize" "(record_header crcs t d @ x) ! 4 = word_of_nat (length d AND 0xff)"
    "(record_header crcs t d @ x) ! 5 = word_of_nat (drop_bit 8 (length d))" "(record_header crcs t d @ x) ! 6 = t"
    "drop 6 (record_header crcs t d @ x) = t # x"
    unfolding h by (simp_all add: nth_append)
  show "DecodeFixed32 (record_header crcs t d @ x) = ?crc" unfolding h append_assoc by (rule DecodeFixed32_Encode)
qed

definition fragment_types :: "u_char set" where
  "fragment_types = {1, 2, 3, 4}"

lemma parse_record:
  assumes "buffer r = record_header crcs t d @ d @ x" "crcs ! unat t = Value [t]" "(scast t :: uint32) \<noteq> 0" "length d < 65536"
    and "initial_offset r = 0"
  shows "parse_physical r = (scast t, d, r\<lparr>buffer := x\<rparr>)"
proof -
  have c: "Extend (crcs ! unat t) d = Value (t # d)" using assms(2) Extend_append [of 0 "[t]" d] by (simp add: Value_def)
  have "drop (kHeaderSize + length d) (record_header crcs t d @ (d @ x)) = x"
    "take (length d) (drop kHeaderSize (record_header crcs t d @ (d @ x))) = d"
    using record_header_bytes(1) [of crcs t d] by simp_all
  then show ?thesis
    unfolding parse_physical_def assms(1) record_header_bytes(2-6) length_field [OF assms(4)] Let_def c
    by (simp add: assms(3,5) record_header_bytes(1))
qed

lemma parse_fragment:
  assumes "buffer r = frag_bytes t d @ x" "t \<in> fragment_types" "length d < 65536" "initial_offset r = 0"
  shows "parse_physical r = (scast t, d, r\<lparr>buffer := x\<rparr>)"
proof (rule parse_record [of r type_crcs])
  show "type_crcs ! unat t = Value [t]" "(scast t :: uint32) \<noteq> 0"
    using assms(2) by (auto simp: fragment_types_def type_crcs_def)
qed (use assms in \<open>simp_all add: frag_bytes_def\<close>)

lemma parse_cut_fragment:
  assumes "buffer r = record_header crcs t d @ x" "length x < length d" "length d < 65536"
  shows "\<exists>r'. parse_physical r = (kBadRecord, [], r') \<and> buffer r' = [] \<and> eof r' = eof r"
proof -
  have "kHeaderSize + length d > length (record_header crcs t d @ x)" using assms(2) record_header_bytes(1) by simp
  then show ?thesis
    unfolding parse_physical_def assms(1) record_header_bytes(2-4) length_field [OF assms(3)] Let_def
    by (simp add: ReportCorruption_def ReportDrop_def)
qed

context sequential_file
begin

text \<open>The reader is at position \<open>p\<close> of a block, and \<open>s\<close> is what follows in the file.\<close>

definition reader_at :: "nat \<Rightarrow> slice \<Rightarrow> 'r Reader \<Rightarrow> bool" where
  "reader_at p s r \<longleftrightarrow> opened (file_of r) \<and> initial_offset r = 0 \<and> buffer r = take (kBlockSize - p) s \<and>
    remaining (file_of r) = drop (kBlockSize - p) s \<and> eof r = (length s < kBlockSize - p)"

lemma refill:
  assumes "reader_at p s r" "kBlockSize - p < kHeaderSize" "\<not> eof r"
  shows "\<exists>r1. ReadPhysicalRecord read_file r = ReadPhysicalRecord read_file r1 \<and> reader_at 0 (drop (kBlockSize - p) s) r1 \<and>
    reports r1 = reports r"
proof -
  obtain f where f: "read_file (file_of r) kBlockSize = (OK, take kBlockSize (remaining (file_of r)), f)" "opened f"
      "remaining f = drop kBlockSize (remaining (file_of r))"
    using read_remaining [of "file_of r" kBlockSize] assms(1) by (auto simp: reader_at_def)
  let ?buf = "take kBlockSize (remaining (file_of r))"
  define r0 where "r0 = r\<lparr>file_of := f, buffer := ?buf, end_of_buffer_offset := end_of_buffer_offset r + word_of_nat (length ?buf)\<rparr>"
  define r1 where "r1 = (if length ?buf < kBlockSize then r0\<lparr>eof := True\<rparr> else r0)"
  have "length (buffer r) < kHeaderSize" using assms(1,2) by (simp add: reader_at_def)
  then have "ReadPhysicalRecord read_file r = ReadPhysicalRecord read_file r1"
    using assms(3) by (subst ReadPhysicalRecord.simps) (simp add: f(1) Let_def r0_def r1_def)
  moreover have "reader_at 0 (drop (kBlockSize - p) s) r1"
    using assms(1,3) f by (auto simp: reader_at_def r1_def r0_def)
  moreover have "reports r1 = reports r" by (simp add: r1_def r0_def)
  ultimately show ?thesis by blast
qed

lemma read_aligned:
  assumes "reader_at p (take n (frag_bytes t d @ x)) r" "p + kHeaderSize + length d \<le> kBlockSize" "t \<in> fragment_types"
  shows "if kHeaderSize + length d \<le> n then
      \<exists>r'. ReadPhysicalRecord read_file r = (scast t, d, r') \<and>
        reader_at (p + kHeaderSize + length d) (take (n - (kHeaderSize + length d)) x) r' \<and> reports r' = reports r
    else \<exists>ty r'. ReadPhysicalRecord read_file r = (ty, [], r') \<and>
        (ty = kEof \<or> ty = kBadRecord \<and> buffer r' = [] \<and> eof r')"
proof -
  let ?s = "take n (frag_bytes t d @ x)" and ?m = "kHeaderSize + length d"
  have l: "length (frag_bytes t d) = ?m" by (simp add: frag_bytes_def record_header_bytes(1))
  have buf: "buffer r = take (kBlockSize - p) ?s" and e: "eof r = (length ?s < kBlockSize - p)" and i: "initial_offset r = 0"
    using assms(1) by (simp_all add: reader_at_def)
  have d: "length d < 65536" using assms(2) by simp
  consider "?m \<le> n" | "n < kHeaderSize" | "kHeaderSize \<le> n" "n < ?m" by linarith
  then show ?thesis
  proof cases
    case 1
    have b: "buffer r = frag_bytes t d @ take (kBlockSize - p - ?m) (take (n - ?m) x)"
      using assms(2) 1 l by (simp add: buf min_def)
    then have "ReadPhysicalRecord read_file r = (scast t, d, r\<lparr>buffer := take (kBlockSize - p - ?m) (take (n - ?m) x)\<rparr>)"
      using parse_fragment [OF b assms(3) d i] l by (subst ReadPhysicalRecord.simps) simp
    moreover have "reader_at (p + ?m) (take (n - ?m) x) (r\<lparr>buffer := take (kBlockSize - p - ?m) (take (n - ?m) x)\<rparr>)"
      using assms(1,2) 1 l by (auto simp: reader_at_def)
    ultimately show ?thesis using 1 by (simp add: add.assoc)
  next
    case 2
    have "length (buffer r) < kHeaderSize" "eof r" using 2 assms(2) by (auto simp: buf e)
    then show ?thesis using 2 by (subst (2) ReadPhysicalRecord.simps) (auto simp: ReadPhysicalRecord.simps)
  next
    case 3
    have "?s = record_header type_crcs t d @ take (n - kHeaderSize) d"
      using 3 l record_header_bytes(1) [of type_crcs t d] by (simp add: frag_bytes_def)
    moreover have "length ?s \<le> kBlockSize - p" using 3 assms(2) by simp
    ultimately have b: "buffer r = record_header type_crcs t d @ take (n - kHeaderSize) d"
      unfolding buf by (simp only: take_all)
    have "length (take (n - kHeaderSize) d) < length d" using 3 by simp
    from parse_cut_fragment [OF b this d] obtain r' where "parse_physical r = (kBadRecord, [], r')" "buffer r' = []" "eof r' = eof r"
      by blast
    moreover have "eof r" using 3 assms(2) by (auto simp: e)
    moreover have "\<not> length (buffer r) < kHeaderSize" using b record_header_bytes(1) by simp
    ultimately show ?thesis using 3 by (simp add: ReadPhysicalRecord.simps)
  qed
qed

lemma read_fragment:
  assumes "reader_at p (take n (padding p @ frag_bytes t d @ x)) r" "frag_end p d \<le> kBlockSize" "t \<in> fragment_types"
  defines "m \<equiv> length (padding p) + kHeaderSize + length d"
  shows "if m \<le> n then
      \<exists>r'. ReadPhysicalRecord read_file r = (scast t, d, r') \<and> reader_at (frag_end p d) (take (n - m) x) r' \<and>
        reports r' = reports r
    else \<exists>ty r'. ReadPhysicalRecord read_file r = (ty, [], r') \<and>
        (ty = kEof \<or> ty = kBadRecord \<and> buffer r' = [] \<and> eof r')"
proof (cases "kBlockSize - p < kHeaderSize")
  case False
  then have pad: "padding p = []" and fe: "frag_end p d = p + kHeaderSize + length d"
    by (simp_all add: padding_def frag_start_def frag_end_def)
  have m: "m = kHeaderSize + length d" by (simp add: m_def pad)
  show ?thesis unfolding m fe by (rule read_aligned) (use assms(1-3) in \<open>simp_all add: pad fe\<close>)
next
  case True
  let ?k = "kBlockSize - p"
  have pad: "length (padding p) = ?k" and st: "frag_start p = 0" using True by (simp_all add: padding_def frag_start_def)
  have sz: "length (take n (padding p @ frag_bytes t d @ x)) = min n (?k + kHeaderSize + length d + length x)"
    by (simp add: pad frag_bytes_def record_header_bytes(1) min.commute del: take_append)
  show ?thesis
  proof (cases "eof r")
    case e: True
    then have n: "n < ?k" "length (buffer r) < kHeaderSize"
      using assms(1) True unfolding reader_at_def sz by auto
    then have "\<exists>r'. ReadPhysicalRecord read_file r = (kEof, [], r')"
      using e by (auto simp: ReadPhysicalRecord.simps)
    moreover have "\<not> m \<le> n" using n(1) unfolding m_def pad by linarith
    ultimately show ?thesis by auto
  next
    case False
    then have n: "?k \<le> n" using assms(1) True unfolding reader_at_def sz by auto
    obtain r1 where r1: "ReadPhysicalRecord read_file r = ReadPhysicalRecord read_file r1" "reports r1 = reports r"
        "reader_at 0 (drop ?k (take n (padding p @ frag_bytes t d @ x))) r1"
      using refill [OF assms(1) True False] by blast
    have "drop ?k (take n (padding p @ frag_bytes t d @ x)) = take (n - ?k) (frag_bytes t d @ x)"
      using n pad by (simp add: drop_take)
    with r1(3) read_aligned [of 0 "n - ?k" t d x r1] assms(2,3) n show ?thesis
      by (auto simp: r1(1,2) frag_end_def st m_def pad add.assoc split: if_splits)
  qed
qed

lemma read_end:
  assumes "reader_at p [] r"
  shows "\<exists>r'. ReadPhysicalRecord read_file r = (kEof, [], r') \<and> reports r' = reports r"
proof (cases "kBlockSize - p = 0")
  case True
  then have "\<not> eof r" using assms by (simp add: reader_at_def)
  then obtain r1 where "ReadPhysicalRecord read_file r = ReadPhysicalRecord read_file r1" "reports r1 = reports r" "reader_at 0 [] r1"
    using refill [OF assms] True by auto
  then show ?thesis by (simp add: reader_at_def ReadPhysicalRecord.simps [of _ r1])
next
  case False
  then show ?thesis using assms by (simp add: reader_at_def ReadPhysicalRecord.simps)
qed

lemma loop_stops: "buffer r = [] \<Longrightarrow> eof r \<Longrightarrow> \<exists>r'. ReadRecord_loop read_file r scratch f q = Some (None, r')"
  by (subst ReadRecord_loop.simps) (simp add: ReadPhysicalRecord.simps Let_def)

lemma loop_cut:
  assumes "ReadPhysicalRecord read_file r = (ty, [], r')" "ty = kEof \<or> ty = kBadRecord \<and> buffer r' = [] \<and> eof r'"
  shows "\<exists>r'. ReadRecord_loop read_file r scratch f q = Some (None, r')"
proof (cases "ty = kEof")
  case True
  then show ?thesis using assms(1) by (subst ReadRecord_loop.simps) (simp add: Let_def)
next
  case False
  define r2 where "r2 = ReportCorruption r' (length scratch) ''error in middle of record''"
  have b: "buffer r' = []" "eof r'" "buffer r2 = []" "eof r2" "ty = kBadRecord"
    using assms(2) False by (auto simp: r2_def ReportCorruption_def ReportDrop_def)
  have "ReadRecord_loop read_file r scratch f q =
      (if f then ReadRecord_loop read_file r2 [] False q else ReadRecord_loop read_file r' scratch f q)"
    using assms(1) b(5) by (subst ReadRecord_loop.simps) (simp add: Let_def r2_def)
  then show ?thesis using loop_stops b by auto
qed

lemma frag_length: "length (frag_bytes t d) = kHeaderSize + length d"
  by (simp add: frag_bytes_def record_header_bytes(1))

lemma reader_at_offset [simp]: "reader_at p s (r\<lparr>last_record_offset := q\<rparr>) = reader_at p s r"
  by (simp add: reader_at_def)

lemma loop_full:
  "ReadPhysicalRecord read_file r = (1, d, r1) \<Longrightarrow> ReadRecord_loop read_file r [] False q =
    Some (Some d, r1\<lparr>last_record_offset := end_of_buffer_offset r - word_of_nat (length (buffer r))\<rparr>)"
  by (subst ReadRecord_loop.simps) (simp add: Let_def unfinished_def)

lemma loop_last:
  "ReadPhysicalRecord read_file r = (4, d, r1) \<Longrightarrow> ReadRecord_loop read_file r scratch True q =
    Some (Some (scratch @ d), r1\<lparr>last_record_offset := q\<rparr>)"
  by (subst ReadRecord_loop.simps) (simp add: Let_def)

lemma read_record:
  assumes "splits first data fs" "fits p fs" "reader_at p (take n (layout p fs @ x)) r" "first \<longrightarrow> scratch = []"
  shows "if length (layout p fs) \<le> n then
      \<exists>r'. ReadRecord_loop read_file r scratch (\<not> first) q = Some (Some (scratch @ data), r') \<and>
        reader_at (layout_end p fs) (take (n - length (layout p fs)) x) r' \<and> reports r' = reports r
    else \<exists>r'. ReadRecord_loop read_file r scratch (\<not> first) q = Some (None, r')"
  using assms
proof (induction arbitrary: p n r scratch q rule: splits.induct)
  case (full d)
  from read_fragment [of p n 1 d x r] full show ?case
    by (auto simp: fragment_types_def frag_length loop_full add.assoc split: if_splits dest: loop_cut)
next
  case (first e fs d)
  let ?m = "length (padding p) + kHeaderSize + length d"
  have f: "frag_end p d \<le> kBlockSize" "fits (frag_end p d) fs"
    and at: "reader_at p (take n (padding p @ frag_bytes 2 d @ (layout (frag_end p d) fs @ x))) r"
    using first.prems by simp_all
  show ?case
  proof (cases "?m \<le> n")
    case True
    with read_fragment [OF at f(1)] obtain r1 where r1: "ReadPhysicalRecord read_file r = (2, d, r1)" "reports r1 = reports r"
        "reader_at (frag_end p d) (take (n - ?m) (layout (frag_end p d) fs @ x)) r1"
      by (auto simp: fragment_types_def)
    have "ReadRecord_loop read_file r scratch False q =
        ReadRecord_loop read_file r1 d True (end_of_buffer_offset r - word_of_nat (length (buffer r)))"
      using r1(1) by (subst ReadRecord_loop.simps) (simp add: Let_def unfinished_def)
    with first.IH [OF f(2) r1(3), of d] True r1(2) first.prems(3) show ?thesis
      by (auto simp: frag_length le_diff_conv2 diff_diff_eq add.commute add.left_commute)
  next
    case False
    with read_fragment [OF at f(1)] obtain ty r1 where "ReadPhysicalRecord read_file r = (ty, [], r1)"
        "ty = kEof \<or> ty = kBadRecord \<and> buffer r1 = [] \<and> eof r1" by (auto simp: fragment_types_def)
    from loop_cut [OF this] False show ?thesis by (simp add: frag_length)
  qed
next
  case (last d)
  from read_fragment [of p n 4 d x r] last show ?case
    by (auto simp: fragment_types_def frag_length loop_last add.assoc split: if_splits dest: loop_cut)
next
  case (middle e fs d)
  let ?m = "length (padding p) + kHeaderSize + length d"
  have f: "frag_end p d \<le> kBlockSize" "fits (frag_end p d) fs"
    and at: "reader_at p (take n (padding p @ frag_bytes 3 d @ (layout (frag_end p d) fs @ x))) r"
    using middle.prems by simp_all
  show ?case
  proof (cases "?m \<le> n")
    case True
    with read_fragment [OF at f(1)] obtain r1 where r1: "ReadPhysicalRecord read_file r = (3, d, r1)" "reports r1 = reports r"
        "reader_at (frag_end p d) (take (n - ?m) (layout (frag_end p d) fs @ x)) r1"
      by (auto simp: fragment_types_def)
    have "ReadRecord_loop read_file r scratch True q = ReadRecord_loop read_file r1 (scratch @ d) True q"
      using r1(1) by (subst ReadRecord_loop.simps) (simp add: Let_def)
    with middle.IH [OF f(2) r1(3), of "scratch @ d"] True r1(2) show ?thesis
      by (auto simp: frag_length le_diff_conv2 diff_diff_eq add.commute add.left_commute)
  next
    case False
    with read_fragment [OF at f(1)] obtain ty r1 where "ReadPhysicalRecord read_file r = (ty, [], r1)"
        "ty = kEof \<or> ty = kBadRecord \<and> buffer r1 = [] \<and> eof r1" by (auto simp: fragment_types_def)
    from loop_cut [OF this] False show ?thesis by (simp add: frag_length)
  qed
qed

lemma ReadRecord_plain: "initial_offset r = 0 \<Longrightarrow> ReadRecord read_file skip_file r = ReadRecord_loop read_file r [] False 0"
  by (simp add: ReadRecord_def)

lemma read_all_records:
  assumes "list_all2 (splits True) rs fss" "fits p (concat fss)" "reader_at p (take n (layout p (concat fss))) r"
  shows "\<exists>k r'. read_all read_file skip_file r = Some (take k rs, r') \<and>
    (\<forall>j \<le> length rs. length (layout p (concat (take j fss))) \<le> n \<longrightarrow> j \<le> k) \<and>
    (length (layout p (concat fss)) \<le> n \<longrightarrow> reports r' = reports r)"
  using assms
proof (induction arbitrary: p n r rule: list_all2_induct)
  case Nil
  then have "reader_at p [] r" by simp
  from read_end [OF this] obtain r' where r': "ReadPhysicalRecord read_file r = (kEof, [], r')" "reports r' = reports r" by blast
  then have "ReadRecord_loop read_file r [] False 0 = Some (None, r')"
    by (subst ReadRecord_loop.simps) (simp add: Let_def)
  then have "read_all read_file skip_file r = Some ([], r')"
    using Nil by (subst read_all.simps) (simp add: ReadRecord_plain reader_at_def)
  with r'(2) show ?case by simp
next
  case (Cons d rs fs fss)
  let ?l = "length (layout p fs)"
  have f: "fits p fs" "fits (layout_end p fs) (concat fss)" using Cons.prems(1) by simp_all
  have at: "reader_at p (take n (layout p fs @ layout (layout_end p fs) (concat fss))) r"
    using Cons.prems(2) by (simp add: layout_append)
  have i: "initial_offset r = 0" using at by (simp add: reader_at_def)
  have cut: "length (layout p (concat (take j (fs # fss)))) =
      (case j of 0 \<Rightarrow> 0 | Suc j \<Rightarrow> ?l + length (layout (layout_end p fs) (concat (take j fss))))" for j
    by (simp add: layout_append split: nat.split)
  show ?case
  proof (cases "?l \<le> n")
    case True
    with read_record [OF Cons.hyps(1) f(1) at, of "[]" 0] obtain r1 where
        r1: "ReadRecord_loop read_file r [] False 0 = Some (Some d, r1)" "reports r1 = reports r"
        "reader_at (layout_end p fs) (take (n - ?l) (layout (layout_end p fs) (concat fss))) r1" by auto
    from Cons.IH [OF f(2) r1(3)] obtain k r' where k: "read_all read_file skip_file r1 = Some (take k rs, r')"
        "\<forall>j \<le> length rs. length (layout (layout_end p fs) (concat (take j fss))) \<le> n - ?l \<longrightarrow> j \<le> k"
        "length (layout (layout_end p fs) (concat fss)) \<le> n - ?l \<longrightarrow> reports r' = reports r1" by blast
    have "read_all read_file skip_file r = Some (take (Suc k) (d # rs), r')"
      by (subst read_all.simps) (simp add: ReadRecord_plain [OF i] r1(1) k(1))
    moreover have "\<forall>j \<le> length (d # rs). length (layout p (concat (take j (fs # fss)))) \<le> n \<longrightarrow> j \<le> Suc k"
      using k(2) unfolding cut by (auto split: nat.splits)
    moreover have "length (layout p (concat (fs # fss))) \<le> n \<longrightarrow> reports r' = reports r"
      using k(3) r1(2) by (auto simp: layout_append)
    ultimately show ?thesis by blast
  next
    case False
    with read_record [OF Cons.hyps(1) f(1) at, of "[]" 0] obtain r' where
        "ReadRecord_loop read_file r [] False 0 = Some (None, r')" by auto
    then have "read_all read_file skip_file r = Some (take 0 (d # rs), r')"
      by (subst read_all.simps) (simp add: ReadRecord_plain [OF i])
    moreover have "\<forall>j \<le> length (d # rs). length (layout p (concat (take j (fs # fss)))) \<le> n \<longrightarrow> j \<le> 0"
      using False unfolding cut by (auto split: nat.splits)
    moreover have "\<not> length (layout p (concat (fs # fss))) \<le> n" using False by (simp add: layout_append)
    ultimately show ?thesis by blast
  qed
qed

text \<open>Whatever the file holds, reading ends.\<close>

definition amount :: "'r Reader \<Rightarrow> nat" where
  "amount r = length (buffer r) + length (remaining (file_of r))"

lemma report_keeps [simp]:
  "amount (ReportDrop r n s) = amount r" "file_of (ReportDrop r n s) = file_of r"
  "amount (ReportCorruption r n c) = amount r" "file_of (ReportCorruption r n c) = file_of r"
  "amount (unfinished b sc c r) = amount r" "file_of (unfinished b sc c r) = file_of r"
  "amount (r\<lparr>last_record_offset := q\<rparr>) = amount r"
  by (simp_all add: ReportDrop_def ReportCorruption_def unfinished_def amount_def)

lemma parse_progress:
  assumes "kHeaderSize \<le> length (buffer r)" "parse_physical r = (ty, d, r')"
  shows "file_of r' = file_of r \<and> length (buffer r') < length (buffer r)"
proof -
  have "r' = snd (snd (parse_physical r))" using assms(2) by simp
  then show ?thesis using assms(1) by (auto simp: parse_physical_def Let_def ReportCorruption_def ReportDrop_def)
qed

lemma refill_progress:
  assumes "opened (file_of r)" "length (buffer r) < kHeaderSize" "\<not> eof r"
  shows "\<exists>r1. ReadPhysicalRecord read_file r = ReadPhysicalRecord read_file r1 \<and> opened (file_of r1) \<and> amount r1 \<le> amount r \<and>
    (kHeaderSize \<le> length (buffer r1) \<or> eof r1)"
proof -
  obtain f where f: "read_file (file_of r) kBlockSize = (OK, take kBlockSize (remaining (file_of r)), f)" "opened f"
      "remaining f = drop kBlockSize (remaining (file_of r))"
    using read_remaining [OF assms(1)] by blast
  let ?buf = "take kBlockSize (remaining (file_of r))"
  define r0 where "r0 = r\<lparr>file_of := f, buffer := ?buf, end_of_buffer_offset := end_of_buffer_offset r + word_of_nat (length ?buf)\<rparr>"
  define r1 where "r1 = (if length ?buf < kBlockSize then r0\<lparr>eof := True\<rparr> else r0)"
  have "ReadPhysicalRecord read_file r = ReadPhysicalRecord read_file r1"
    using assms(2,3) by (subst ReadPhysicalRecord.simps) (simp add: f(1) Let_def r0_def r1_def)
  moreover have "amount r1 \<le> amount r" "opened (file_of r1)" by (auto simp: amount_def r1_def r0_def f)
  moreover have "kHeaderSize \<le> length (buffer r1) \<or> eof r1" by (auto simp: r1_def r0_def)
  ultimately show ?thesis by blast
qed

lemma physical_progress:
  assumes "opened (file_of r)" "ReadPhysicalRecord read_file r = (ty, d, r')"
  shows "opened (file_of r') \<and> amount r' \<le> amount r \<and> (ty = kEof \<or> amount r' < amount r)"
proof -
  have main: "opened (file_of r') \<and> amount r' \<le> amount q \<and> (ty = kEof \<or> amount r' < amount q)"
    if "opened (file_of q)" "ReadPhysicalRecord read_file q = (ty, d, r')" "kHeaderSize \<le> length (buffer q) \<or> eof q" for q
  proof (cases "kHeaderSize \<le> length (buffer q)")
    case True
    with that(2) have "parse_physical q = (ty, d, r')" by (simp add: ReadPhysicalRecord.simps)
    from parse_progress [OF True this] that(1) show ?thesis by (simp add: amount_def)
  next
    case False
    with that(3) have "eof q" "length (buffer q) < kHeaderSize" by auto
    with that(1,2) show ?thesis by (auto simp: ReadPhysicalRecord.simps amount_def ReportCorruption_def ReportDrop_def split: if_splits)
  qed
  show ?thesis
  proof (cases "kHeaderSize \<le> length (buffer r) \<or> eof r")
    case False
    then have "length (buffer r) < kHeaderSize" "\<not> eof r" by simp_all
    from refill_progress [OF assms(1) this] obtain r1 where r1: "ReadPhysicalRecord read_file r = ReadPhysicalRecord read_file r1"
      "opened (file_of r1)" "amount r1 \<le> amount r" "kHeaderSize \<le> length (buffer r1) \<or> eof r1" by blast
    from main [OF r1(2) _ r1(4)] assms(2) r1(1,3) show ?thesis by auto
  next
    case True
    then show ?thesis by (intro main assms)
  qed
qed

lemma loop_returns:
  "opened (file_of r) \<Longrightarrow> \<exists>rec r'. ReadRecord_loop read_file r scratch f q = Some (rec, r') \<and> opened (file_of r') \<and>
    (rec = None \<or> amount r' < amount r)"
proof (induction "amount r" arbitrary: r scratch f q rule: less_induct)
  case less
  obtain ty d r1 where p: "ReadPhysicalRecord read_file r = (ty, d, r1)" by (rule prod_cases3)
  note prog = physical_progress [OF less.prems p]
  have IH: "\<exists>rec r'. ReadRecord_loop read_file r2 scratch f q = Some (rec, r') \<and> opened (file_of r') \<and>
      (rec = None \<or> amount r' < amount r)" if "ty \<noteq> kEof" "amount r2 = amount r1" "file_of r2 = file_of r1" for r2 scratch f q
  proof -
    have "amount r2 < amount r" "opened (file_of r2)" using that prog by simp_all
    from less.hyps [OF this, of scratch f q] obtain rec r' where
        "ReadRecord_loop read_file r2 scratch f q = Some (rec, r')" "opened (file_of r')" "rec = None \<or> amount r' < amount r2"
      by (elim exE conjE)
    with \<open>amount r2 < amount r\<close> show ?thesis by auto
  qed
  define loop where "loop = ReadRecord_loop read_file r scratch f q"
  note unroll = loop_def [THEN trans, OF ReadRecord_loop.simps, unfolded p Let_def prod.case]
  consider "ty = 1" | "ty = 4" f | "ty = kEof" | "ty = 2" | "ty = 3" f | "ty = 3" "\<not> f" | "ty = 4" "\<not> f" | "ty = kBadRecord" f
    | "ty = kBadRecord" "\<not> f" | "ty \<noteq> 1" "ty \<noteq> 2" "ty \<noteq> 3" "ty \<noteq> 4" "ty \<noteq> kEof" "ty \<noteq> kBadRecord" by blast
  then have "\<exists>rec r'. loop = Some (rec, r') \<and> opened (file_of r') \<and> (rec = None \<or> amount r' < amount r)"
  proof cases
    case 1
    then show ?thesis unfolding unroll using prog by simp
  next
    case 2
    then show ?thesis unfolding unroll using prog by simp
  next
    case 3
    then show ?thesis unfolding unroll using prog by simp
  next
    case 4
    then have "loop = ReadRecord_loop read_file (unfinished f scratch ''partial record without end(2)'' r1) d True (end_of_buffer_offset r - word_of_nat (length (buffer r)))"
      unfolding unroll by simp
    then show ?thesis using IH [of "unfinished f scratch ''partial record without end(2)'' r1"] 4 by simp
  next
    case 5
    then have "loop = ReadRecord_loop read_file (r1) (scratch @ d) f q"
      unfolding unroll by simp
    then show ?thesis using IH [of "r1"] 5 by simp
  next
    case 6
    then have "loop = ReadRecord_loop read_file (ReportCorruption r1 (length d) ''missing start of fragmented record(1)'') scratch f q"
      unfolding unroll by simp
    then show ?thesis using IH [of "ReportCorruption r1 (length d) ''missing start of fragmented record(1)''"] 6 by simp
  next
    case 7
    then have "loop = ReadRecord_loop read_file (ReportCorruption r1 (length d) ''missing start of fragmented record(2)'') scratch f q"
      unfolding unroll by simp
    then show ?thesis using IH [of "ReportCorruption r1 (length d) ''missing start of fragmented record(2)''"] 7 by simp
  next
    case 8
    then have "loop = ReadRecord_loop read_file (ReportCorruption r1 (length scratch) ''error in middle of record'') [] False q"
      unfolding unroll by simp
    then show ?thesis using IH [of "ReportCorruption r1 (length scratch) ''error in middle of record''"] 8 by simp
  next
    case 9
    then have "loop = ReadRecord_loop read_file (r1) scratch f q"
      unfolding unroll by simp
    then show ?thesis using IH [of "r1"] 9 by simp
  next
    case 10
    then have "loop = ReadRecord_loop read_file (ReportCorruption r1 (length d + (if f then length scratch else 0)) ''unknown record type'') [] False q"
      unfolding unroll by simp
    then show ?thesis using IH [of "ReportCorruption r1 (length d + (if f then length scratch else 0)) ''unknown record type''"] 10 by simp
  qed
  then show ?case by (simp only: loop_def)
qed

lemma skip_progress:
  assumes "opened (file_of r)" "SkipToInitialBlock skip_file r = (ok, r')"
  shows "opened (file_of r') \<and> amount r' \<le> amount r"
proof -
  define loc where "loc = (if unat (initial_offset r mod word_of_nat kBlockSize) > kBlockSize - 6
    then initial_offset r - initial_offset r mod word_of_nat kBlockSize + word_of_nat kBlockSize
    else initial_offset r - initial_offset r mod word_of_nat kBlockSize)"
  obtain f where f: "skip_file (file_of r) (unat loc) = (OK, f)" "opened f" "remaining f = drop (unat loc) (remaining (file_of r))"
    using skip_remaining [OF assms(1)] by blast
  have "SkipToInitialBlock skip_file r =
      (True, if loc > 0 then r\<lparr>end_of_buffer_offset := loc, file_of := f\<rparr> else r\<lparr>end_of_buffer_offset := loc\<rparr>)"
    unfolding SkipToInitialBlock_def Let_def loc_def [symmetric] by (simp add: f(1))
  with assms f(2,3) show ?thesis by (auto simp: amount_def)
qed

lemma ReadRecord_returns:
  assumes "opened (file_of r)"
  shows "\<exists>rec r'. ReadRecord read_file skip_file r = Some (rec, r') \<and> opened (file_of r') \<and> (rec = None \<or> amount r' < amount r)"
proof (cases "last_record_offset r < initial_offset r")
  case True
  obtain ok r1 where s: "SkipToInitialBlock skip_file r = (ok, r1)" by (rule prod.exhaust)
  note p = skip_progress [OF assms s]
  show ?thesis
  proof (cases ok)
    case True
    with p loop_returns [of r1 "[]" False 0] obtain rec r' where
        "ReadRecord_loop read_file r1 [] False 0 = Some (rec, r')" "opened (file_of r')" "rec = None \<or> amount r' < amount r1" by blast
    with True p s \<open>last_record_offset r < initial_offset r\<close> show ?thesis by (auto simp: ReadRecord_def)
  next
    case False
    with p s \<open>last_record_offset r < initial_offset r\<close> show ?thesis by (simp add: ReadRecord_def)
  qed
next
  case False
  then show ?thesis using loop_returns [OF assms] by (simp add: ReadRecord_def)
qed

lemma read_all_returns: "opened (file_of r) \<Longrightarrow> \<exists>res. read_all read_file skip_file r = Some res"
proof (induction "amount r" arbitrary: r rule: less_induct)
  case less
  from ReadRecord_returns [OF less.prems] obtain rec r' where
      r: "ReadRecord read_file skip_file r = Some (rec, r')" "opened (file_of r')" "rec = None \<or> amount r' < amount r" by blast
  show ?case
  proof (cases rec)
    case None
    with r show ?thesis by (subst read_all.simps) simp
  next
    case (Some d)
    with r less.hyps [of r'] obtain recs r2 where "read_all read_file skip_file r' = Some (recs, r2)" by fastforce
    with r(1) Some show ?thesis by (subst read_all.simps) simp
  qed
qed

end

section \<open>The log as a whole\<close>

text \<open>A log with some records, and a reader for a file with some contents.\<close>

primrec write_log ::
    "('w \<Rightarrow> slice \<Rightarrow> Status \<times> 'w) \<Rightarrow> ('w \<Rightarrow> Status \<times> 'w) \<Rightarrow> 'w Writer \<Rightarrow> slice list \<Rightarrow> 'w Writer" where
  "write_log append_file flush_file w [] = w"
| "write_log append_file flush_file w (d # ds) = write_log append_file flush_file (snd (AddRecord append_file flush_file w d)) ds"

context reliable_file
begin

lemma write_log_bytes:
  assumes "writer_ok w" "block_offset w \<le> kBlockSize"
  shows "\<exists>fss. list_all2 (splits True) ds fss \<and> fits (block_offset w) (concat fss) \<and>
    (\<forall>j. contents (dest (write_log append_file flush_file w (take j ds))) =
       contents (dest w) @ layout (block_offset w) (concat (take j fss)))"
  using assms
proof (induction ds arbitrary: w)
  case (Cons d ds)
  obtain w' fs where w': "AddRecord append_file flush_file w d = (OK, w')" "writer_ok w'" "splits True d fs"
      "fits (block_offset w) fs" "contents (dest w') = contents (dest w) @ layout (block_offset w) fs"
      "block_offset w' = layout_end (block_offset w) fs" "block_offset w' \<le> kBlockSize"
    using AddRecord_bytes [OF Cons.prems] by blast
  from Cons.IH [OF w'(2,7)] obtain fss where f: "list_all2 (splits True) ds fss" "fits (block_offset w') (concat fss)"
      "\<And>j. contents (dest (write_log append_file flush_file w' (take j ds))) =
        contents (dest w') @ layout (block_offset w') (concat (take j fss))" by blast
  have "contents (dest (write_log append_file flush_file w (take j (d # ds)))) =
      contents (dest w) @ layout (block_offset w) (concat (take j (fs # fss)))" for j
    using f(3) w'(1,5,6) by (cases j) (simp_all add: layout_append)
  with f(1,2) w'(3,4,6) show ?case by (intro exI [of _ "fs # fss"]) simp
qed simp

end

interpretation memlog: reliable_file WritableFileImpl_Append WritableFileImpl_Flush file_bytes file_ok
  by unfold_locales (simp_all add: WritableFileImpl_Append_def WritableFileImpl_Flush_def)

definition mem_log :: "slice list \<Rightarrow> slice" where
  "mem_log ds = file_bytes (dest (write_log WritableFileImpl_Append WritableFileImpl_Flush (Writer_new FileState_new) ds))"

definition mem_reader :: "bool \<Rightarrow> bool \<Rightarrow> uint64 \<Rightarrow> slice \<Rightarrow> SequentialFileImpl Reader" where
  "mem_reader reporter check initial bytes =
    Reader_new (SequentialFileImpl_new (FileState_Append FileState_new bytes)) reporter check initial"

abbreviation mem_read_all :: "SequentialFileImpl Reader \<Rightarrow> (slice list \<times> SequentialFileImpl Reader) option" where
  "mem_read_all \<equiv> read_all SequentialFileImpl_Read SequentialFileImpl_Skip"

lemma mem_opened: "seq_opened (file_of (mem_reader reporter check initial bytes))"
  "seq_remaining (file_of (mem_reader reporter check initial bytes)) = bytes"
  using Append_bytes [of FileState_new bytes]
  by (simp_all add: mem_reader_def Reader_new_def SequentialFileImpl_new_def seq_opened_def seq_remaining_def)

lemma mem_reader_at: "memfile.reader_at kBlockSize bytes (mem_reader reporter check 0 bytes)"
  using mem_opened [of reporter check 0 bytes]
  by (simp add: memfile.reader_at_def) (simp add: mem_reader_def Reader_new_def)

lemma layout_start: "layout kBlockSize fs = layout 0 fs" "fits kBlockSize fs = fits 0 fs"
  by (cases fs; simp add: padding_def frag_end_def frag_start_def)+

lemma mem_log_layout:
  "\<exists>fss. list_all2 (splits True) ds fss \<and> fits kBlockSize (concat fss) \<and> (\<forall>j. mem_log (take j ds) = layout kBlockSize (concat (take j fss)))"
  using memlog.write_log_bytes [of "Writer_new FileState_new" ds]
  by (simp add: memlog.writer_ok_def Writer_new_def type_crcs_def mem_log_def layout_start)

text \<open>C4: a log is read back as it was written: the reader returns the records that were added, of any lengths and in
  their order, and reports no corruption, whether it verifies the checksums or not.\<close>

theorem log_roundtrip:
  "\<exists>r. mem_read_all (mem_reader reporter check 0 (mem_log ds)) = Some (ds, r) \<and> reports r = []"
proof -
  obtain fss where f: "list_all2 (splits True) ds fss" "fits kBlockSize (concat fss)"
      "\<And>j. mem_log (take j ds) = layout kBlockSize (concat (take j fss))" using mem_log_layout by blast
  have len: "length fss = length ds" using f(1) by (simp add: list_all2_lengthD)
  have l: "mem_log ds = layout kBlockSize (concat fss)" using f(3) [of "length ds"] len by simp
  let ?r = "mem_reader reporter check 0 (mem_log ds)" and ?n = "length (mem_log ds)"
  have "memfile.reader_at kBlockSize (take ?n (layout kBlockSize (concat fss))) ?r"
    using mem_reader_at [of "mem_log ds" reporter check] l by simp
  from memfile.read_all_records [OF f(1,2) this] obtain k r where
      k: "mem_read_all ?r = Some (take k ds, r)" "\<forall>j \<le> length ds. length (layout kBlockSize (concat (take j fss))) \<le> ?n \<longrightarrow> j \<le> k"
      "reports r = reports ?r" using l by auto
  have "length ds \<le> k" using k(2) len l by auto
  then show ?thesis using k(1,3) by (simp add: mem_reader_def Reader_new_def)
qed

text \<open>C5: a log of which only the first \<open>n\<close> bytes reached the disk gives the records in front of the cut and no others:
  reading returns a prefix of the records, with at least every record that was complete.\<close>

theorem log_cut_prefix:
  "\<exists>k r. mem_read_all (mem_reader reporter check 0 (take n (mem_log ds))) = Some (take k ds, r) \<and>
    (\<forall>j \<le> length ds. length (mem_log (take j ds)) \<le> n \<longrightarrow> j \<le> k)"
proof -
  obtain fss where f: "list_all2 (splits True) ds fss" "fits kBlockSize (concat fss)"
      "\<And>j. mem_log (take j ds) = layout kBlockSize (concat (take j fss))" using mem_log_layout by blast
  have "length fss = length ds" using f(1) by (simp add: list_all2_lengthD)
  then have l: "mem_log ds = layout kBlockSize (concat fss)" using f(3) [of "length ds"] by simp
  have "memfile.reader_at kBlockSize (take n (layout kBlockSize (concat fss))) (mem_reader reporter check 0 (take n (mem_log ds)))"
    using mem_reader_at [of "take n (mem_log ds)" reporter check] l by simp
  from memfile.read_all_records [OF f(1,2) this] show ?thesis using f(3) by auto
qed

theorem log_cut_prefix_witness:
  "\<exists>k r. mem_read_all (mem_reader True True 0 (take (length (mem_log [str ''ab'', []])) (mem_log [str ''ab'', []]))) =
    Some (take k [str ''ab'', []], r) \<and> 2 \<le> k"
proof -
  have "2 \<le> length [str ''ab'', []]" "length (mem_log (take 2 [str ''ab'', []])) \<le> length (mem_log [str ''ab'', []])" by simp_all
  with log_cut_prefix [of True True "length (mem_log [str ''ab'', []])" "[str ''ab'', []]"] show ?thesis by meson
qed

text \<open>C19: whatever bytes a log file holds and wherever reading starts, reading it comes to an end.\<close>

theorem log_read_returns: "\<exists>ds r. mem_read_all (mem_reader reporter check initial bytes) = Some (ds, r)"
  using memfile.read_all_returns [OF mem_opened(1)] by fast

text \<open>A record of type 5 with a good checksum ends the log without a report, and what follows it is not read: the type is
  taken for the code \<open>kEof\<close>, which \<open>ReadPhysicalRecord\<close> returns in the same variable.\<close>

lemma log_type_5:
  assumes "kHeaderSize + length d + length x \<le> kBlockSize"
  shows "\<exists>r. mem_read_all (mem_reader True True 0
      (record_header (map (\<lambda>i. Value [word_of_nat i]) [0..<6]) 5 d @ d @ x)) = Some ([], r) \<and> reports r = []"
proof -
  let ?h = "record_header (map (\<lambda>i. Value [word_of_nat i]) [0..<6]) 5 d"
  define r where "r = mem_reader True True 0 (?h @ d @ x)"
  have at: "memfile.reader_at kBlockSize (?h @ d @ x) r" unfolding r_def by (rule mem_reader_at)
  then have "\<not> eof r" by (simp add: memfile.reader_at_def)
  from memfile.refill [OF at _ this] obtain r1 where r1: "reports r1 = reports r" "memfile.reader_at 0 (?h @ d @ x) r1"
      "ReadPhysicalRecord SequentialFileImpl_Read r = ReadPhysicalRecord SequentialFileImpl_Read r1" by auto
  have b: "buffer r1 = ?h @ d @ x" "initial_offset r1 = 0"
    using r1(2) assms record_header_bytes(1) [of "map (\<lambda>i. Value [word_of_nat i]) [0..<6]" 5 d] by (simp_all add: memfile.reader_at_def)
  have "parse_physical r1 = (5, d, r1\<lparr>buffer := x\<rparr>)"
    using parse_record [OF b(1) _ _ _ b(2)] assms by simp
  then have "ReadPhysicalRecord SequentialFileImpl_Read r = (kEof, d, r1\<lparr>buffer := x\<rparr>)"
    unfolding r1(3) using b(1) record_header_bytes(1) by (subst ReadPhysicalRecord.simps) simp
  then have "ReadRecord_loop SequentialFileImpl_Read r [] False 0 = Some (None, r1\<lparr>buffer := x\<rparr>)"
    by (subst ReadRecord_loop.simps) (simp add: Let_def)
  moreover have "initial_offset r = 0" "reports r = []" by (simp_all add: r_def mem_reader_def Reader_new_def)
  ultimately have "mem_read_all r = Some ([], r1\<lparr>buffer := x\<rparr>)" by (subst read_all.simps) (simp add: ReadRecord_def)
  with r1(1) \<open>reports r = []\<close> show ?thesis by (simp add: r_def)
qed

end
