(* ===== verification/Ldb_Format.thy ===== *)
theory Ldb_Format
  imports Ldb_Coding
begin

text \<open>
  Comparators and the format of internal keys: \<open>Slice::compare\<close> of \<^verbatim>\<open>src/leveldb-1.12.0/include/leveldb/slice.h\<close>, the bytewise
  comparator of \<^verbatim>\<open>util/comparator.cc\<close>, and \<^verbatim>\<open>db/dbformat.h\<close> and \<^verbatim>\<open>db/dbformat.cc\<close>. An internal key is a user key followed by
  eight bytes with a sequence number and a type.
\<close>

section \<open>Comparators\<close>

text \<open>What users of a \<open>Comparator\<close> rely on: a total order in which distinct keys may be equal.\<close>

locale comparator =
  fixes compare :: "'k \<Rightarrow> 'k \<Rightarrow> int"
  assumes compare_swap: "compare a b > 0 \<longleftrightarrow> compare b a < 0"
    and compare_trans: "compare a b \<le> 0 \<Longrightarrow> compare b c \<le> 0 \<Longrightarrow> compare a c \<le> 0"
begin

lemma compare_refl [simp]: "compare a a = 0"
  using compare_swap [of a a] by linarith

lemma compare_not_less: "\<not> compare a b < 0 \<longleftrightarrow> compare b a \<le> 0"
  using compare_swap [of b a] by linarith

lemma compare_0_swap: "compare a b = 0 \<longleftrightarrow> compare b a = 0"
  using compare_swap [of a b] compare_swap [of b a] by linarith

lemma compare_less_le: "compare a b < 0 \<Longrightarrow> compare b c \<le> 0 \<Longrightarrow> compare a c < 0"
  using compare_not_less compare_trans by blast

lemma compare_le_less: "compare a b \<le> 0 \<Longrightarrow> compare b c < 0 \<Longrightarrow> compare a c < 0"
  using compare_not_less compare_trans by blast

lemma compare_less_trans: "compare a b < 0 \<Longrightarrow> compare b c < 0 \<Longrightarrow> compare a c < 0"
  using compare_less_le by simp

lemma compare_0_trans: "compare a b = 0 \<Longrightarrow> compare b c = 0 \<Longrightarrow> compare a c = 0"
proof -
  assume 0: "compare a b = 0" "compare b c = 0"
  then have "compare c b = 0" "compare b a = 0" using compare_0_swap by simp_all
  then have "compare a c \<le> 0" "compare c a \<le> 0" using 0 compare_trans [of a b c] compare_trans [of c b a] by simp_all
  then show ?thesis using compare_not_less [of a c] by linarith
qed

end

text \<open>The sign of \<open>memcmp\<close> is that of the first difference, as unsigned bytes.\<close>

fun memcmp_slice :: "slice \<Rightarrow> slice \<Rightarrow> int" where
  "memcmp_slice (a # as) (b # bs) = (if a < b then - 1 else if b < a then 1 else memcmp_slice as bs)"
| "memcmp_slice _ _ = 0"

definition Slice_compare :: "slice \<Rightarrow> slice \<Rightarrow> int" where
  "Slice_compare a b =
    (let min_len = (if length a < length b then length a else length b);
         r = memcmp_slice (take min_len a) (take min_len b)
     in if r = 0 then if length a < length b then - 1 else if length a > length b then 1 else r else r)"

definition BytewiseComparator_Compare :: "slice \<Rightarrow> slice \<Rightarrow> int" where
  "BytewiseComparator_Compare a b = Slice_compare a b"

text \<open>The index of the first difference, or the length of the shorter string.\<close>

fun diff_index_loop :: "slice \<Rightarrow> slice \<Rightarrow> nat" where
  "diff_index_loop (a # as) (b # bs) = (if a = b then Suc (diff_index_loop as bs) else 0)"
| "diff_index_loop _ _ = 0"

definition BytewiseComparator_FindShortestSeparator :: "slice \<Rightarrow> slice \<Rightarrow> slice" where
  "BytewiseComparator_FindShortestSeparator start limit =
    (let min_length = min (length start) (length limit);
         diff_index = diff_index_loop start limit
     in if diff_index \<ge> min_length then start
        else
          let diff_byte = start ! diff_index in
          if diff_byte < 0xff \<and> unat diff_byte + 1 < unat (limit ! diff_index) then take diff_index start @ [diff_byte + 1]
          else start)"

primrec FindShortSuccessor_loop :: "slice \<Rightarrow> slice option" where
  "FindShortSuccessor_loop [] = None"
| "FindShortSuccessor_loop (byte # key) =
    (if byte \<noteq> 0xff then Some [byte + 1] else map_option (\<lambda>k. byte # k) (FindShortSuccessor_loop key))"

definition BytewiseComparator_FindShortSuccessor :: "slice \<Rightarrow> slice" where
  "BytewiseComparator_FindShortSuccessor key = (case FindShortSuccessor_loop key of None \<Rightarrow> key | Some k \<Rightarrow> k)"

section \<open>Internal keys\<close>

type_synonym SequenceNumber = uint64

abbreviation (input) kTypeDeletion :: u_char where "kTypeDeletion \<equiv> 0"
abbreviation (input) kTypeValue :: u_char where "kTypeValue \<equiv> 1"
abbreviation (input) kValueTypeForSeek :: u_char where "kValueTypeForSeek \<equiv> kTypeValue"

definition kMaxSequenceNumber :: SequenceNumber where
  "kMaxSequenceNumber = push_bit 56 1 - 1"

definition PackSequenceAndType :: "SequenceNumber \<Rightarrow> u_char \<Rightarrow> uint64" where
  "PackSequenceAndType seq t = push_bit 8 seq OR ucast t"

record ParsedInternalKey =
  pik_user_key :: slice
  pik_sequence :: SequenceNumber
  pik_type :: u_char

definition AppendInternalKey :: "slice \<Rightarrow> ParsedInternalKey \<Rightarrow> slice" where
  "AppendInternalKey result key =
    PutFixed64 (result @ pik_user_key key) (PackSequenceAndType (pik_sequence key) (pik_type key))"

definition ExtractUserKey :: "slice \<Rightarrow> slice" where
  "ExtractUserKey internal_key = take (length internal_key - 8) internal_key"

definition key_num :: "slice \<Rightarrow> uint64" where
  "key_num internal_key = DecodeFixed64 (drop (length internal_key - 8) internal_key)"

definition ExtractValueType :: "slice \<Rightarrow> u_char" where
  "ExtractValueType internal_key = ucast (key_num internal_key AND 0xff)"

definition ParseInternalKey :: "slice \<Rightarrow> ParsedInternalKey option" where
  "ParseInternalKey internal_key =
    (let n = length internal_key in
     if n < 8 then None
     else
       let num = key_num internal_key;
           c = ucast (num AND 0xff) :: u_char;
           result = \<lparr>pik_user_key = take (n - 8) internal_key, pik_sequence = drop_bit 8 num, pik_type = c\<rparr>
       in if c \<le> kTypeValue then Some result else None)"

definition InternalKeyComparator_Compare :: "(slice \<Rightarrow> slice \<Rightarrow> int) \<Rightarrow> slice \<Rightarrow> slice \<Rightarrow> int" where
  "InternalKeyComparator_Compare user_compare akey bkey =
    (let r = user_compare (ExtractUserKey akey) (ExtractUserKey bkey) in
     if r = 0 then
       let anum = key_num akey; bnum = key_num bkey in
       if anum > bnum then - 1 else if anum < bnum then 1 else r
     else r)"

definition InternalKeyComparator_FindShortestSeparator ::
    "(slice \<Rightarrow> slice \<Rightarrow> int) \<Rightarrow> (slice \<Rightarrow> slice \<Rightarrow> slice) \<Rightarrow> slice \<Rightarrow> slice \<Rightarrow> slice" where
  "InternalKeyComparator_FindShortestSeparator user_compare user_separator start limit =
    (let user_start = ExtractUserKey start;
         user_limit = ExtractUserKey limit;
         tmp = user_separator user_start user_limit
     in if length tmp < length user_start \<and> user_compare user_start tmp < 0 then
          PutFixed64 tmp (PackSequenceAndType kMaxSequenceNumber kValueTypeForSeek)
        else start)"

definition InternalKeyComparator_FindShortSuccessor ::
    "(slice \<Rightarrow> slice \<Rightarrow> int) \<Rightarrow> (slice \<Rightarrow> slice) \<Rightarrow> slice \<Rightarrow> slice" where
  "InternalKeyComparator_FindShortSuccessor user_compare user_successor key =
    (let user_key = ExtractUserKey key;
         tmp = user_successor user_key
     in if length tmp < length user_key \<and> user_compare user_key tmp < 0 then
          PutFixed64 tmp (PackSequenceAndType kMaxSequenceNumber kValueTypeForSeek)
        else key)"

text \<open>The array that a \<open>LookupKey\<close> builds, and its parts.\<close>

definition LookupKey_memtable_key :: "slice \<Rightarrow> SequenceNumber \<Rightarrow> slice" where
  "LookupKey_memtable_key user_key s =
    EncodeVarint32 (word_of_nat (length user_key + 8)) @ user_key @ EncodeFixed64 (PackSequenceAndType s kValueTypeForSeek)"

definition LookupKey_internal_key :: "slice \<Rightarrow> SequenceNumber \<Rightarrow> slice" where
  "LookupKey_internal_key user_key s =
    drop (length (EncodeVarint32 (word_of_nat (length user_key + 8)))) (LookupKey_memtable_key user_key s)"

definition LookupKey_user_key :: "slice \<Rightarrow> SequenceNumber \<Rightarrow> slice" where
  "LookupKey_user_key user_key s =
    (let k = LookupKey_internal_key user_key s in take (length k - 8) k)"

section \<open>The bytewise order\<close>

lemma Slice_compare_simps [simp]:
  "Slice_compare [] [] = 0" "Slice_compare [] (b # bs) = - 1" "Slice_compare (a # as) [] = 1"
  "Slice_compare (a # as) (b # bs) = (if a < b then - 1 else if b < a then 1 else Slice_compare as bs)"
  by (simp_all add: Slice_compare_def Let_def)

lemma Slice_compare_0 [simp]: "Slice_compare a b = 0 \<longleftrightarrow> a = b"
proof (induction a arbitrary: b)
  case Nil
  then show ?case by (cases b) auto
next
  case (Cons x a)
  then show ?case by (cases b) auto
qed

lemma Slice_compare_refl [simp]: "Slice_compare a a = 0"
  by (simp only: Slice_compare_0)

lemma Slice_compare_swap: "Slice_compare a b > 0 \<longleftrightarrow> Slice_compare b a < 0"
proof (induction a arbitrary: b)
  case Nil
  then show ?case by (cases b) auto
next
  case (Cons x a)
  then show ?case by (cases b) auto
qed

lemma Slice_compare_trans: "Slice_compare a b \<le> 0 \<Longrightarrow> Slice_compare b c \<le> 0 \<Longrightarrow> Slice_compare a c \<le> 0"
proof (induction a arbitrary: b c)
  case Nil
  then show ?case by (cases c) auto
next
  case (Cons x a)
  then obtain y b' where b: "b = y # b'" by (cases b) auto
  with Cons.prems obtain z c' where c: "c = z # c'" by (cases c) auto
  from Cons.prems Cons.IH [of b' c'] show ?case by (auto simp: b c split: if_splits)
qed

interpretation bytewise: comparator BytewiseComparator_Compare
  by unfold_locales (auto simp: BytewiseComparator_Compare_def Slice_compare_swap intro: Slice_compare_trans)

lemma diff_index_le: "diff_index_loop a b \<le> min (length a) (length b)"
  by (induction a b rule: diff_index_loop.induct) auto

lemma byte_succ: "(a :: u_char) \<noteq> 0xff \<Longrightarrow> a < a + 1 \<and> unat (a + 1) = unat a + 1"
proof -
  assume "a \<noteq> 0xff"
  then have "unat a \<noteq> 255" by (simp add: word_unat_eq_iff)
  then have "unat a < 255" using unat_byte_less [of a] by linarith
  then show ?thesis by (simp add: word_less_nat_alt unat_word_ariths)
qed

lemma separator_between:
  assumes "Slice_compare a b < 0" "diff_index_loop a b < min (length a) (length b)" "a ! diff_index_loop a b \<noteq> 0xff"
    and "unat (a ! diff_index_loop a b) + 1 < unat (b ! diff_index_loop a b)"
  defines "s \<equiv> take (diff_index_loop a b) a @ [a ! diff_index_loop a b + 1]"
  shows "Slice_compare a s < 0 \<and> Slice_compare s b < 0"
  unfolding s_def using assms(1-4)
proof (induction a b rule: diff_index_loop.induct)
  case (1 a as b bs)
  then show ?case using byte_succ [of a] by (cases "a = b") (auto simp: word_less_nat_alt split: if_splits)
qed auto

lemma successor_after: "FindShortSuccessor_loop key = Some k \<Longrightarrow> Slice_compare key k < 0 \<and> length k \<le> length key"
  by (induction key arbitrary: k) (auto dest: byte_succ split: if_splits)

lemma separator_cases:
  "BytewiseComparator_FindShortestSeparator start limit = start \<or>
   (diff_index_loop start limit < min (length start) (length limit) \<and> start ! diff_index_loop start limit \<noteq> 0xff \<and>
    unat (start ! diff_index_loop start limit) + 1 < unat (limit ! diff_index_loop start limit) \<and>
    BytewiseComparator_FindShortestSeparator start limit =
      take (diff_index_loop start limit) start @ [start ! diff_index_loop start limit + 1])"
  by (auto simp: BytewiseComparator_FindShortestSeparator_def Let_def)

lemma bytewise_separator_between:
  assumes "BytewiseComparator_Compare start limit < 0"
  defines "s \<equiv> BytewiseComparator_FindShortestSeparator start limit"
  shows "BytewiseComparator_Compare start s \<le> 0 \<and> BytewiseComparator_Compare s limit < 0 \<and> length s \<le> length start"
  using separator_cases [of start limit] separator_between [of start limit] assms(1)
  unfolding s_def BytewiseComparator_Compare_def by auto

section \<open>The order of internal keys\<close>

lemma ikey_swap:
  assumes "comparator cmp"
  shows "InternalKeyComparator_Compare cmp a b > 0 \<longleftrightarrow> InternalKeyComparator_Compare cmp b a < 0"
  using comparator.compare_swap [OF assms] comparator.compare_0_swap [OF assms, of "ExtractUserKey a" "ExtractUserKey b"]
  by (auto simp: InternalKeyComparator_Compare_def Let_def)

lemma ikey_le:
  assumes "comparator cmp"
  shows "InternalKeyComparator_Compare cmp a b \<le> 0 \<longleftrightarrow>
    cmp (ExtractUserKey a) (ExtractUserKey b) < 0 \<or>
    cmp (ExtractUserKey a) (ExtractUserKey b) = 0 \<and> key_num b \<le> key_num a"
  by (auto simp: InternalKeyComparator_Compare_def Let_def)

lemma ikey_trans:
  assumes "comparator cmp" "InternalKeyComparator_Compare cmp a b \<le> 0" "InternalKeyComparator_Compare cmp b c \<le> 0"
  shows "InternalKeyComparator_Compare cmp a c \<le> 0"
proof -
  let ?a = "ExtractUserKey a" and ?b = "ExtractUserKey b" and ?c = "ExtractUserKey c"
  have ab: "cmp ?a ?b < 0 \<or> cmp ?a ?b = 0 \<and> key_num b \<le> key_num a" and bc: "cmp ?b ?c < 0 \<or> cmp ?b ?c = 0 \<and> key_num c \<le> key_num b"
    using assms(2,3) ikey_le [OF assms(1)] by blast+
  show ?thesis
  proof (cases "cmp ?a ?b = 0 \<and> cmp ?b ?c = 0")
    case True
    with ab bc comparator.compare_0_trans [OF assms(1), of ?a ?b ?c] show ?thesis by (auto simp: ikey_le [OF assms(1)])
  next
    case False
    with ab bc comparator.compare_less_le [OF assms(1), of ?a ?b ?c] comparator.compare_le_less [OF assms(1), of ?a ?b ?c]
    have "cmp ?a ?c < 0" by linarith
    then show ?thesis by (simp add: ikey_le [OF assms(1)])
  qed
qed

lemma comparator_ikey: "comparator cmp \<Longrightarrow> comparator (InternalKeyComparator_Compare cmp)"
  by unfold_locales (auto simp: ikey_swap intro: ikey_trans)

interpretation ikey: comparator "InternalKeyComparator_Compare BytewiseComparator_Compare"
  by (rule comparator_ikey) unfold_locales

lemma length_EncodeFixed64 [simp]: "length (EncodeFixed64 n) = 8"
  by (simp add: EncodeFixed64_def)

lemma key_parts [simp]: "ExtractUserKey (k @ EncodeFixed64 n) = k" "key_num (k @ EncodeFixed64 n) = n"
  using DecodeFixed64_Encode [of n "[]"] by (simp_all add: ExtractUserKey_def key_num_def)

lemma Pack_parts:
  assumes "seq \<le> kMaxSequenceNumber"
  shows "drop_bit 8 (PackSequenceAndType seq t) = seq" "ucast (PackSequenceAndType seq t AND 0xff) = t"
proof -
  have "unat seq < 2 ^ 56" using assms by (simp add: kMaxSequenceNumber_def word_le_nat_alt push_bit_eq_mult)
  then have "take_bit 56 seq = seq" by (simp add: word_unat_eq_iff unsigned_take_bit_eq take_bit_nat_eq_self)
  then have b: "bit seq n \<Longrightarrow> n < 56" for n by (metis bit_take_bit_iff)
  have "\<not> bit t (8 + n)" for n using bit_imp_le_length [of t "8 + n"] by auto
  then show "drop_bit 8 (PackSequenceAndType seq t) = seq"
    using b by (intro bit_word_eqI) (auto simp: PackSequenceAndType_def bit_simps)
  show "ucast (PackSequenceAndType seq t AND 0xff) = t"
    unfolding and_255 by (intro bit_word_eqI) (auto simp: PackSequenceAndType_def bit_simps)
qed

lemma ParseInternalKey_Append:
  assumes "pik_sequence p \<le> kMaxSequenceNumber" "pik_type p \<le> kTypeValue"
  shows "ParseInternalKey (AppendInternalKey [] p) = Some p"
  using assms Pack_parts [OF assms(1)]
  by (simp add: ParseInternalKey_def AppendInternalKey_def PutFixed64_def Let_def)

text \<open>C23: the internal key that goes into an index between two blocks is not in front of the last key of the one and is in
  front of the first key of the other, and it is not longer than the key it replaces.\<close>

theorem internal_separator:
  assumes "InternalKeyComparator_Compare BytewiseComparator_Compare start limit < 0" "8 \<le> length start"
  defines "s \<equiv> InternalKeyComparator_FindShortestSeparator BytewiseComparator_Compare BytewiseComparator_FindShortestSeparator start limit"
  shows "InternalKeyComparator_Compare BytewiseComparator_Compare start s \<le> 0 \<and>
    InternalKeyComparator_Compare BytewiseComparator_Compare s limit < 0 \<and> length s \<le> length start"
proof -
  let ?us = "ExtractUserKey start" and ?ul = "ExtractUserKey limit"
  define tmp where "tmp = BytewiseComparator_FindShortestSeparator ?us ?ul"
  show ?thesis
  proof (cases "length tmp < length ?us \<and> BytewiseComparator_Compare ?us tmp < 0")
    case True
    then have s: "s = tmp @ EncodeFixed64 (PackSequenceAndType kMaxSequenceNumber kValueTypeForSeek)"
      by (simp add: s_def InternalKeyComparator_FindShortestSeparator_def Let_def PutFixed64_def flip: tmp_def)
    have "BytewiseComparator_Compare ?us ?ul \<noteq> 0"
    proof
      assume "BytewiseComparator_Compare ?us ?ul = 0"
      then have "?us = ?ul" by (simp add: BytewiseComparator_Compare_def)
      then have "tmp = ?us" using separator_cases [of ?us ?ul] by (auto simp: tmp_def)
      with True show False by simp
    qed
    then have "BytewiseComparator_Compare ?us ?ul < 0"
      using assms(1) by (auto simp: InternalKeyComparator_Compare_def Let_def split: if_splits)
    from bytewise_separator_between [OF this] have "BytewiseComparator_Compare tmp ?ul < 0" by (simp add: tmp_def)
    then show ?thesis
      using True assms(2) by (auto simp: s InternalKeyComparator_Compare_def Let_def ExtractUserKey_def)
  next
    case False
    then have "s = start" by (auto simp: s_def InternalKeyComparator_FindShortestSeparator_def Let_def tmp_def)
    then show ?thesis using assms(1) by simp
  qed
qed

theorem internal_separator_witness:
  "InternalKeyComparator_Compare BytewiseComparator_Compare
     (InternalKeyComparator_FindShortestSeparator BytewiseComparator_Compare BytewiseComparator_FindShortestSeparator
       (str ''the quick'' @ EncodeFixed64 5) (str ''who'' @ EncodeFixed64 7)) (str ''who'' @ EncodeFixed64 7) < 0"
proof -
  have "InternalKeyComparator_Compare BytewiseComparator_Compare (str ''the quick'' @ EncodeFixed64 5) (str ''who'' @ EncodeFixed64 7) < 0"
    unfolding InternalKeyComparator_Compare_def Let_def key_parts by (simp add: BytewiseComparator_Compare_def)
  from internal_separator [OF this] show ?thesis by simp
qed

end
