(* ===== verification/Ldb_SkipList.thy ===== *)
theory Ldb_SkipList
  imports Ldb_Format "HOL-Library.Multiset"
begin

text \<open>
  The skip list of \<^verbatim>\<open>src/leveldb-1.12.0/db/skiplist.h\<close>, with the random numbers of \<^verbatim>\<open>src/leveldb-1.12.0/util/random.h\<close>. The nodes are
  in a list, in the order in which they were allocated, and a pointer to a node is its index there; the head is the
  node 0. Operations that follow pointers return \<open>None\<close> when they do not end.
\<close>

section \<open>Random numbers\<close>

definition Random_new :: "uint32 \<Rightarrow> uint32" where
  "Random_new s = s AND 0x7fffffff"

text \<open>\<open>Random::Next\<close> on the seed, which is also its result.\<close>

definition Random_Next :: "uint32 \<Rightarrow> uint32" where
  "Random_Next seed =
    (let product = ucast seed * 16807 :: uint64;
         seed' = ucast (drop_bit 31 product + (product AND 2147483647)) :: uint32
     in if seed' > 2147483647 then seed' - 2147483647 else seed')"

section \<open>Nodes\<close>

record 'k Node =
  node_key :: 'k
  node_next :: "nat option list"

record 'k SkipList =
  nodes :: "'k Node list"
  max_height :: nat
  rnd :: uint32

abbreviation kMaxHeight :: nat where "kMaxHeight \<equiv> 12"
abbreviation kBranching :: nat where "kBranching \<equiv> 4"

text \<open>\<open>Node::Next\<close> and \<open>Node::SetNext\<close>.\<close>

definition Node_Next :: "'k Node list \<Rightarrow> nat \<Rightarrow> nat \<Rightarrow> nat option" where
  "Node_Next ns x n = node_next (ns ! x) ! n"

definition Node_SetNext :: "'k Node list \<Rightarrow> nat \<Rightarrow> nat \<Rightarrow> nat option \<Rightarrow> 'k Node list" where
  "Node_SetNext ns x n p = ns[x := (ns ! x)\<lparr>node_next := (node_next (ns ! x))[n := p]\<rparr>]"

text \<open>The constructor. Any key will do for the head.\<close>

definition SkipList_new :: "'k \<Rightarrow> 'k SkipList" where
  "SkipList_new any =
    \<lparr>nodes = [\<lparr>node_key = any, node_next = replicate kMaxHeight None\<rparr>], max_height = 1, rnd = Random_new 0xdeadbeef\<rparr>"

text \<open>\<open>RandomHeight\<close>, with the seed.\<close>

function random_height :: "uint32 \<Rightarrow> nat \<Rightarrow> nat \<times> uint32" where
  "random_height seed height =
    (if height < kMaxHeight then
       let seed = Random_Next seed in
       if unat seed mod kBranching = 0 then random_height seed (Suc height) else (height, seed)
     else (height, seed))"
  by auto
termination by (relation "measure (\<lambda>(_, height). kMaxHeight - height)") auto

declare random_height.simps [simp del]

definition KeyIsAfterNode :: "('k \<Rightarrow> 'k \<Rightarrow> int) \<Rightarrow> 'k Node list \<Rightarrow> 'k \<Rightarrow> nat option \<Rightarrow> bool" where
  "KeyIsAfterNode compare ns key n = (case n of None \<Rightarrow> False | Some m \<Rightarrow> compare (node_key (ns ! m)) key < 0)"

section \<open>Searching\<close>

text \<open>The loop of \<open>FindGreaterOrEqual\<close>. The result has the array \<open>prev\<close>.\<close>

partial_function (option) find_ge_loop ::
    "('k \<Rightarrow> 'k \<Rightarrow> int) \<Rightarrow> 'k Node list \<Rightarrow> 'k \<Rightarrow> nat \<Rightarrow> nat \<Rightarrow> nat option list \<Rightarrow> (nat option \<times> nat option list) option" where
  "find_ge_loop compare ns key x level prev =
    (let next = Node_Next ns x level in
     if KeyIsAfterNode compare ns key next then find_ge_loop compare ns key (the next) level prev
     else
       let prev = prev[level := Some x] in
       if level = 0 then Some (next, prev) else find_ge_loop compare ns key x (level - 1) prev)"

definition FindGreaterOrEqual :: "('k \<Rightarrow> 'k \<Rightarrow> int) \<Rightarrow> 'k SkipList \<Rightarrow> 'k \<Rightarrow> (nat option \<times> nat option list) option" where
  "FindGreaterOrEqual compare l key =
    find_ge_loop compare (nodes l) key 0 (max_height l - 1) (replicate kMaxHeight None)"

partial_function (option) find_lt_loop :: "('k \<Rightarrow> 'k \<Rightarrow> int) \<Rightarrow> 'k Node list \<Rightarrow> 'k \<Rightarrow> nat \<Rightarrow> nat \<Rightarrow> nat option" where
  "find_lt_loop compare ns key x level =
    (case Node_Next ns x level of
       None \<Rightarrow> if level = 0 then Some x else find_lt_loop compare ns key x (level - 1)
     | Some n \<Rightarrow>
         if compare (node_key (ns ! n)) key \<ge> 0 then
           if level = 0 then Some x else find_lt_loop compare ns key x (level - 1)
         else find_lt_loop compare ns key n level)"

definition FindLessThan :: "('k \<Rightarrow> 'k \<Rightarrow> int) \<Rightarrow> 'k SkipList \<Rightarrow> 'k \<Rightarrow> nat option" where
  "FindLessThan compare l key = find_lt_loop compare (nodes l) key 0 (max_height l - 1)"

partial_function (option) find_last_loop :: "'k Node list \<Rightarrow> nat \<Rightarrow> nat \<Rightarrow> nat option" where
  "find_last_loop ns x level =
    (case Node_Next ns x level of
       None \<Rightarrow> if level = 0 then Some x else find_last_loop ns x (level - 1)
     | Some n \<Rightarrow> find_last_loop ns n level)"

definition FindLast :: "'k SkipList \<Rightarrow> nat option" where
  "FindLast l = find_last_loop (nodes l) 0 (max_height l - 1)"

section \<open>Inserting and looking up\<close>

text \<open>The loop of \<open>Insert\<close> that links the node \<open>x\<close> at the levels below \<open>height\<close>.\<close>

primrec link_levels :: "'k Node list \<Rightarrow> nat \<Rightarrow> nat option list \<Rightarrow> nat \<Rightarrow> 'k Node list" where
  "link_levels ns x prev 0 = ns"
| "link_levels ns x prev (Suc i) =
    (let ns = link_levels ns x prev i;
         p = the (prev ! i);
         ns = Node_SetNext ns x i (Node_Next ns p i)
     in Node_SetNext ns p i (Some x))"

definition Insert :: "('k \<Rightarrow> 'k \<Rightarrow> int) \<Rightarrow> 'k SkipList \<Rightarrow> 'k \<Rightarrow> 'k SkipList option" where
  "Insert compare l key =
    (case FindGreaterOrEqual compare l key of
       None \<Rightarrow> None
     | Some (_, prev) \<Rightarrow>
         let (height, seed) = random_height (rnd l) 1;
             prev = (if height > max_height l then
                       fold (\<lambda>i prev. prev[i := Some 0]) [max_height l..<height] prev else prev);
             max_h = (if height > max_height l then height else max_height l);
             x = length (nodes l);
             ns = nodes l @ [\<lparr>node_key = key, node_next = replicate height None\<rparr>]
         in Some \<lparr>nodes = link_levels ns x prev height, max_height = max_h, rnd = seed\<rparr>)"

definition Contains :: "('k \<Rightarrow> 'k \<Rightarrow> int) \<Rightarrow> 'k SkipList \<Rightarrow> 'k \<Rightarrow> bool option" where
  "Contains compare l key =
    (case FindGreaterOrEqual compare l key of
       None \<Rightarrow> None
     | Some (None, _) \<Rightarrow> Some False
     | Some (Some x, _) \<Rightarrow> Some (compare key (node_key (nodes l ! x)) = 0))"

section \<open>Iterators\<close>

text \<open>The position of an iterator is a node, or \<open>None\<close> when the iterator is not valid. The outer option of the results
  is for searches that do not end.\<close>

definition Iterator_Seek :: "('k \<Rightarrow> 'k \<Rightarrow> int) \<Rightarrow> 'k SkipList \<Rightarrow> 'k \<Rightarrow> nat option option" where
  "Iterator_Seek compare l target = map_option fst (FindGreaterOrEqual compare l target)"

definition Iterator_Next :: "'k SkipList \<Rightarrow> nat \<Rightarrow> nat option" where
  "Iterator_Next l node = Node_Next (nodes l) node 0"

definition Iterator_Prev :: "('k \<Rightarrow> 'k \<Rightarrow> int) \<Rightarrow> 'k SkipList \<Rightarrow> nat \<Rightarrow> nat option option" where
  "Iterator_Prev compare l node =
    map_option (\<lambda>x. if x = 0 then None else Some x) (FindLessThan compare l (node_key (nodes l ! node)))"

definition Iterator_SeekToFirst :: "'k SkipList \<Rightarrow> nat option" where
  "Iterator_SeekToFirst l = Node_Next (nodes l) 0 0"

definition Iterator_SeekToLast :: "'k SkipList \<Rightarrow> nat option option" where
  "Iterator_SeekToLast l = map_option (\<lambda>x. if x = 0 then None else Some x) (FindLast l)"

section \<open>The invariant\<close>

definition height :: "'k Node list \<Rightarrow> nat \<Rightarrow> nat" where
  "height ns x = length (node_next (ns ! x))"

text \<open>Following the links of a level from a node leads to the given nodes, and then to \<open>NULL\<close>.\<close>

primrec path :: "'k Node list \<Rightarrow> nat \<Rightarrow> nat \<Rightarrow> nat list \<Rightarrow> bool" where
  "path ns i x [] \<longleftrightarrow> Node_Next ns x i = None"
| "path ns i x (y # ys) \<longleftrightarrow> Node_Next ns x i = Some y \<and> path ns i y ys"

definition at_level :: "'k Node list \<Rightarrow> nat \<Rightarrow> nat list \<Rightarrow> nat list" where
  "at_level ns i xs = filter (\<lambda>x. i < height ns x) xs"

definition key_of :: "'k Node list \<Rightarrow> nat \<Rightarrow> 'k" where
  "key_of ns x = node_key (ns ! x)"

text \<open>The last node of a level among the given ones, or the head.\<close>

definition last_at :: "'k Node list \<Rightarrow> nat \<Rightarrow> nat list \<Rightarrow> nat" where
  "last_at ns i bs = last (0 # at_level ns i bs)"

text \<open>The nodes of the list in order: all but the head, sorted by their keys, and the links of each level lead to the
  nodes that are high enough.\<close>

definition skip_ok :: "('k \<Rightarrow> 'k \<Rightarrow> int) \<Rightarrow> 'k SkipList \<Rightarrow> nat list \<Rightarrow> bool" where
  "skip_ok compare l xs \<longleftrightarrow>
    nodes l \<noteq> [] \<and> height (nodes l) 0 = kMaxHeight \<and> 1 \<le> max_height l \<and> max_height l \<le> kMaxHeight \<and>
    distinct xs \<and> set xs = {1..<length (nodes l)} \<and>
    (\<forall>x \<in> set xs. 1 \<le> height (nodes l) x \<and> height (nodes l) x \<le> max_height l) \<and>
    (\<forall>i < kMaxHeight. path (nodes l) i 0 (at_level (nodes l) i xs)) \<and>
    sorted_wrt (\<lambda>x y. compare (key_of (nodes l) x) (key_of (nodes l) y) < 0) xs"

lemma skip_okD:
  assumes "skip_ok compare l xs"
  shows "nodes l \<noteq> []" "height (nodes l) 0 = kMaxHeight" "1 \<le> max_height l" "max_height l \<le> kMaxHeight"
    "i < kMaxHeight \<Longrightarrow> path (nodes l) i 0 (at_level (nodes l) i xs)" "distinct xs" "set xs = {1..<length (nodes l)}"
    "x \<in> set xs \<Longrightarrow> 1 \<le> height (nodes l) x" "x \<in> set xs \<Longrightarrow> height (nodes l) x \<le> max_height l"
    "sorted_wrt (\<lambda>x y. compare (key_of (nodes l) x) (key_of (nodes l) y) < 0) xs"
  using assms unfolding skip_ok_def by blast+

lemma at_level_append [simp]: "at_level ns i (xs @ ys) = at_level ns i xs @ at_level ns i ys"
  by (simp add: at_level_def)

lemma set_at_level: "set (at_level ns i xs) = {x \<in> set xs. i < height ns x}"
  by (auto simp: at_level_def)

lemma path_next: "path ns i x ys \<Longrightarrow> Node_Next ns x i = (case ys of [] \<Rightarrow> None | y # _ \<Rightarrow> Some y)"
  by (cases ys) auto

lemma path_from: "path ns i z (xs @ x # ys) \<Longrightarrow> path ns i x ys"
  by (induction xs arbitrary: z) auto

lemma path_cong: "path ns i x ys \<Longrightarrow> \<forall>z \<in> set (x # ys). Node_Next ns' z i = Node_Next ns z i \<Longrightarrow> path ns' i x ys"
  by (induction ys arbitrary: x) auto

lemma path_insert:
  assumes "path ns i y (bs @ as)" "distinct (y # bs @ as)"
    and "\<And>z. z \<in> set (y # bs @ as) \<Longrightarrow> z \<noteq> last (y # bs) \<Longrightarrow> Node_Next ns' z i = Node_Next ns z i"
    and "Node_Next ns' (last (y # bs)) i = Some n" "Node_Next ns' n i = Node_Next ns (last (y # bs)) i"
  shows "path ns' i y (bs @ n # as)"
  using assms
proof (induction bs arbitrary: y)
  case Nil
  show ?case
  proof (cases as)
    case (Cons a as')
    with Nil.prems(1) have "path ns i a as'" by simp
    moreover have "Node_Next ns' z i = Node_Next ns z i" if "z \<in> set (a # as')" for z
      using Nil.prems(2) Nil.prems(3) [of z] that Cons by auto
    ultimately have "path ns' i a as'" using path_cong by blast
    with Cons Nil.prems(1,4,5) show ?thesis by simp
  qed (use Nil.prems(1,4,5) in simp)
next
  case (Cons b bs)
  have "path ns' i b (bs @ n # as)"
  proof (rule Cons.IH)
    show "Node_Next ns' z i = Node_Next ns z i" if "z \<in> set (b # bs @ as)" "z \<noteq> last (b # bs)" for z
      using Cons.prems(3) [of z] that by simp
  qed (use Cons.prems(1,2,4,5) in simp_all)
  moreover have "y \<noteq> last (y # b # bs)"
  proof -
    have "last (b # bs) \<in> set (b # bs)" by (rule last_in_set) simp
    then show ?thesis using Cons.prems(2) by (simp del: last.simps add: last_ConsR) blast
  qed
  then have "Node_Next ns' y i = Node_Next ns y i" by (intro Cons.prems(3)) simp_all
  ultimately show ?case using Cons.prems(1) by simp
qed

section \<open>Searching\<close>

lemma find_ge_run:
  assumes "path ns i x (post @ as)" "\<forall>y \<in> set post. compare (key_of ns y) key < 0"
  shows "find_ge_loop compare ns key x i prev = find_ge_loop compare ns key (last (x # post)) i prev \<and>
    path ns i (last (x # post)) as"
  using assms
proof (induction post arbitrary: x)
  case (Cons y post)
  have "find_ge_loop compare ns key x i prev = find_ge_loop compare ns key y i prev"
    using Cons.prems by (subst find_ge_loop.simps) (simp add: KeyIsAfterNode_def key_of_def)
  with Cons show ?case by auto
qed simp

lemma find_ge_stop:
  assumes "path ns i x as" "\<forall>y \<in> set as. \<not> compare (key_of ns y) key < 0"
  shows "find_ge_loop compare ns key x i prev =
    (if i = 0 then Some (case as of [] \<Rightarrow> None | a # _ \<Rightarrow> Some a, prev[0 := Some x])
     else find_ge_loop compare ns key x (i - 1) (prev[i := Some x]))"
proof -
  have "\<not> KeyIsAfterNode compare ns key (Node_Next ns x i)"
    using assms by (cases as) (auto simp: KeyIsAfterNode_def key_of_def)
  then show ?thesis using path_next [OF assms(1)] by (subst find_ge_loop.simps) (simp add: Let_def)
qed

lemma find_ge_level:
  assumes "path ns i 0 (at_level ns i (bs @ as))" "\<forall>y \<in> set bs. compare (key_of ns y) key < 0"
    and "\<forall>y \<in> set as. \<not> compare (key_of ns y) key < 0" "x = 0 \<or> x \<in> set (at_level ns i bs)"
  defines "z \<equiv> last_at ns i bs"
  shows "find_ge_loop compare ns key x i prev =
    (if i = 0 then Some (case at_level ns 0 as of [] \<Rightarrow> None | a # _ \<Rightarrow> Some a, prev[0 := Some z])
     else find_ge_loop compare ns key z (i - 1) (prev[i := Some z]))"
proof -
  obtain post where post: "path ns i x (post @ at_level ns i as)" "last (x # post) = z" "set post \<subseteq> set bs"
  proof (cases "x = 0")
    case True
    then show ?thesis using that [of "at_level ns i bs"] assms(1) by (auto simp: z_def at_level_def last_at_def)
  next
    case False
    with assms(4) obtain p q where pq: "at_level ns i bs = p @ x # q" by (auto dest: split_list)
    moreover have "set q \<subseteq> set bs" using set_at_level [of ns i bs] pq by auto
    ultimately show ?thesis using that [of q] assms(1) path_from [of ns i 0 p x "q @ at_level ns i as"] by (auto simp: z_def last_at_def)
  qed
  have "\<forall>y \<in> set post. compare (key_of ns y) key < 0" using post(3) assms(2) by auto
  note run = find_ge_run [of ns i x post "at_level ns i as" compare key prev, OF post(1) this]
  have "\<forall>y \<in> set (at_level ns i as). \<not> compare (key_of ns y) key < 0" using assms(3) by (simp add: set_at_level)
  from find_ge_stop [of ns i _ "at_level ns i as" compare key, OF run [THEN conjunct2] this] run show ?thesis unfolding post(2) by simp
qed

lemma last_at_level: "last_at ns (Suc i) bs = 0 \<or> last_at ns (Suc i) bs \<in> set (at_level ns i bs)"
proof (cases "at_level ns (Suc i) bs = []")
  case False
  then have "last_at ns (Suc i) bs \<in> set (at_level ns (Suc i) bs)" by (simp add: last_at_def)
  then show ?thesis by (simp only: set_at_level) auto
qed (simp add: last_at_def)

lemma find_ge_levels:
  assumes "\<forall>j \<le> i. path ns j 0 (at_level ns j (bs @ as))" "\<forall>y \<in> set bs. compare (key_of ns y) key < 0"
    and "\<forall>y \<in> set as. \<not> compare (key_of ns y) key < 0" "x = 0 \<or> x \<in> set (at_level ns i bs)" "i < length prev"
  shows "\<exists>prev'. find_ge_loop compare ns key x i prev = Some (case at_level ns 0 as of [] \<Rightarrow> None | a # _ \<Rightarrow> Some a, prev') \<and>
    length prev' = length prev \<and> (\<forall>j \<le> i. prev' ! j = Some (last_at ns j bs)) \<and>
    (\<forall>j. i < j \<longrightarrow> prev' ! j = prev ! j)"
  using assms
proof (induction i arbitrary: x prev)
  case 0
  then have "path ns 0 0 (at_level ns 0 (bs @ as))" by blast
  from find_ge_level [of ns 0 bs as compare key, OF this 0(2-4)] 0(5) show ?case by simp
next
  case (Suc i)
  define z where "z = last_at ns (Suc i) bs"
  have "path ns (Suc i) 0 (at_level ns (Suc i) (bs @ as))" using Suc.prems(1) by blast
  from find_ge_level [of ns "Suc i" bs as compare key, OF this Suc.prems(2-4)]
  have step: "find_ge_loop compare ns key x (Suc i) prev = find_ge_loop compare ns key z i (prev[Suc i := Some z])"
    by (simp add: z_def)
  have "z = 0 \<or> z \<in> set (at_level ns i bs)" unfolding z_def by (rule last_at_level)
  from Suc.IH [OF _ Suc.prems(2,3) this, of "prev[Suc i := Some z]"] Suc.prems(1,5) obtain prev' where
    "find_ge_loop compare ns key z i (prev[Suc i := Some z]) = Some (case at_level ns 0 as of [] \<Rightarrow> None | a # _ \<Rightarrow> Some a, prev')"
    "length prev' = length prev" "\<forall>j \<le> i. prev' ! j = Some (last_at ns j bs)"
    "\<forall>j. i < j \<longrightarrow> prev' ! j = prev[Suc i := Some z] ! j" by auto
  with Suc.prems(5) show ?case unfolding step by (auto simp: le_Suc_eq simp flip: z_def)
qed

text \<open>The order of the nodes, cut where a key belongs.\<close>

definition before :: "('k \<Rightarrow> 'k \<Rightarrow> int) \<Rightarrow> 'k Node list \<Rightarrow> 'k \<Rightarrow> nat list \<Rightarrow> nat list" where
  "before compare ns key xs = takeWhile (\<lambda>x. compare (key_of ns x) key < 0) xs"

definition from_key :: "('k \<Rightarrow> 'k \<Rightarrow> int) \<Rightarrow> 'k Node list \<Rightarrow> 'k \<Rightarrow> nat list \<Rightarrow> nat list" where
  "from_key compare ns key xs = dropWhile (\<lambda>x. compare (key_of ns x) key < 0) xs"

context comparator
begin

lemma from_key_not_less:
  assumes "sorted_wrt (\<lambda>x y. compare (key_of ns x) (key_of ns y) < 0) xs"
  shows "\<forall>y \<in> set (from_key compare ns key xs). \<not> compare (key_of ns y) key < 0"
  using assms
proof (induction xs)
  case (Cons x xs)
  show ?case
  proof (cases "compare (key_of ns x) key < 0")
    case False
    have "\<not> compare (key_of ns y) key < 0" if "y \<in> set xs" for y
    proof -
      have "compare (key_of ns x) (key_of ns y) < 0" using Cons.prems that by simp
      then show ?thesis using False compare_less_trans [of "key_of ns x" "key_of ns y" key] by blast
    qed
    with False show ?thesis by (simp add: from_key_def)
  next
    case True
    then have "from_key compare ns key (x # xs) = from_key compare ns key xs" by (simp add: from_key_def)
    moreover have "\<forall>y \<in> set (from_key compare ns key xs). \<not> compare (key_of ns y) key < 0"
      by (rule Cons.IH) (use Cons.prems in simp)
    ultimately show ?thesis by (simp only:)
  qed
qed (simp add: from_key_def)

lemma FindGreaterOrEqual_result:
  assumes "skip_ok compare l xs"
  shows "\<exists>prev. FindGreaterOrEqual compare l key =
      Some (case from_key compare (nodes l) key xs of [] \<Rightarrow> None | x # _ \<Rightarrow> Some x, prev) \<and> length prev = kMaxHeight \<and>
    (\<forall>j < max_height l. prev ! j = Some (last_at (nodes l) j (before compare (nodes l) key xs)))"
proof -
  define bs where "bs = before compare (nodes l) key xs"
  define as where "as = from_key compare (nodes l) key xs"
  have xs: "xs = bs @ as" by (simp add: bs_def as_def before_def from_key_def)
  have bs: "\<forall>y \<in> set bs. compare (key_of (nodes l) y) key < 0"
    unfolding bs_def before_def by (auto dest: set_takeWhileD)
  have as: "\<forall>y \<in> set as. \<not> compare (key_of (nodes l) y) key < 0"
    unfolding as_def by (rule from_key_not_less [OF skip_okD(10) [OF assms]])
  have "path (nodes l) j 0 (at_level (nodes l) j (bs @ as))" if "j \<le> max_height l - 1" for j
    using skip_okD(3-5) [OF assms] that unfolding xs by simp
  then have "\<forall>j \<le> max_height l - 1. path (nodes l) j 0 (at_level (nodes l) j (bs @ as))" by blast
  then obtain prev where
    prev: "FindGreaterOrEqual compare l key = Some (case at_level (nodes l) 0 as of [] \<Rightarrow> None | a # _ \<Rightarrow> Some a, prev)"
    "length prev = kMaxHeight" "\<forall>j \<le> max_height l - 1. prev ! j = Some (last_at (nodes l) j bs)"
    using find_ge_levels [of "max_height l - 1" "nodes l" bs as compare key 0 "replicate kMaxHeight None", OF _ bs as]
      skip_okD(3,4) [OF assms] by (fastforce simp: FindGreaterOrEqual_def)
  have "\<forall>x \<in> set as. 0 < height (nodes l) x" using skip_okD(8) [OF assms] unfolding xs by fastforce
  then have "at_level (nodes l) 0 as = as" by (simp add: at_level_def filter_id_conv)
  with prev show ?thesis unfolding bs_def [symmetric] as_def [symmetric] by (intro exI [of _ prev]) auto
qed

end

section \<open>Linking a node\<close>

lemma random_height_bounds:
  assumes "1 \<le> h" "h \<le> kMaxHeight"
  shows "1 \<le> fst (random_height seed h) \<and> fst (random_height seed h) \<le> kMaxHeight"
  using assms
proof (induction seed h rule: random_height.induct)
  case (1 seed h)
  then show ?case by (subst (1 2) random_height.simps) (simp add: Let_def)
qed

lemma length_SetNext [simp]: "length (Node_SetNext ns x n p) = length ns"
  by (simp add: Node_SetNext_def)

lemma height_SetNext [simp]: "height (Node_SetNext ns x n p) y = height ns y"
  by (cases "x < length ns") (auto simp: height_def Node_SetNext_def nth_list_update list_update_beyond)

lemma key_of_SetNext [simp]: "key_of (Node_SetNext ns x n p) y = key_of ns y"
  by (cases "x < length ns") (auto simp: key_of_def Node_SetNext_def nth_list_update list_update_beyond)

lemma Next_SetNext:
  assumes "x < length ns" "n < height ns x"
  shows "Node_Next (Node_SetNext ns x n p) y j = (if y = x \<and> j = n then p else Node_Next ns y j)"
  using assms by (auto simp: Node_Next_def Node_SetNext_def height_def nth_list_update)

text \<open>What the links are once the levels below \<open>n\<close> are linked, where \<open>p\<close> is the predecessor of the new node at a level.\<close>

lemma link_levels_effect:
  assumes "x < length ns" "n \<le> height ns x"
    and "\<And>j. j < n \<Longrightarrow> prev ! j = Some (p j) \<and> p j < length ns \<and> p j \<noteq> x \<and> j < height ns (p j)"
  shows "length (link_levels ns x prev n) = length ns \<and> (\<forall>y. height (link_levels ns x prev n) y = height ns y) \<and>
    (\<forall>y. key_of (link_levels ns x prev n) y = key_of ns y) \<and>
    (\<forall>y j. Node_Next (link_levels ns x prev n) y j =
      (if j < n \<and> y = x then Node_Next ns (p j) j else if j < n \<and> y = p j then Some x else Node_Next ns y j))"
  using assms(2,3)
proof (induction n)
  case (Suc n)
  define ms where "ms = link_levels ns x prev n"
  have IH: "length ms = length ns" "\<And>y. height ms y = height ns y" "\<And>y. key_of ms y = key_of ns y"
    "\<And>y j. Node_Next ms y j =
      (if j < n \<and> y = x then Node_Next ns (p j) j else if j < n \<and> y = p j then Some x else Node_Next ns y j)"
    using Suc.IH Suc.prems unfolding ms_def by (auto simp: less_SucI)
  have p: "prev ! n = Some (p n)" "p n < length ns" "p n \<noteq> x" "n < height ns (p n)" using Suc.prems(2) by auto
  have eq: "link_levels ns x prev (Suc n) = Node_SetNext (Node_SetNext ms x n (Node_Next ms (p n) n)) (p n) n (Some x)"
    by (simp add: ms_def p(1) Let_def)
  have "Node_Next (link_levels ns x prev (Suc n)) y j =
      (if y = p n \<and> j = n then Some x else if y = x \<and> j = n then Node_Next ns (p n) n else Node_Next ms y j)" for y j
    unfolding eq using assms(1) Suc.prems(1) p by (simp add: Next_SetNext IH)
  then show ?case using p unfolding eq by (auto simp: IH less_Suc_eq)
qed simp

lemma fold_head:
  "b \<le> length prev \<Longrightarrow> length (fold (\<lambda>i prev. prev[i := Some (0 :: nat)]) [a..<b] prev) = length prev \<and>
    fold (\<lambda>i prev. prev[i := Some 0]) [a..<b] prev ! j = (if a \<le> j \<and> j < b then Some 0 else prev ! j)"
proof (induction b)
  case (Suc b)
  then show ?case by (cases "a \<le> b") (auto simp: nth_list_update less_Suc_eq)
qed simp

section \<open>Insertion keeps the invariant\<close>

lemma last_at_bound:
  assumes "skip_ok compare l xs" "set bs \<subseteq> set xs" "j < kMaxHeight"
  shows "last_at (nodes l) j bs < length (nodes l) \<and> j < height (nodes l) (last_at (nodes l) j bs)"
proof (cases "at_level (nodes l) j bs = []")
  case True
  then show ?thesis using skip_okD(1,2) [OF assms(1)] assms(3) by (simp add: last_at_def)
next
  case False
  then have "last_at (nodes l) j bs \<in> set (at_level (nodes l) j bs)" by (simp add: last_at_def)
  then show ?thesis using assms(2) skip_okD(7) [OF assms(1)] by (auto simp: set_at_level)
qed

lemma at_level_above:
  assumes "skip_ok compare l xs" "set bs \<subseteq> set xs" "max_height l \<le> j"
  shows "at_level (nodes l) j bs = []"
  using skip_okD(9) [OF assms(1)] assms(2,3) by (fastforce simp: at_level_def filter_empty_conv)

lemma at_level_cong: "(\<And>x. x \<in> set xs \<Longrightarrow> height ns' x = height ns x) \<Longrightarrow> at_level ns' i xs = at_level ns i xs"
  by (simp add: at_level_def cong: filter_cong)

text \<open>The store once the new node, which is at the end, is linked at its levels.\<close>

definition linked :: "'k Node list \<Rightarrow> nat list \<Rightarrow> 'k \<Rightarrow> nat \<Rightarrow> 'k Node list \<Rightarrow> bool" where
  "linked ns bs key h ns' \<longleftrightarrow>
    length ns' = Suc (length ns) \<and> (\<forall>y < length ns. height ns' y = height ns y \<and> key_of ns' y = key_of ns y) \<and>
    height ns' (length ns) = h \<and> key_of ns' (length ns) = key \<and>
    (\<forall>j < h. Node_Next ns' (length ns) j = Node_Next ns (last_at ns j bs) j \<and>
      Node_Next ns' (last_at ns j bs) j = Some (length ns)) \<and>
    (\<forall>y < length ns. \<forall>j. \<not> (j < h \<and> y = last_at ns j bs) \<longrightarrow> Node_Next ns' y j = Node_Next ns y j)"

lemma link_levels_linked:
  assumes "\<And>j. j < h \<Longrightarrow> prev ! j = Some (last_at ns j bs) \<and> last_at ns j bs < length ns \<and> j < height ns (last_at ns j bs)"
  shows "linked ns bs key h (link_levels (ns @ [\<lparr>node_key = key, node_next = replicate h None\<rparr>]) (length ns) prev h)"
proof -
  define ms where "ms = ns @ [\<lparr>node_key = key, node_next = replicate h None\<rparr>]"
  have ms: "length ms = Suc (length ns)" "height ms (length ns) = h" "key_of ms (length ns) = key"
    "\<And>y. y < length ns \<Longrightarrow> height ms y = height ns y \<and> key_of ms y = key_of ns y"
    "\<And>y j. y < length ns \<Longrightarrow> Node_Next ms y j = Node_Next ns y j"
    by (simp_all add: ms_def height_def key_of_def Node_Next_def nth_append)
  have *: "prev ! j = Some (last_at ns j bs) \<and> last_at ns j bs < length ms \<and> last_at ns j bs \<noteq> length ns \<and>
      j < height ms (last_at ns j bs)" if "j < h" for j
    using assms [OF that] ms(1,4) by auto
  have "length ns < length ms" "h \<le> height ms (length ns)" by (simp_all add: ms)
  note eff = link_levels_effect [OF this, of prev "\<lambda>j. last_at ns j bs", OF *]
  show ?thesis unfolding linked_def ms_def [symmetric] using eff assms * ms by auto
qed

lemma linked_path:
  assumes ok: "skip_ok compare l (bs @ as)" and linked: "linked (nodes l) bs key h ns'" and i: "i < kMaxHeight"
  shows "path ns' i 0 (at_level ns' i (bs @ length (nodes l) # as))"
proof -
  let ?ns = "nodes l" and ?n = "length (nodes l)"
  have set: "set (bs @ as) = {1..<?n}" by (rule skip_okD(7) [OF ok])
  have "height ns' y = height ?ns y" if "y \<in> set (bs @ as)" for y
    using linked that unfolding set linked_def by simp
  then have "at_level ns' i bs = at_level ?ns i bs" "at_level ns' i as = at_level ?ns i as"
    using at_level_cong [of bs ns' ?ns] at_level_cong [of as ns' ?ns] by simp_all
  then have levels: "at_level ns' i (bs @ ?n # as) = at_level ?ns i bs @ (if i < h then [?n] else []) @ at_level ?ns i as"
    using linked by (simp add: linked_def at_level_def)
  have path: "path ?ns i 0 (at_level ?ns i bs @ at_level ?ns i as)" using skip_okD(5) [OF ok i] by simp
  have below: "y < ?n" if "y \<in> set (0 # at_level ?ns i bs @ at_level ?ns i as)" for y
    using that set skip_okD(1) [OF ok] by (auto simp: set_at_level)
  show ?thesis
  proof (cases "i < h")
    case True
    have "path ns' i 0 (at_level ?ns i bs @ ?n # at_level ?ns i as)"
    proof (rule path_insert [OF path])
      have "0 \<notin> set (bs @ as)" unfolding set by simp
      then show "distinct (0 # at_level ?ns i bs @ at_level ?ns i as)"
        using skip_okD(6) [OF ok] by (auto simp: at_level_def)
      show "Node_Next ns' z i = Node_Next ?ns z i"
        if "z \<in> set (0 # at_level ?ns i bs @ at_level ?ns i as)" "z \<noteq> last (0 # at_level ?ns i bs)" for z
        using linked below [OF that(1)] that(2) unfolding linked_def last_at_def [symmetric] by blast
      show "Node_Next ns' (last (0 # at_level ?ns i bs)) i = Some ?n"
        "Node_Next ns' ?n i = Node_Next ?ns (last (0 # at_level ?ns i bs)) i"
        using linked True unfolding linked_def last_at_def [symmetric] by blast+
    qed
    then show ?thesis unfolding levels using True by simp
  next
    case False
    have "\<forall>z \<in> set (0 # at_level ?ns i bs @ at_level ?ns i as). Node_Next ns' z i = Node_Next ?ns z i"
      using linked False below unfolding linked_def by blast
    from path_cong [OF path this] show ?thesis unfolding levels using False by simp
  qed
qed

context comparator
begin

lemma linked_skip_ok:
  assumes ok: "skip_ok compare l xs" and new: "\<And>x. x \<in> set xs \<Longrightarrow> compare (key_of (nodes l) x) key \<noteq> 0"
    and bs: "bs = before compare (nodes l) key xs" and as: "as = from_key compare (nodes l) key xs"
    and linked: "linked (nodes l) bs key h (nodes l')" and h: "1 \<le> h" "h \<le> kMaxHeight" "max_height l' = max (max_height l) h"
  shows "skip_ok compare l' (bs @ length (nodes l) # as)"
proof -
  let ?n = "length (nodes l)"
  have xs: "xs = bs @ as" by (simp add: bs as before_def from_key_def)
  note ok' = ok [unfolded xs]
  have set: "set (bs @ as) = {1..<?n}" by (rule skip_okD(7) [OF ok'])
  have old: "key_of (nodes l') y = key_of (nodes l) y" "height (nodes l') y = height (nodes l) y" if "y \<in> set (bs @ as)" for y
    using linked that unfolding set linked_def by auto
  have "\<forall>y \<in> set bs. compare (key_of (nodes l) y) key < 0" unfolding bs before_def by (auto dest: set_takeWhileD)
  moreover have "\<forall>y \<in> set as. \<not> compare (key_of (nodes l) y) key < 0"
    unfolding as by (rule from_key_not_less [OF skip_okD(10) [OF ok]])
  then have "compare key (key_of (nodes l) y) < 0" if "y \<in> set as" for y
    using new [of y] compare_swap [of "key_of (nodes l) y" key] that by (auto simp: xs)
  moreover have "sorted_wrt (\<lambda>a b. compare a b < 0) (map (key_of (nodes l)) bs @ map (key_of (nodes l)) as)"
    using skip_okD(10) [OF ok'] by (simp only: sorted_wrt_map flip: map_append)
  ultimately have "sorted_wrt (\<lambda>a b. compare a b < 0) (map (key_of (nodes l)) bs @ key # map (key_of (nodes l)) as)"
    by (simp add: sorted_wrt_append)
  moreover have "map (key_of (nodes l')) (bs @ ?n # as) = map (key_of (nodes l)) bs @ key # map (key_of (nodes l)) as"
    using old(1) linked by (simp add: linked_def)
  ultimately have "sorted_wrt (\<lambda>a b. compare a b < 0) (map (key_of (nodes l')) (bs @ ?n # as))"
    by (simp only:)
  then have "sorted_wrt (\<lambda>x y. compare (key_of (nodes l') x) (key_of (nodes l') y) < 0) (bs @ ?n # as)"
    by (simp only: sorted_wrt_map)
  moreover have "distinct (bs @ ?n # as)"
  proof -
    have "?n \<notin> set (bs @ as)" unfolding set by simp
    then show ?thesis using skip_okD(6) [OF ok'] by simp
  qed
  moreover have "set (bs @ ?n # as) = {1..<length (nodes l')}"
  proof -
    have "set (bs @ ?n # as) = insert ?n (set (bs @ as))" by simp
    also have "\<dots> = {1..<Suc ?n}" unfolding set using skip_okD(1) [OF ok] by (cases "nodes l") auto
    finally show ?thesis using linked by (simp add: linked_def)
  qed
  moreover have "1 \<le> height (nodes l') y \<and> height (nodes l') y \<le> max_height l'" if "y \<in> set (bs @ ?n # as)" for y
  proof (cases "y = ?n")
    case True
    then show ?thesis using linked h by (simp add: linked_def)
  next
    case False
    then have "y \<in> set (bs @ as)" using that by simp
    then show ?thesis using old(2) [of y] skip_okD(8,9) [OF ok', of y] h(3) by simp
  qed
  moreover have "nodes l' \<noteq> []" "height (nodes l') 0 = kMaxHeight"
    using linked skip_okD(1,2) [OF ok] by (auto simp: linked_def)
  ultimately show ?thesis
    unfolding skip_ok_def using linked_path [OF ok' linked] h skip_okD(3,4) [OF ok] by (simp del: set_append)
qed

end

text \<open>Where a key goes among keys in order.\<close>

definition insert_key :: "('k \<Rightarrow> 'k \<Rightarrow> int) \<Rightarrow> 'k \<Rightarrow> 'k list \<Rightarrow> 'k list" where
  "insert_key compare k ks = takeWhile (\<lambda>y. compare y k < 0) ks @ k # dropWhile (\<lambda>y. compare y k < 0) ks"

context comparator
begin

lemma Insert_prev:
  assumes ok: "skip_ok compare l xs" and h: "h \<le> kMaxHeight" and j: "j < h"
    and prev: "length prev = kMaxHeight" "\<forall>j < max_height l. prev ! j = Some (last_at (nodes l) j bs)"
    and bs: "set bs \<subseteq> set xs"
  shows "(if h > max_height l then fold (\<lambda>i prev. prev[i := Some 0]) [max_height l..<h] prev else prev) ! j =
    Some (last_at (nodes l) j bs)"
proof (cases "j < max_height l")
  case True
  then show ?thesis using prev h fold_head [of h prev "max_height l" j] by simp
next
  case False
  then show ?thesis
    using j prev(1) h fold_head [of h prev "max_height l" j] at_level_above [OF ok bs, of j] by (simp add: last_at_def)
qed

lemma Insert_ok:
  assumes ok: "skip_ok compare l xs" and new: "\<And>x. x \<in> set xs \<Longrightarrow> compare (key_of (nodes l) x) key \<noteq> 0"
  shows "\<exists>l'. Insert compare l key = Some l' \<and>
    skip_ok compare l' (before compare (nodes l) key xs @ length (nodes l) # from_key compare (nodes l) key xs) \<and>
    (\<forall>y < length (nodes l). key_of (nodes l') y = key_of (nodes l) y) \<and> key_of (nodes l') (length (nodes l)) = key"
proof -
  define bs where "bs = before compare (nodes l) key xs"
  have bs: "set bs \<subseteq> set xs" by (auto simp: bs_def before_def dest: set_takeWhileD)
  obtain h seed where hs: "random_height (rnd l) 1 = (h, seed)" by fastforce
  have h: "1 \<le> h" "h \<le> kMaxHeight" using random_height_bounds [of 1 "rnd l"] hs by simp_all
  obtain r prev where find: "FindGreaterOrEqual compare l key = Some (r, prev)" and
    prev: "length prev = kMaxHeight" "\<forall>j < max_height l. prev ! j = Some (last_at (nodes l) j bs)"
    using FindGreaterOrEqual_result [OF ok, of key] unfolding bs_def by blast
  define prev' where "prev' = (if h > max_height l then fold (\<lambda>i prev. prev[i := Some 0]) [max_height l..<h] prev else prev)"
  define l' where "l' = \<lparr>nodes = link_levels (nodes l @ [\<lparr>node_key = key, node_next = replicate h None\<rparr>]) (length (nodes l)) prev' h,
    max_height = (if h > max_height l then h else max_height l), rnd = seed\<rparr>"
  have "Insert compare l key = Some l'"
    unfolding Insert_def find hs l'_def prev'_def by (simp only: option.case prod.case Let_def)
  moreover have linked: "linked (nodes l) bs key h (nodes l')"
    unfolding l'_def SkipList.simps
  proof (rule link_levels_linked)
    show "prev' ! j = Some (last_at (nodes l) j bs) \<and> last_at (nodes l) j bs < length (nodes l) \<and>
        j < height (nodes l) (last_at (nodes l) j bs)" if "j < h" for j
      using Insert_prev [OF ok h(2) that prev bs] last_at_bound [OF ok bs, of j] that h(2) by (simp add: prev'_def)
  qed
  moreover have "max_height l' = max (max_height l) h" by (simp add: l'_def)
  from linked_skip_ok [OF ok new bs_def refl linked h this]
  have "skip_ok compare l' (bs @ length (nodes l) # from_key compare (nodes l) key xs)" .
  ultimately show ?thesis unfolding bs_def [symmetric] by (auto simp: linked_def)
qed

end

definition sorted_keys :: "('k \<Rightarrow> 'k \<Rightarrow> int) \<Rightarrow> 'k SkipList \<Rightarrow> 'k list \<Rightarrow> bool" where
  "sorted_keys compare l ks \<longleftrightarrow> (\<exists>xs. skip_ok compare l xs \<and> ks = map (key_of (nodes l)) xs)"

context comparator
begin

lemma new_sorted_keys: "sorted_keys compare (SkipList_new any) []"
proof -
  have "skip_ok compare (SkipList_new any) []"
    by (auto simp: skip_ok_def SkipList_new_def height_def at_level_def Node_Next_def)
  then show ?thesis by (auto simp: sorted_keys_def)
qed

lemma Insert_sorted_keys:
  assumes "sorted_keys compare l ks" "\<And>y. y \<in> set ks \<Longrightarrow> compare y key \<noteq> 0"
  shows "\<exists>l'. Insert compare l key = Some l' \<and> sorted_keys compare l' (insert_key compare key ks)"
proof -
  obtain xs where xs: "skip_ok compare l xs" "ks = map (key_of (nodes l)) xs" using assms(1) by (auto simp: sorted_keys_def)
  define ys where "ys = before compare (nodes l) key xs @ length (nodes l) # from_key compare (nodes l) key xs"
  obtain l' where l': "Insert compare l key = Some l'" "skip_ok compare l' ys"
    "\<And>y. y < length (nodes l) \<Longrightarrow> key_of (nodes l') y = key_of (nodes l) y" "key_of (nodes l') (length (nodes l)) = key"
    using Insert_ok [OF xs(1), of key] assms(2) unfolding xs(2) ys_def by auto
  have old: "key_of (nodes l') y = key_of (nodes l) y" if "y \<in> set xs" for y
    using that skip_okD(7) [OF xs(1)] by (intro l'(3)) simp
  have "map (key_of (nodes l')) ys = insert_key compare key ks"
    unfolding ys_def insert_key_def xs(2) using old l'(4)
    by (auto simp: before_def from_key_def takeWhile_map dropWhile_map comp_def dest: set_takeWhileD set_dropWhileD)
  with l' show ?thesis by (auto simp: sorted_keys_def)
qed

end

section \<open>Iteration\<close>

text \<open>\<open>FindLessThan\<close> stops at the node that \<open>FindGreaterOrEqual\<close> puts in \<open>prev[0]\<close>, and \<open>FindLast\<close> where a key above all others goes.\<close>

lemmas find_ge_induct = find_ge_loop.raw_induct [where xa = "(((((compare, ns), key), x), i), prev)", unfolded prod.case,
  rotated, consumes 1, case_names step] for compare ns key x i prev

lemmas find_lt_induct = find_lt_loop.raw_induct [where xa = "((((compare, ns), key), x), i)", unfolded prod.case,
  rotated, consumes 1, case_names step] for compare ns key x i

lemma find_lt_ge:
  "find_ge_loop compare ns key x i prev = Some res \<Longrightarrow>
    0 < length prev \<longrightarrow> find_lt_loop compare ns key x i = Some (the (snd res ! 0))"
proof (induction rule: find_ge_induct)
  case (step f compare ns key x i prev res)
  show ?case
  proof (cases "KeyIsAfterNode compare ns key (Node_Next ns x i)")
    case True
    then obtain n where n: "Node_Next ns x i = Some n" "compare (node_key (ns ! n)) key < 0"
      by (auto simp: KeyIsAfterNode_def split: option.splits)
    then have "f compare ns key n i prev = Some res" using step(2) True by (simp add: Let_def)
    from step(1) [OF this] show ?thesis using n by (subst find_lt_loop.simps) simp
  next
    case False
    have "f compare ns key x (i - 1) (prev[i := Some x]) = Some res" if "i \<noteq> 0"
      using step(2) False that by (simp add: Let_def)
    then have "find_lt_loop compare ns key x (i - 1) = Some (the (snd res ! 0))" if "i \<noteq> 0" "0 < length prev"
      using step(1) [of compare ns key x "i - 1" "prev[i := Some x]" res] that by simp
    moreover have "find_lt_loop compare ns key x i = (if i = 0 then Some x else find_lt_loop compare ns key x (i - 1))"
      using False by (subst find_lt_loop.simps) (auto simp: KeyIsAfterNode_def split: option.splits)
    moreover have "snd res = prev[0 := Some x]" if "i = 0" using step(2) False that by (auto simp: Let_def)
    ultimately show ?thesis by simp
  qed
qed

lemma find_last_lt:
  "find_lt_loop compare ns key x i = Some y \<Longrightarrow> (\<And>a b. compare a b < 0) \<Longrightarrow> find_last_loop ns x i = Some y"
proof (induction rule: find_lt_induct)
  case (step f compare ns key x i y)
  have after: "find_last_loop ns n i = Some y" if "Node_Next ns x i = Some n" for n
    using step(1) [of compare ns key n i y] step(2) step(3) [of "node_key (ns ! n)" key] step(3) that by simp
  have down: "find_last_loop ns x (i - 1) = Some y" if "Node_Next ns x i = None" "i \<noteq> 0"
    using step(1) [of compare ns key x "i - 1" y] step(2,3) that by simp
  show ?case
  proof (cases "Node_Next ns x i")
    case None
    then show ?thesis using down step(2) by (subst find_last_loop.simps) (simp split: if_splits)
  next
    case (Some n)
    then show ?thesis using after by (subst find_last_loop.simps) simp
  qed
qed

lemma at_level_0:
  assumes "skip_ok compare l xs" "set bs \<subseteq> set xs"
  shows "at_level (nodes l) 0 bs = bs"
proof -
  have "0 < height (nodes l) x" if "x \<in> set bs" for x using skip_okD(8) [OF assms(1), of x] assms(2) that by auto
  then show ?thesis by (simp add: at_level_def filter_id_conv)
qed

context comparator
begin

lemma FindLessThan_result:
  assumes "skip_ok compare l xs"
  shows "FindLessThan compare l key = Some (last (0 # before compare (nodes l) key xs))"
proof -
  obtain r prev where find: "FindGreaterOrEqual compare l key = Some (r, prev)" and
    prev: "prev ! 0 = Some (last_at (nodes l) 0 (before compare (nodes l) key xs))"
    using FindGreaterOrEqual_result [OF assms, of key] skip_okD(3) [OF assms] by fastforce
  have "at_level (nodes l) 0 (before compare (nodes l) key xs) = before compare (nodes l) key xs"
    by (rule at_level_0 [OF assms]) (auto simp: before_def dest: set_takeWhileD)
  with find_lt_ge [OF find [unfolded FindGreaterOrEqual_def]] prev show ?thesis
    by (simp add: FindLessThan_def last_at_def)
qed

lemma FindLast_result:
  assumes "skip_ok compare l xs"
  shows "FindLast l = Some (last (0 # xs))"
proof -
  have height: "max_height l - 1 < kMaxHeight" using skip_okD(3,4) [OF assms] by simp
  have "\<forall>j \<le> max_height l - 1. path (nodes l) j 0 (at_level (nodes l) j (xs @ []))"
    using skip_okD(3-5) [OF assms] by auto
  from find_ge_levels [of "max_height l - 1" "nodes l" xs "[]" "\<lambda>_ _. - 1" undefined 0 "replicate kMaxHeight None", OF this]
  obtain r prev where ge: "find_ge_loop (\<lambda>_ _. - 1) (nodes l) undefined 0 (max_height l - 1) (replicate kMaxHeight None) = Some (r, prev)"
    and prev: "prev ! 0 = Some (last_at (nodes l) 0 xs)"
    using height by auto
  have "at_level (nodes l) 0 xs = xs" by (rule at_level_0 [OF assms]) simp
  with find_lt_ge [OF ge] prev have "find_lt_loop (\<lambda>_ _. - 1) (nodes l) undefined 0 (max_height l - 1) = Some (last (0 # xs))"
    by (simp add: last_at_def)
  from find_last_lt [OF this] show ?thesis by (simp add: FindLast_def)
qed

lemma Iterator_Next_result:
  assumes "skip_ok compare l xs" "i < length xs"
  shows "Iterator_Next l (xs ! i) = (if Suc i < length xs then Some (xs ! Suc i) else None)"
proof -
  have "at_level (nodes l) 0 xs = xs" by (rule at_level_0 [OF assms(1)]) simp
  then have "path (nodes l) 0 0 (take i xs @ xs ! i # drop (Suc i) xs)"
    using skip_okD(5) [OF assms(1), of 0] by (simp add: id_take_nth_drop [OF assms(2), symmetric])
  from path_next [OF path_from [OF this]] show ?thesis
    by (auto simp: Iterator_Next_def hd_drop_conv_nth split: list.splits)
      (metis Cons_nth_drop_Suc list.inject)
qed

lemma before_nth:
  assumes "sorted_wrt (\<lambda>x y. compare (key_of ns x) (key_of ns y) < 0) xs" "i < length xs"
  shows "before compare ns (key_of ns (xs ! i)) xs = take i xs"
  unfolding before_def
proof (rule takeWhile_eq_take_P_nth)
  show "compare (key_of ns (xs ! j)) (key_of ns (xs ! i)) < 0" if "j < i" "j < length xs" for j
    using sorted_wrt_nth_less [OF assms(1) that(1) assms(2)] .
  show "\<not> compare (key_of ns (xs ! i)) (key_of ns (xs ! i)) < 0" if "i < length xs" by simp
qed

lemma Iterator_Prev_result:
  assumes "skip_ok compare l xs" "i < length xs"
  shows "Iterator_Prev compare l (xs ! i) = Some (if i = 0 then None else Some (xs ! (i - 1)))"
proof -
  have "FindLessThan compare l (node_key (nodes l ! (xs ! i))) = Some (last (0 # take i xs))"
    using FindLessThan_result [OF assms(1)] before_nth [OF skip_okD(10) [OF assms(1)] assms(2)] by (simp add: key_of_def)
  moreover have "last (0 # take i xs) = (if i = 0 then 0 else xs ! (i - 1))"
    using assms(2) by (auto simp: last_conv_nth min_def)
  moreover have "0 \<notin> set xs" using skip_okD(7) [OF assms(1)] by simp
  then have "xs ! (i - 1) \<noteq> 0" using assms(2) by (metis less_imp_diff_less nth_mem)
  ultimately show ?thesis by (simp add: Iterator_Prev_def)
qed

end

end
