(* ===== verification/Spec2Isabelle.thy ===== *)
theory Spec2Isabelle
  imports Ngx_Encode Http_Request_Line Http_Header Http_Body Http_Uri Http_Args Http_Process Ldb_Log Ldb_Format Ldb_SkipList
begin

text \<open>
  A verification development for the HTTP front end of nginx 1.4.4, \<^verbatim>\<open>src/nginx-1.4.4/src\<close>.

  \<^bold>\<open>The program.\<close> A worker reads the bytes of a connection into a buffer and hands them to parsers that are written as
  state machines over the bytes: the request line, then the header lines (\<^verbatim>\<open>http/ngx_http_parse.c\<close>). What they record are
  pointers into the buffer. \<^verbatim>\<open>http/ngx_http_request.c\<close> turns them into the strings of the request, normalises the path,
  checks the host and calls a handler for each header it knows; the body is then read through the filters of
  \<^verbatim>\<open>http/ngx_http_request_body.c\<close>. Everything rests on the string functions of \<^verbatim>\<open>core/ngx_string.c\<close>.

  \<^bold>\<open>Conventions.\<close> A byte is an \<open>8 word\<close>, \<open>ngx_int_t\<close> and \<open>ngx_uint_t\<close> are \<open>64 word\<close>s, so arithmetic wraps where the code's
  does. A buffer is the list of its bytes; a pointer into it is an index, \<open>None\<close> where the code has \<open>NULL\<close>. A string
  that the code expects to end in a zero byte is passed with that byte. Reading or writing outside of a buffer is not
  given a value: such functions return an option and \<open>None\<close> (or the constructor \<open>Fault\<close>) is the access that C leaves
  undefined, so that a theorem with the result \<open>Some\<close> is also a theorem about memory safety. Return codes are the
  constants of the code (\<open>NGX_OK\<close>, \<open>NGX_AGAIN\<close>, ...).

  \<^bold>\<open>Theories.\<close>
  \<^item> \<open>Prelude\<close>: types, character literals, lemmas on bytes and words.
  \<^item> \<open>Ngx_String\<close>, \<open>Ngx_Encode\<close>: \<^verbatim>\<open>core/ngx_string.c\<close>. Comparison and search (order, first occurrence, no read
    outside the strings), numbers (value or error, round trip with printing), \<open>ngx_sort\<close> (the stable sort), base64,
    UTF-8, URI and HTML escaping (round trips, exact length predictions, what is left in the output).
  \<^item> \<open>Ngx_Hash\<close>: the hash functions of \<^verbatim>\<open>core/ngx_hash.c\<close>.
  \<^item> \<open>Http_Core\<close>: the record \<open>ngx_http_request_t\<close> of what the parsers record, the driver loop \<open>scan\<close> that all of them
    share, and the locales for a parser that may be interrupted: \<open>incremental_parser\<close> (scanning in pieces is scanning at
    once), \<open>invariant_parser\<close> (a step invariant holds at the end) and \<open>resumable_parser\<close>.
  \<^item> \<open>Http_Request_Line\<close>, \<open>Http_Header\<close>, \<open>Http_Response\<close>: the state machines, one definition for each group of states
    (\<open>rl_\<close>, \<open>hl_\<close>, \<open>sl_\<close>, \<open>ch_\<close>), with the locales of \<open>Http_Core\<close> interpreted on them. They are shown to give the same
    result however the input is cut into reads, to find exactly the parts of well-formed input, and to keep their
    pointers and the copies they make inside the buffers.
  \<^item> \<open>Http_Uri\<close>: \<open>ngx_http_parse_uri\<close> and \<open>ngx_http_parse_complex_uri\<close>, the latter with the buffer it writes to. The
    reference \<open>path_spec\<close> decodes escapes and keeps a stack of segments; the parser computes the same path.
  \<^item> \<open>Http_Args\<close>: arguments, cookies and unsafe URIs.
  \<^item> \<open>Http_Process\<close>: the request line parser composed with the processing of the URI (the path is clean whatever was
    sent), the host, and the header handlers composed with the final checks (the framing of the body is unambiguous).
  \<^item> \<open>Http_Body\<close>: the length filter and the chunked filter of a request body, and the chunked filter of a response, which
    are shown to be inverse for any partition of the bytes into buffers.

  \<^bold>\<open>Bounds.\<close> All loops of the model are recursive functions with termination proofs and without fuel.

  \<^bold>\<open>Not modelled.\<close> Sockets, events, timers, processes and shared memory; configuration; logging; the pools, whose
  allocation is a parameter where a size matters; the upstream, mail and SSL modules; code under \<open>NGX_WIN32\<close>.
\<close>

end
